(* ===== verification/KB_Prelude.thy ===== *)
theory KB_Prelude
  imports Main "HOL-Library.Word"
begin

text \<open>
  Shared vocabulary of the development: the machine integers of the Rust sources, results of
  fallible calls, methods that take \<open>&mut self\<close> and may fail, integer-to-byte conversions and the
  slice operations of the encoders, with the lemmas every component theory uses.
\<close>

unbundle bit_operations_syntax

section \<open>Machine integers and byte strings\<close>

type_synonym u8 = "8 word"
type_synonym u16 = "16 word"
type_synonym u32 = "32 word"
type_synonym u64 = "64 word"
type_synonym bytes = "8 word list"

named_theorems kb_defs \<open>definitions of elementary operations, unfolded on demand\<close>
named_theorems result_simps \<open>elimination of successful results\<close>

section \<open>Results and fallible methods\<close>

text \<open>
  \<open>Result<T, E>\<close> is \<open>'e + 'a\<close> with the error on the left. The \<open>?\<close> operator is \<open>rbind\<close>.
\<close>

definition rbind :: "'e + 'a \<Rightarrow> ('a \<Rightarrow> 'e + 'b) \<Rightarrow> 'e + 'b" where
  "rbind m f = (case m of Inl e \<Rightarrow> Inl e | Inr x \<Rightarrow> f x)"

definition ensure :: "bool \<Rightarrow> 'e \<Rightarrow> 'e + unit" where
  "ensure b e = (if b then Inr () else Inl e)"

definition ok_or :: "'a option \<Rightarrow> 'e \<Rightarrow> 'e + 'a" where
  "ok_or m e = (case m of None \<Rightarrow> Inl e | Some x \<Rightarrow> Inr x)"

definition map_err :: "('e \<Rightarrow> 'f) \<Rightarrow> 'e + 'a \<Rightarrow> 'f + 'a" where
  "map_err f m = (case m of Inl e \<Rightarrow> Inl (f e) | Inr x \<Rightarrow> Inr x)"

lemma rbind_simps [simp]:
  "rbind (Inl e) f = Inl e"
  "rbind (Inr x) f = f x"
  by (simp_all add: rbind_def)

lemma rbind_eq_Inr [result_simps]:
  "rbind m f = Inr y \<longleftrightarrow> (\<exists>x. m = Inr x \<and> f x = Inr y)"
  by (cases m) auto

lemma rbind_eq_Inl [result_simps]:
  "rbind m f = Inl e \<longleftrightarrow> m = Inl e \<or> (\<exists>x. m = Inr x \<and> f x = Inl e)"
  by (cases m) auto

lemma if_Inr_cases:
  assumes "(if b then Inr x else r) = Inr c" "b \<Longrightarrow> c = x \<Longrightarrow> P" "r = Inr c \<Longrightarrow> P"
  shows P
  using assms by (cases b) auto

lemma ensure_eq_Inr [simp]: "ensure b e = Inr u \<longleftrightarrow> b"
  by (simp add: ensure_def)

lemma ensure_eq_Inl [simp]: "ensure b e = Inl e' \<longleftrightarrow> \<not> b \<and> e' = e"
  by (auto simp: ensure_def)

lemma ensure_simps [simp]: "ensure True e = Inr ()" "ensure False e = Inl e"
  by (simp_all add: ensure_def)

lemma ok_or_simps [simp]: "ok_or None e = Inl e" "ok_or (Some x) e = Inr x"
  by (simp_all add: ok_or_def)

lemma ok_or_eq_Inr [simp]: "ok_or m e = Inr x \<longleftrightarrow> m = Some x"
  by (cases m) auto

lemma ok_or_eq_Inl [simp]: "ok_or m e = Inl e' \<longleftrightarrow> m = None \<and> e' = e"
  by (cases m) auto

lemma map_err_simps [simp]: "map_err f (Inl e) = Inl (f e)" "map_err f (Inr x) = Inr x"
  by (simp_all add: map_err_def)

lemma map_err_eq_Inr [simp]: "map_err f m = Inr x \<longleftrightarrow> m = Inr x"
  by (cases m) auto

lemma map_err_eq_Inl [simp]: "map_err f m = Inl e \<longleftrightarrow> (\<exists>e'. m = Inl e' \<and> e = f e')"
  by (cases m) auto

text \<open>
  A method on \<open>&mut self\<close> that returns a \<open>Result\<close> keeps whatever it has written to \<open>self\<close> when it
  returns an error: its model returns the object as it stands at the return, on either branch.
  \<open>sbind\<close> is the \<open>?\<close> operator between two such calls, \<open>lift_r\<close> a call that only reads \<open>self\<close>.
\<close>

type_synonym ('s, 'e, 'a) mut = "'s \<Rightarrow> ('e + 'a) \<times> 's"

definition sbind :: "('e + 'a) \<times> 's \<Rightarrow> ('a \<Rightarrow> ('s, 'e, 'b) mut) \<Rightarrow> ('e + 'b) \<times> 's" where
  "sbind r f = (case r of (Inl e, s) \<Rightarrow> (Inl e, s) | (Inr x, s) \<Rightarrow> f x s)"

lemma sbind_simps [simp]:
  "sbind (Inl e, s) f = (Inl e, s)"
  "sbind (Inr x, s) f = f x s"
  by (simp_all add: sbind_def)

lemma sbind_eq_Inr [result_simps]:
  "sbind r f = (Inr y, s') \<longleftrightarrow> (\<exists>x s1. r = (Inr x, s1) \<and> f x s1 = (Inr y, s'))"
  by (cases r; cases "fst r") (auto simp: sbind_def split: sum.splits)

lemma sbind_eq_Inl [result_simps]:
  "sbind r f = (Inl e, s') \<longleftrightarrow>
     r = (Inl e, s') \<or> (\<exists>x s1. r = (Inr x, s1) \<and> f x s1 = (Inl e, s'))"
  by (cases r; cases "fst r") (auto simp: sbind_def split: sum.splits)

section \<open>Runs of a state machine\<close>

text \<open>
  A component that is driven by a sequence of events runs \<open>exec_all\<close>: the calls in order, up to
  the first error. The locales give the two arguments every such component needs once and for
  all: an invariant kept by each successful call holds at the end of a run, and a balance that
  each call changes by what it takes and gives is conserved over the run.
\<close>

fun exec_all :: "('ev \<Rightarrow> ('s, 'e, unit) mut) \<Rightarrow> 'ev list \<Rightarrow> ('s, 'e, unit) mut" where
  "exec_all f [] s = (Inr (), s)"
| "exec_all f (e # es) s = sbind (f e s) (\<lambda>_. exec_all f es)"

lemma exec_all_Cons_Inr [simp]:
  "exec_all f (e # es) s = (Inr u, s') \<longleftrightarrow>
     (\<exists>s1. f e s = (Inr (), s1) \<and> exec_all f es s1 = (Inr (), s'))"
  by (auto simp: sbind_eq_Inr)

declare exec_all.simps(2) [simp del]

lemma exec_all_append_Inr:
  "exec_all f (es @ es') s = (Inr u, s') \<longleftrightarrow>
     (\<exists>s1. exec_all f es s = (Inr (), s1) \<and> exec_all f es' s1 = (Inr (), s'))"
  by (induction es arbitrary: s) auto

locale machine =
  fixes exec :: "'ev \<Rightarrow> ('s, 'e, unit) mut"
    and inv :: "'s \<Rightarrow> bool"
  assumes inv_step: "inv s \<Longrightarrow> exec ev s = (Inr (), s') \<Longrightarrow> inv s'"
begin

lemma inv_run: "inv s \<Longrightarrow> exec_all exec evs s = (Inr (), s') \<Longrightarrow> inv s'"
  by (induction evs arbitrary: s) (auto intro: inv_step)

end

locale ledger = machine exec inv
  for exec :: "'ev \<Rightarrow> ('s, 'e, unit) mut" and inv :: "'s \<Rightarrow> bool" +
  fixes balance :: "'s \<Rightarrow> nat"
    and takes :: "'ev \<Rightarrow> nat"
    and gives :: "'ev \<Rightarrow> nat"
  assumes balance_step:
    "inv s \<Longrightarrow> exec ev s = (Inr (), s') \<Longrightarrow> balance s' + takes ev = balance s + gives ev"
begin

lemma balance_run:
  "inv s \<Longrightarrow> exec_all exec evs s = (Inr (), s') \<Longrightarrow>
   balance s' + sum_list (map takes evs) = balance s + sum_list (map gives evs)"
proof (induction evs arbitrary: s)
  case (Cons ev evs)
  then obtain s1 where 1: "exec ev s = (Inr (), s1)" "exec_all exec evs s1 = (Inr (), s')" by auto
  then show ?case
    using Cons.IH[of s1] Cons.prems(1) inv_step balance_step by fastforce
qed simp

end

section \<open>Integers as byte strings\<close>

text \<open>
  \<open>le_bytes n w\<close> is \<open>w.to_le_bytes()\<close> for an integer of \<open>n\<close> bytes and \<open>of_le_bytes\<close> is
  \<open>from_le_bytes\<close>; the big-endian forms reverse them.
\<close>

definition le_bytes :: "nat \<Rightarrow> 'a::len word \<Rightarrow> bytes" where
  "le_bytes n w = map (\<lambda>i. ucast (drop_bit (8 * i) w)) [0..<n]"

primrec of_le_bytes :: "bytes \<Rightarrow> 'a::len word" where
  "of_le_bytes [] = 0"
| "of_le_bytes (b # bs) = ucast b OR push_bit 8 (of_le_bytes bs)"

definition be_bytes :: "nat \<Rightarrow> 'a::len word \<Rightarrow> bytes" where
  "be_bytes n w = rev (le_bytes n w)"

definition of_be_bytes :: "bytes \<Rightarrow> 'a::len word" where
  "of_be_bytes bs = of_le_bytes (rev bs)"

lemma length_le_bytes [simp]: "length (le_bytes n w) = n"
  by (simp add: le_bytes_def)

lemma length_be_bytes [simp]: "length (be_bytes n w) = n"
  by (simp add: be_bytes_def)

lemma bit_of_le_bytes:
  "bit (of_le_bytes bs :: 'a::len word) i \<longleftrightarrow>
     i < LENGTH('a) \<and> i < 8 * length bs \<and> bit (bs ! (i div 8)) (i mod 8)"
proof (induction bs arbitrary: i)
  case Nil
  then show ?case by simp
next
  case (Cons b bs)
  show ?case
  proof (cases "i < 8")
    case True
    then show ?thesis
      by (auto simp: bit_or_iff bit_push_bit_iff bit_ucast_iff dest: bit_imp_le_length)
  next
    case False
    then have d: "i div 8 = Suc ((i - 8) div 8)" "i mod 8 = (i - 8) mod 8"
      by (simp_all add: le_div_geq le_mod_geq)
    have "\<not> bit b i" using False bit_imp_le_length[of b i] by auto
    with False show ?thesis
      by (auto simp: bit_or_iff bit_push_bit_iff bit_ucast_iff Cons.IH d)
  qed
qed

lemma of_le_bytes_le_bytes [simp]:
  assumes "LENGTH('a::len) = 8 * n"
  shows "of_le_bytes (le_bytes n (w :: 'a word)) = w"
proof (rule bit_word_eqI)
  fix i assume i: "i < LENGTH('a)"
  then have "i div 8 < n" using assms by simp
  moreover have "8 * (i div 8) + i mod 8 = i" by simp
  ultimately show "bit (of_le_bytes (le_bytes n w) :: 'a word) i = bit w i"
    using i assms by (simp add: bit_of_le_bytes le_bytes_def bit_ucast_iff bit_drop_bit_eq)
qed

lemma le_bytes_of_le_bytes [simp]:
  assumes "8 * length bs \<le> LENGTH('a::len)"
  shows "le_bytes (length bs) (of_le_bytes bs :: 'a word) = bs"
proof (rule nth_equalityI)
  show "length (le_bytes (length bs) (of_le_bytes bs :: 'a word)) = length bs" by simp
  fix j assume "j < length (le_bytes (length bs) (of_le_bytes bs :: 'a word))"
  then have j: "j < length bs" by simp
  show "le_bytes (length bs) (of_le_bytes bs :: 'a word) ! j = bs ! j"
  proof (rule bit_word_eqI)
    fix i assume i: "i < LENGTH(8)"
    then have "(8 * j + i) div 8 = j" "(8 * j + i) mod 8 = i" by simp_all
    moreover have "8 * j + i < 8 * length bs" using i j by simp
    ultimately show "bit (le_bytes (length bs) (of_le_bytes bs :: 'a word) ! j) i = bit (bs ! j) i"
      using i j assms by (simp add: le_bytes_def bit_ucast_iff bit_drop_bit_eq bit_of_le_bytes)
  qed
qed

lemma le_bytes_expand:
  "le_bytes 2 w = [ucast w, ucast (drop_bit 8 w)]"
  "le_bytes 4 w = [ucast w, ucast (drop_bit 8 w), ucast (drop_bit 16 w), ucast (drop_bit 24 w)]"
  by (simp_all add: le_bytes_def numeral_eq_Suc)

lemma of_be_bytes_be_bytes [simp]:
  "LENGTH('a::len) = 8 * n \<Longrightarrow> of_be_bytes (be_bytes n (w :: 'a word)) = w"
  by (simp add: of_be_bytes_def be_bytes_def)

lemma be_bytes_of_be_bytes [simp]:
  "8 * length bs \<le> LENGTH('a::len) \<Longrightarrow> be_bytes (length bs) (of_be_bytes bs :: 'a word) = bs"
  using le_bytes_of_le_bytes[of "rev bs", where 'a = 'a]
  by (simp add: of_be_bytes_def be_bytes_def)

lemma of_le_bytes_inj:
  assumes "length xs = length ys" "8 * length xs \<le> LENGTH('a::len)"
    and "(of_le_bytes xs :: 'a word) = of_le_bytes ys"
  shows "xs = ys"
  using assms le_bytes_of_le_bytes[of xs, where 'a = 'a] le_bytes_of_le_bytes[of ys, where 'a = 'a]
  by metis

section \<open>Slices\<close>

text \<open>
  \<open>sub_slice o n bs\<close> is \<open>bs[o..o + n]\<close> and \<open>put_at o v bs\<close> the array after
  \<open>bs[o..o + v.len()].copy_from_slice(v)\<close>, both for ranges inside the array.
\<close>

definition sub_slice :: "nat \<Rightarrow> nat \<Rightarrow> 'a list \<Rightarrow> 'a list" where
  "sub_slice off n bs = take n (drop off bs)"

definition put_at :: "nat \<Rightarrow> 'a list \<Rightarrow> 'a list \<Rightarrow> 'a list" where
  "put_at off v bs = take off bs @ v @ drop (off + length v) bs"

lemma length_sub_slice [simp]: "off + n \<le> length bs \<Longrightarrow> length (sub_slice off n bs) = n"
  by (simp add: sub_slice_def)

lemma nth_slice: "i < n \<Longrightarrow> off + n \<le> length bs \<Longrightarrow> sub_slice off n bs ! i = bs ! (off + i)"
  by (simp add: sub_slice_def)

lemma length_put_at [simp]: "off + length v \<le> length bs \<Longrightarrow> length (put_at off v bs) = length bs"
  by (simp add: put_at_def)

lemma slice_put_same [simp]:
  "off + n \<le> length bs \<Longrightarrow> length v = n \<Longrightarrow> sub_slice off n (put_at off v bs) = v"
  by (simp add: sub_slice_def put_at_def)

lemma nth_put_at:
  assumes "off + length v \<le> length bs" "i < length bs"
  shows "put_at off v bs ! i = (if off \<le> i \<and> i < off + length v then v ! (i - off) else bs ! i)"
  using assms by (auto simp: put_at_def nth_append)

lemma slice_put_other [simp]:
  assumes "off + length v \<le> length bs" "o' + n \<le> off \<or> off + length v \<le> o'" "o' + n \<le> length bs"
  shows "sub_slice o' n (put_at off v bs) = sub_slice o' n bs"
  using assms by (intro nth_equalityI) (auto simp: nth_slice nth_put_at)

lemma put_at_slice_same [simp]: "off + n \<le> length bs \<Longrightarrow> put_at off (sub_slice off n bs) bs = bs"
  by (intro nth_equalityI) (auto simp: nth_put_at nth_slice)

lemma put_at_overwrite [simp]:
  "length v = length w \<Longrightarrow> off + length w \<le> length bs \<Longrightarrow> put_at off v (put_at off w bs) = put_at off v bs"
  by (intro nth_equalityI) (auto simp: nth_put_at)

lemma slice_append [simp]: "off + n \<le> length bs \<Longrightarrow> sub_slice off n (bs @ rest) = sub_slice off n bs"
  by (simp add: sub_slice_def)

lemma slice_take [simp]: "off + n \<le> k \<Longrightarrow> sub_slice off n (take k bs) = sub_slice off n bs"
  by (simp add: sub_slice_def take_drop min_def)

lemma slice_all: "length xs = n \<Longrightarrow> sub_slice 0 n xs = xs"
  by (simp add: sub_slice_def)

lemma slice_join: "sub_slice a n xs @ sub_slice (a + n) m xs = sub_slice a (n + m) xs"
  by (simp add: sub_slice_def take_add) (simp add: add.commute)

lemma xor_cancel_right [simp]: "x XOR z = y XOR z \<longleftrightarrow> x = (y :: 'a::len word)"
proof
  assume "x XOR z = y XOR z"
  then have "(x XOR z) XOR z = (y XOR z) XOR z" by simp
  then show "x = y" by (simp add: xor.assoc)
qed simp

lemma xor_cancel_left [simp]: "z XOR x = z XOR y \<longleftrightarrow> x = (y :: 'a::len word)"
  by (simp add: xor.commute[of z])

lemma xor_eq_0_iff: "x XOR y = 0 \<longleftrightarrow> x = (y :: 'a::len word)"
  using xor_cancel_right[of x y y] by simp

lemma slice_split: "off + n \<le> length xs \<Longrightarrow> take off xs @ sub_slice off n xs @ drop (off + n) xs = xs"
  by (simp add: sub_slice_def) (metis add.commute append_take_drop_id drop_drop)

lemma take_put_at:
  "off + length v \<le> k \<Longrightarrow> k \<le> length bs \<Longrightarrow> take k (put_at off v bs) = put_at off v (take k bs)"
  by (intro nth_equalityI) (auto simp: nth_put_at)

lemma put_at_commute:
  assumes "a + length v \<le> length bs" "b + length w \<le> length bs"
    and "a + length v \<le> b \<or> b + length w \<le> a"
  shows "put_at a v (put_at b w bs) = put_at b w (put_at a v bs)"
  using assms by (intro nth_equalityI) (auto simp: nth_put_at)

lemma slice_slice:
  "a + n \<le> m \<Longrightarrow> sub_slice a n (sub_slice off m xs) = sub_slice (off + a) n xs"
  by (simp add: sub_slice_def drop_take min_absorb1 ac_simps)

lemma put_at_build:
  "length pre = off \<Longrightarrow> length v \<le> k \<Longrightarrow>
   put_at off v (pre @ replicate k z) = (pre @ v) @ replicate (k - length v) z"
  by (simp add: put_at_def)

lemma le_bytes_eq_iff:
  assumes "LENGTH('a::len) = 8 * n"
  shows "le_bytes n (w :: 'a word) = le_bytes n w' \<longleftrightarrow> w = w'"
  by (metis of_le_bytes_le_bytes assms)

lemma unat_of_nat_u32: "n < 2 ^ 32 \<Longrightarrow> unat (of_nat n :: u32) = n"
  by (simp add: unat_of_nat)

lemma le_bytes_slice:
  "off + n \<le> length bs \<Longrightarrow> 8 * n \<le> LENGTH('a::len) \<Longrightarrow>
   le_bytes n (of_le_bytes (sub_slice off n bs) :: 'a word) = sub_slice off n bs"
  using le_bytes_of_le_bytes[of "sub_slice off n bs", where 'a = 'a] by simp

end
