(* ===== verification/Wire_Frame.thy ===== *)
theory Wire_Frame
  imports KB_Prelude
begin

text \<open>
  The KBP v1 frame format of \<open>crates/kindlebridge-wire/src/frame.rs\<close>: command numbers, the fixed
  40-byte header with its CRC-32C, header validation, and whole frames. The lemmas show that
  encoding and decoding are inverse to each other, that only validated headers cross the codec,
  and that the checksum rejects every header with one damaged byte.
\<close>

section \<open>Commands, limits and headers\<close>

definition MAGIC :: bytes where "MAGIC = [0x4b, 0x42, 0x50, 0x31]"
definition HEADER_LEN :: nat where "HEADER_LEN = 40"
definition PROTOCOL_MAJOR :: u16 where "PROTOCOL_MAJOR = 1"
definition PROTOCOL_MINOR :: u16 where "PROTOCOL_MINOR = 0"
definition FLAG_END_STREAM :: u32 where "FLAG_END_STREAM = 0x00000001"
definition CRITICAL_FLAG_MASK :: u32 where "CRITICAL_FLAG_MASK = 0x0000ffff"
definition KNOWN_CRITICAL_FLAGS :: u32 where "KNOWN_CRITICAL_FLAGS = FLAG_END_STREAM"

datatype command =
    Hello | PairingFinish | Open | Accept | Reject | Data | Credit | Close | Reset
  | Ping | Pong | GoAway | Error

datatype wire_error =
    HeaderTooShort nat
  | FrameLengthMismatch nat nat
  | InvalidMagic bytes
  | InvalidHeaderSize u16
  | UnsupportedMajor u16
  | UnknownCommand u16
  | HeaderCrcMismatch u32 u32
  | PayloadTooLarge u32 u32
  | CreditTooLarge u32 u32
  | CreditPayloadNotEmpty u32
  | InvalidCreditDelta u32
  | UnexpectedCreditDelta command u32
  | UnknownCriticalFlags u32
  | EndStreamOnNonData command
  | InvalidStreamForCommand command u32
  | ReservedNotZero u32
  | PayloadLengthOverflow nat

fun command_code :: "command \<Rightarrow> u16" where
  "command_code Hello = 1"
| "command_code PairingFinish = 2"
| "command_code Open = 3"
| "command_code Accept = 4"
| "command_code Reject = 5"
| "command_code Data = 6"
| "command_code Credit = 7"
| "command_code Close = 8"
| "command_code Reset = 9"
| "command_code Ping = 10"
| "command_code Pong = 11"
| "command_code GoAway = 12"
| "command_code Error = 13"

definition command_try_from :: "u16 \<Rightarrow> wire_error + command" where
  "command_try_from v =
     (if v = 1 then Inr Hello
      else if v = 2 then Inr PairingFinish
      else if v = 3 then Inr Open
      else if v = 4 then Inr Accept
      else if v = 5 then Inr Reject
      else if v = 6 then Inr Data
      else if v = 7 then Inr Credit
      else if v = 8 then Inr Close
      else if v = 9 then Inr Reset
      else if v = 10 then Inr Ping
      else if v = 11 then Inr Pong
      else if v = 12 then Inr GoAway
      else if v = 13 then Inr Error
      else Inl (UnknownCommand v))"

fun allows_stream_zero :: "command \<Rightarrow> bool" where
  "allows_stream_zero c = (c \<in> {Hello, PairingFinish, Credit, Ping, Pong, GoAway, Error})"

fun allows_nonzero_stream :: "command \<Rightarrow> bool" where
  "allows_nonzero_stream c = (c \<in> {Open, Accept, Reject, Data, Credit, Close, Reset})"

record decode_limits =
  max_payload :: u32
  max_window :: u32

definition default_decode_limits :: decode_limits where
  "default_decode_limits = \<lparr>max_payload = 16 * 1024 * 1024, max_window = 16 * 1024 * 1024\<rparr>"

record header =
  h_major :: u16
  h_minor :: u16
  h_command :: command
  h_flags :: u32
  h_stream_id :: u32
  h_sequence :: u32
  h_payload_length :: u32
  h_credit_delta :: u32
  h_reserved :: u32

definition header_new :: "command \<Rightarrow> u32 \<Rightarrow> u32 \<Rightarrow> header" where
  "header_new c sid sq =
     \<lparr>h_major = PROTOCOL_MAJOR, h_minor = PROTOCOL_MINOR, h_command = c, h_flags = 0,
      h_stream_id = sid, h_sequence = sq, h_payload_length = 0, h_credit_delta = 0,
      h_reserved = 0\<rparr>"

definition header_validate :: "decode_limits \<Rightarrow> header \<Rightarrow> wire_error + unit" where
  "header_validate lim h =
     (if h_major h \<noteq> PROTOCOL_MAJOR then Inl (UnsupportedMajor (h_major h))
      else if h_payload_length h > max_payload lim
        then Inl (PayloadTooLarge (h_payload_length h) (max_payload lim))
      else if h_reserved h \<noteq> 0 then Inl (ReservedNotZero (h_reserved h))
      else
        let unknown_critical = h_flags h AND CRITICAL_FLAG_MASK AND NOT KNOWN_CRITICAL_FLAGS in
        if unknown_critical \<noteq> 0 then Inl (UnknownCriticalFlags unknown_critical)
        else if h_flags h AND FLAG_END_STREAM \<noteq> 0 \<and> h_command h \<noteq> Data
          then Inl (EndStreamOnNonData (h_command h))
        else
          rbind
            (if h_command h = Credit then
               if h_payload_length h \<noteq> 0 then Inl (CreditPayloadNotEmpty (h_payload_length h))
               else if h_credit_delta h = 0 then Inl (InvalidCreditDelta 0)
               else if h_credit_delta h > max_window lim
                 then Inl (CreditTooLarge (h_credit_delta h) (max_window lim))
               else Inr ()
             else if h_credit_delta h \<noteq> 0
               then Inl (UnexpectedCreditDelta (h_command h) (h_credit_delta h))
             else Inr ())
            (\<lambda>_.
               let stream_is_valid =
                     (if h_stream_id h = 0 then allows_stream_zero (h_command h)
                      else allows_nonzero_stream (h_command h)) in
               if \<not> stream_is_valid
                 then Inl (InvalidStreamForCommand (h_command h) (h_stream_id h))
               else Inr ()))"

section \<open>CRC-32C\<close>

definition crc_bit :: "u32 \<Rightarrow> u32" where
  "crc_bit crc = drop_bit 1 crc XOR (0x82f63b78 AND (0 - (crc AND 1)))"

definition crc_byte :: "u8 \<Rightarrow> u32 \<Rightarrow> u32" where
  "crc_byte b crc = (crc_bit ^^ 8) (crc XOR ucast b)"

definition crc32c :: "bytes \<Rightarrow> u32" where
  "crc32c bs = NOT (fold crc_byte bs (- 1))"

section \<open>The header codec\<close>

definition get_u16 :: "bytes \<Rightarrow> nat \<Rightarrow> u16" where
  "get_u16 bs off = of_le_bytes [bs ! off, bs ! (off + 1)]"

definition get_u32 :: "bytes \<Rightarrow> nat \<Rightarrow> u32" where
  "get_u32 bs off = of_le_bytes [bs ! off, bs ! (off + 1), bs ! (off + 2), bs ! (off + 3)]"

definition put_u16 :: "bytes \<Rightarrow> nat \<Rightarrow> u16 \<Rightarrow> bytes" where
  "put_u16 bs off v = put_at off (le_bytes 2 v) bs"

definition put_u32 :: "bytes \<Rightarrow> nat \<Rightarrow> u32 \<Rightarrow> bytes" where
  "put_u32 bs off v = put_at off (le_bytes 4 v) bs"

definition header_fields :: "header \<Rightarrow> bytes" where
  "header_fields h =
     (let b = put_at 0 MAGIC (replicate HEADER_LEN 0);
          b = put_u16 b 4 (h_major h);
          b = put_u16 b 6 (h_minor h);
          b = put_u16 b 8 (of_nat HEADER_LEN);
          b = put_u16 b 10 (command_code (h_command h));
          b = put_u32 b 12 (h_flags h);
          b = put_u32 b 16 (h_stream_id h);
          b = put_u32 b 20 (h_sequence h);
          b = put_u32 b 24 (h_payload_length h);
          b = put_u32 b 28 (h_credit_delta h);
          b = put_u32 b 32 0
      in put_u32 b 36 (h_reserved h))"

definition header_encode :: "decode_limits \<Rightarrow> header \<Rightarrow> wire_error + bytes" where
  "header_encode lim h =
     rbind (header_validate lim h) (\<lambda>_.
       let b = header_fields h; checksum = crc32c b in Inr (put_u32 b 32 checksum))"

definition header_decode :: "decode_limits \<Rightarrow> bytes \<Rightarrow> wire_error + header" where
  "header_decode lim bs =
     (if length bs < HEADER_LEN then Inl (HeaderTooShort (length bs))
      else
        let magic = sub_slice 0 4 bs in
        if magic \<noteq> MAGIC then Inl (InvalidMagic magic)
        else
          let header_size = get_u16 bs 8 in
          if header_size \<noteq> of_nat HEADER_LEN then Inl (InvalidHeaderSize header_size)
          else
            let actual_crc = get_u32 bs 32;
                canonical = put_u32 (take HEADER_LEN bs) 32 0;
                expected_crc = crc32c canonical in
            if actual_crc \<noteq> expected_crc then Inl (HeaderCrcMismatch expected_crc actual_crc)
            else
              rbind (command_try_from (get_u16 bs 10)) (\<lambda>c.
                let h = \<lparr>h_major = get_u16 bs 4, h_minor = get_u16 bs 6, h_command = c,
                         h_flags = get_u32 bs 12, h_stream_id = get_u32 bs 16,
                         h_sequence = get_u32 bs 20, h_payload_length = get_u32 bs 24,
                         h_credit_delta = get_u32 bs 28, h_reserved = get_u32 bs 36\<rparr> in
                rbind (header_validate lim h) (\<lambda>_. Inr h)))"

section \<open>Frames\<close>

record frame =
  f_header :: header
  f_payload :: bytes

text \<open>\<open>u32::try_from(len)\<close>: the length as a 32-bit integer, where it fits.\<close>

definition u32_try_from :: "nat \<Rightarrow> u32 option" where
  "u32_try_from n = (if n < 2 ^ 32 then Some (of_nat n) else None)"

definition frame_new :: "header \<Rightarrow> bytes \<Rightarrow> wire_error + frame" where
  "frame_new h payload =
     rbind (ok_or (u32_try_from (length payload)) (PayloadLengthOverflow (length payload)))
       (\<lambda>n. Inr \<lparr>f_header = h\<lparr>h_payload_length := n\<rparr>, f_payload = payload\<rparr>)"

definition frame_encode :: "decode_limits \<Rightarrow> frame \<Rightarrow> wire_error + bytes" where
  "frame_encode lim fr =
     rbind (ok_or (u32_try_from (length (f_payload fr))) (PayloadLengthOverflow (length (f_payload fr))))
       (\<lambda>actual.
          if actual \<noteq> h_payload_length (f_header fr)
          then Inl (FrameLengthMismatch (HEADER_LEN + unat (h_payload_length (f_header fr)))
                 (HEADER_LEN + length (f_payload fr)))
          else rbind (header_encode lim (f_header fr)) (\<lambda>hb. Inr (hb @ f_payload fr)))"

definition frame_decode :: "decode_limits \<Rightarrow> bytes \<Rightarrow> wire_error + frame" where
  "frame_decode lim bs =
     rbind (header_decode lim bs) (\<lambda>h.
       let expected = HEADER_LEN + unat (h_payload_length h) in
       if length bs \<noteq> expected then Inl (FrameLengthMismatch expected (length bs))
       else Inr \<lparr>f_header = h, f_payload = drop HEADER_LEN bs\<rparr>)"

section \<open>The codec is a bijection onto validated headers\<close>

lemma command_try_from_code [simp]: "command_try_from (command_code c) = Inr c"
  by (cases c) (simp_all add: command_try_from_def)

lemma command_try_from_Inr: "command_try_from v = Inr c \<longleftrightarrow> v = command_code c"
proof
  show "command_try_from v = Inr c \<Longrightarrow> v = command_code c"
    unfolding command_try_from_def by (elim if_Inr_cases) simp_all
qed simp

lemma list2_conv_slice: "off + 2 \<le> length bs \<Longrightarrow> [bs ! off, bs ! (off + 1)] = sub_slice off 2 bs"
  by (rule nth_equalityI) (auto simp: nth_slice less_Suc_eq numeral_2_eq_2)

lemma list4_conv_slice:
  "off + 4 \<le> length bs \<Longrightarrow>
   [bs ! off, bs ! (off + 1), bs ! (off + 2), bs ! (off + 3)] = sub_slice off 4 bs"
  by (rule nth_equalityI) (auto simp: nth_slice less_Suc_eq numeral_eq_Suc)

lemma get_u16_slice: "off + 2 \<le> length bs \<Longrightarrow> get_u16 bs off = of_le_bytes (sub_slice off 2 bs)"
  by (simp only: get_u16_def list2_conv_slice)

lemma get_u32_slice: "off + 4 \<le> length bs \<Longrightarrow> get_u32 bs off = of_le_bytes (sub_slice off 4 bs)"
  by (simp only: get_u32_def list4_conv_slice)

lemmas header_layout = get_u16_slice get_u32_slice put_u16_def put_u32_def HEADER_LEN_def

lemma header_fields_concat:
  "header_fields h = MAGIC @ le_bytes 2 (h_major h) @ le_bytes 2 (h_minor h) @
     le_bytes 2 (40 :: u16) @ le_bytes 2 (command_code (h_command h)) @ le_bytes 4 (h_flags h) @
     le_bytes 4 (h_stream_id h) @ le_bytes 4 (h_sequence h) @ le_bytes 4 (h_payload_length h) @
     le_bytes 4 (h_credit_delta h) @ le_bytes 4 (0 :: u32) @ le_bytes 4 (h_reserved h)"
proof -
  have m: "length MAGIC = 4" by (simp add: MAGIC_def)
  have z: "put_at 0 MAGIC (replicate 40 0) = MAGIC @ replicate 36 0"
    using put_at_build[of "[]" 0 MAGIC 40 0] m by simp
  show ?thesis
    by (simp add: header_fields_def put_u16_def put_u32_def HEADER_LEN_def Let_def z m put_at_build
        del: append_assoc)
qed

lemma length_header_fields [simp]: "length (header_fields h) = 40"
  by (simp add: header_fields_concat MAGIC_def)

lemma header_fields_slices:
  "sub_slice 0 4 (header_fields h) = MAGIC"
  "sub_slice 4 2 (header_fields h) = le_bytes 2 (h_major h)"
  "sub_slice 6 2 (header_fields h) = le_bytes 2 (h_minor h)"
  "sub_slice 8 2 (header_fields h) = le_bytes 2 (40 :: u16)"
  "sub_slice 10 2 (header_fields h) = le_bytes 2 (command_code (h_command h))"
  "sub_slice 12 4 (header_fields h) = le_bytes 4 (h_flags h)"
  "sub_slice 16 4 (header_fields h) = le_bytes 4 (h_stream_id h)"
  "sub_slice 20 4 (header_fields h) = le_bytes 4 (h_sequence h)"
  "sub_slice 24 4 (header_fields h) = le_bytes 4 (h_payload_length h)"
  "sub_slice 28 4 (header_fields h) = le_bytes 4 (h_credit_delta h)"
  "sub_slice 32 4 (header_fields h) = le_bytes 4 (0 :: u32)"
  "sub_slice 36 4 (header_fields h) = le_bytes 4 (h_reserved h)"
  by (simp_all add: header_fields_concat sub_slice_def MAGIC_def)

lemma header_eta [simp]:
  "\<lparr>h_major = h_major h, h_minor = h_minor h, h_command = h_command h, h_flags = h_flags h,
    h_stream_id = h_stream_id h, h_sequence = h_sequence h, h_payload_length = h_payload_length h,
    h_credit_delta = h_credit_delta h, h_reserved = h_reserved h\<rparr> = h"
  by (cases h) simp

lemma header_decode_encode:
  assumes "header_encode lim h = Inr bs"
  shows "length bs = 40" "header_decode lim (bs @ rest) = Inr h"
proof -
  from assms have v: "header_validate lim h = Inr ()"
    and bs: "bs = put_at 32 (le_bytes 4 (crc32c (header_fields h))) (header_fields h)"
    by (auto simp: header_encode_def Let_def put_u32_def result_simps)
  show "length bs = 40" by (simp add: bs)
  have clear: "put_at 32 (le_bytes 4 (0::u32)) (header_fields h) = header_fields h"
    using put_at_slice_same[of 32 4 "header_fields h"] by (simp add: header_fields_slices)
  show "header_decode lim (bs @ rest) = Inr h"
    using v by (simp add: header_decode_def bs header_layout header_fields_slices clear Let_def)
qed

lemma header_slices_split:
  assumes "length xs = 40"
  shows "sub_slice 0 4 xs @ sub_slice 4 2 xs @ sub_slice 6 2 xs @ sub_slice 8 2 xs @ sub_slice 10 2 xs @
    sub_slice 12 4 xs @ sub_slice 16 4 xs @ sub_slice 20 4 xs @ sub_slice 24 4 xs @ sub_slice 28 4 xs @
    sub_slice 32 4 xs @ sub_slice 36 4 xs = xs"
  using slice_join[of 32 4 xs 4] slice_join[of 28 4 xs 8] slice_join[of 24 4 xs 12]
    slice_join[of 20 4 xs 16] slice_join[of 16 4 xs 20] slice_join[of 12 4 xs 24]
    slice_join[of 10 2 xs 28] slice_join[of 8 2 xs 30] slice_join[of 6 2 xs 32]
    slice_join[of 4 2 xs 34] slice_join[of 0 4 xs 36] assms slice_all[of xs 40]
  by simp

lemma header_fields_eqI:
  assumes "length xs = 40" "length ys = 40" 
    "sub_slice 0 4 xs = sub_slice 0 4 ys" "sub_slice 4 2 xs = sub_slice 4 2 ys" "sub_slice 6 2 xs = sub_slice 6 2 ys"
    "sub_slice 8 2 xs = sub_slice 8 2 ys" "sub_slice 10 2 xs = sub_slice 10 2 ys" "sub_slice 12 4 xs = sub_slice 12 4 ys"
    "sub_slice 16 4 xs = sub_slice 16 4 ys" "sub_slice 20 4 xs = sub_slice 20 4 ys" "sub_slice 24 4 xs = sub_slice 24 4 ys"
    "sub_slice 28 4 xs = sub_slice 28 4 ys" "sub_slice 32 4 xs = sub_slice 32 4 ys" "sub_slice 36 4 xs = sub_slice 36 4 ys"
  shows "xs = ys"
  by (rule trans [OF header_slices_split [OF assms(1), symmetric, unfolded assms(3-14)]
        header_slices_split [OF assms(2)]])

lemma le_bytes_of_slice:
  "off + 2 \<le> length bs \<Longrightarrow> le_bytes 2 (of_le_bytes (sub_slice off 2 bs) :: u16) = sub_slice off 2 bs"
  "off + 4 \<le> length bs \<Longrightarrow> le_bytes 4 (of_le_bytes (sub_slice off 4 bs) :: u32) = sub_slice off 4 bs"
  using le_bytes_of_le_bytes[of "sub_slice off 2 bs", where 'a = 16]
    le_bytes_of_le_bytes[of "sub_slice off 4 bs", where 'a = 32] by simp_all

lemma header_decode_Inr:
  assumes "header_decode lim bs = Inr h"
  shows "40 \<le> length bs" "sub_slice 0 4 bs = MAGIC" "sub_slice 8 2 bs = le_bytes 2 (40 :: u16)"
    "sub_slice 32 4 bs = le_bytes 4 (crc32c (put_u32 (take 40 bs) 32 0))"
    "sub_slice 4 2 bs = le_bytes 2 (h_major h)"
    "sub_slice 6 2 bs = le_bytes 2 (h_minor h)"
    "sub_slice 10 2 bs = le_bytes 2 (command_code (h_command h))"
    "sub_slice 12 4 bs = le_bytes 4 (h_flags h)"
    "sub_slice 16 4 bs = le_bytes 4 (h_stream_id h)"
    "sub_slice 20 4 bs = le_bytes 4 (h_sequence h)"
    "sub_slice 24 4 bs = le_bytes 4 (h_payload_length h)"
    "sub_slice 28 4 bs = le_bytes 4 (h_credit_delta h)"
    "sub_slice 36 4 bs = le_bytes 4 (h_reserved h)"
    "header_validate lim h = Inr ()"
proof -
  have len: "40 \<le> length bs" and d: "sub_slice 0 4 bs = MAGIC" "get_u16 bs 8 = 40"
    "get_u32 bs 32 = crc32c (put_u32 (take 40 bs) 32 0)" 
    and v: "header_validate lim h = Inr ()" 
    and c: "get_u16 bs 10 = command_code (h_command h)"
    and h: "get_u16 bs 4 = h_major h" "get_u16 bs 6 = h_minor h"
      "get_u32 bs 12 = h_flags h" "get_u32 bs 16 = h_stream_id h" "get_u32 bs 20 = h_sequence h"
      "get_u32 bs 24 = h_payload_length h" "get_u32 bs 28 = h_credit_delta h"
      "get_u32 bs 36 = h_reserved h"
    using assms
    by (auto simp: header_decode_def Let_def result_simps command_try_from_Inr HEADER_LEN_def
        split: if_splits)
  note eqs = d(2,3) c h
  show "40 \<le> length bs" "sub_slice 0 4 bs = MAGIC" "header_validate lim h = Inr ()"
    by (fact len d(1) v)+
  show "sub_slice 8 2 bs = le_bytes 2 (40 :: u16)"
    "sub_slice 32 4 bs = le_bytes 4 (crc32c (put_u32 (take 40 bs) 32 0))"
    "sub_slice 4 2 bs = le_bytes 2 (h_major h)"
    "sub_slice 6 2 bs = le_bytes 2 (h_minor h)"
    "sub_slice 10 2 bs = le_bytes 2 (command_code (h_command h))"
    "sub_slice 12 4 bs = le_bytes 4 (h_flags h)"
    "sub_slice 16 4 bs = le_bytes 4 (h_stream_id h)"
    "sub_slice 20 4 bs = le_bytes 4 (h_sequence h)"
    "sub_slice 24 4 bs = le_bytes 4 (h_payload_length h)"
    "sub_slice 28 4 bs = le_bytes 4 (h_credit_delta h)"
    "sub_slice 36 4 bs = le_bytes 4 (h_reserved h)"
    using len by (simp_all add: eqs [symmetric] get_u16_slice get_u32_slice le_bytes_of_slice)
qed

lemma header_encode_decode:
  assumes "header_decode lim bs = Inr h"
  shows "header_encode lim h = Inr (take 40 bs)"
proof -
  note d = header_decode_Inr [OF assms]
  have "header_fields h = put_u32 (take 40 bs) 32 0"
    by (rule header_fields_eqI) (use d in \<open>simp_all add: header_fields_slices put_u32_def\<close>)
  then show ?thesis
    using d put_at_slice_same[of 32 4 "take 40 bs"]
    by (simp add: header_encode_def put_u32_def)
qed

text \<open>\<open>Header::encode\<close> and \<open>Header::decode\<close> are inverse to each other: the header bytes that
  encode \<open>h\<close> are exactly the 40-byte strings that decode to \<open>h\<close>, so every header has at most one
  encoding and both sides accept the same headers.\<close>

theorem header_codec_bijective:
  "header_encode lim h = Inr bs \<longleftrightarrow> length bs = HEADER_LEN \<and> header_decode lim bs = Inr h"
  using header_decode_encode[of lim h bs] header_decode_encode(2)[of lim h bs "[]"] header_encode_decode[of lim bs h]
  by (auto simp: HEADER_LEN_def)

text \<open>C9: \<open>Frame::encode\<close> and \<open>Frame::decode\<close> are inverse to each other on whole frames: a byte
  string is the encoding of a frame exactly when it decodes to that frame.\<close>

theorem frame_codec_bijective:
  "frame_encode lim fr = Inr bs \<longleftrightarrow> frame_decode lim bs = Inr fr"
proof
  assume "frame_encode lim fr = Inr bs"
  then obtain hb where hb: "header_encode lim (f_header fr) = Inr hb" "bs = hb @ f_payload fr"
    and len: "length (f_payload fr) < 2 ^ 32" "of_nat (length (f_payload fr)) = h_payload_length (f_header fr)"
    by (auto simp: frame_encode_def u32_try_from_def result_simps split: if_splits)
  have "unat (h_payload_length (f_header fr)) = length (f_payload fr)"
    using len by (simp add: of_nat_inverse)
  then show "frame_decode lim bs = Inr fr"
    using header_decode_encode[OF hb(1)] hb(2)
    by (simp add: frame_decode_def HEADER_LEN_def)
next
  assume a: "frame_decode lim bs = Inr fr"
  then have d: "header_decode lim bs = Inr (f_header fr)" 
    and p: "f_payload fr = drop 40 bs" "length bs = 40 + unat (h_payload_length (f_header fr))"
    by (auto simp: frame_decode_def HEADER_LEN_def Let_def result_simps split: if_splits)
  then show "frame_encode lim fr = Inr bs"
    using header_encode_decode[OF d] unsigned_less[of "h_payload_length (f_header fr)"]
    by (simp add: frame_encode_def u32_try_from_def)
qed

section \<open>What the checksum detects\<close>

lemma crc_bit_cases: "crc_bit x = (if odd x then drop_bit 1 x XOR 0x82f63b78 else drop_bit 1 x)"
proof -
  have "x AND 1 = of_bool (odd x)" by (simp add: and_one_eq mod_2_eq_odd)
  then show ?thesis by (simp add: crc_bit_def)
qed

lemma bit_31_crc_bit: "bit (crc_bit x) 31 \<longleftrightarrow> odd x"
proof -
  have "\<not> bit x 32" using bit_imp_le_length[of x 32] by auto
  then show ?thesis by (simp add: crc_bit_cases bit_xor_iff bit_drop_bit_eq)
qed

lemma crc_bit_xor: "crc_bit (x XOR y) = crc_bit x XOR crc_bit y"
proof (rule bit_word_eqI)
  fix i assume "i < LENGTH(32)"
  have "odd (x XOR y) \<longleftrightarrow> odd x \<noteq> odd y"
    using bit_xor_iff[of x y 0] by (simp add: bit_0)
  then show "bit (crc_bit (x XOR y)) i = bit (crc_bit x XOR crc_bit y) i"
    by (auto simp: crc_bit_cases bit_xor_iff bit_drop_bit_eq)
qed

lemma crc_bit_0 [simp]: "crc_bit 0 = 0"
  by (simp add: crc_bit_cases)

lemma crc_bit_eq_0: "crc_bit x = 0 \<longleftrightarrow> x = 0"
proof
  assume z: "crc_bit x = 0"
  then have "even x" using bit_31_crc_bit[of x] by simp
  moreover from this z have d: "drop_bit 1 x = 0" by (simp add: crc_bit_cases)
  ultimately have "\<not> bit x i" for i
    using fun_cong[OF bit_drop_bit_eq[of 1 x], of "i - 1"] by (cases i) (simp_all add: bit_0)
  then show "x = 0" by (simp add: bit_eq_iff)
qed simp

lemma crc_bits_xor: "(crc_bit ^^ n) (x XOR y) = (crc_bit ^^ n) x XOR (crc_bit ^^ n) y"
  by (induction n) (simp_all add: crc_bit_xor)

lemma crc_bits_eq_0: "(crc_bit ^^ n) x = 0 \<longleftrightarrow> x = 0"
  by (induction n) (simp_all add: crc_bit_eq_0)

lemma crc_bits_inj: "(crc_bit ^^ n) x = (crc_bit ^^ n) y \<longleftrightarrow> x = y"
proof -
  have "(crc_bit ^^ n) x = (crc_bit ^^ n) y \<longleftrightarrow> (crc_bit ^^ n) (x XOR y) = 0"
    by (simp add: crc_bits_xor xor_eq_0_iff)
  then show ?thesis by (simp add: crc_bits_eq_0 xor_eq_0_iff)
qed

lemma crc_bits_shift: "(\<And>i. i < n \<Longrightarrow> \<not> bit x i) \<Longrightarrow> (crc_bit ^^ n) x = drop_bit n x"
proof (induction n arbitrary: x)
  case (Suc n)
  have "even x" using Suc.prems[of 0] by (simp add: bit_0)
  then have c: "crc_bit x = drop_bit 1 x" by (simp add: crc_bit_cases)
  have "(crc_bit ^^ n) (drop_bit 1 x) = drop_bit n (drop_bit 1 x)"
    using Suc.prems by (intro Suc.IH) (auto simp: bit_drop_bit_eq)
  then show ?case by (simp add: funpow_Suc_right c del: funpow.simps)
qed simp

lemma fold_crc_byte_short:
  "length bs \<le> 4 \<Longrightarrow>
   fold crc_byte bs c = (crc_bit ^^ (8 * length bs)) (c XOR of_le_bytes bs)"
proof (induction bs arbitrary: c)
  case (Cons b bs)
  let ?w = "of_le_bytes bs :: u32"
  have w: "drop_bit 8 (push_bit 8 ?w) = ?w"
    using Cons.prems by (intro bit_word_eqI) (auto simp: bit_drop_bit_eq bit_push_bit_iff bit_of_le_bytes)
  have s: "(crc_bit ^^ 8) (push_bit 8 ?w) = ?w"
    using crc_bits_shift[of 8 "push_bit 8 ?w"] w by (simp add: bit_push_bit_iff)
  have d: "ucast b OR push_bit 8 ?w = ucast b XOR push_bit 8 ?w"
    by (intro bit_word_eqI)
      (auto simp: bit_or_iff bit_xor_iff bit_push_bit_iff bit_ucast_iff dest: bit_imp_le_length)
  have "fold crc_byte (b # bs) c = (crc_bit ^^ (8 * length bs)) (crc_byte b c XOR ?w)"
    using Cons by simp
  also have "crc_byte b c XOR ?w = (crc_bit ^^ 8) (c XOR (ucast b XOR push_bit 8 ?w))"
    by (simp add: crc_byte_def crc_bits_xor s xor.assoc)
  also have "(crc_bit ^^ (8 * length bs)) \<dots> =
      (crc_bit ^^ (8 * length (b # bs))) (c XOR of_le_bytes (b # bs))"
    by (simp add: d funpow_add [symmetric, THEN fun_cong, unfolded o_apply] add.commute)
  finally show ?case .
qed simp

lemma fold_crc_byte_inj: "fold crc_byte bs c = fold crc_byte bs d \<longleftrightarrow> c = d"
proof (induction bs arbitrary: c d)
  case (Cons b bs)
  then show ?case by (simp add: crc_byte_def crc_bits_inj)
qed simp

lemma crc32c_burst:
  assumes "length m = length n" "length m \<le> 4" "m \<noteq> n"
  shows "crc32c (pre @ m @ post) \<noteq> crc32c (pre @ n @ post)"
proof
  let ?c = "fold crc_byte pre (- 1)"
  assume "crc32c (pre @ m @ post) = crc32c (pre @ n @ post)"
  then have "fold crc_byte m ?c = fold crc_byte n ?c"
    by (simp add: crc32c_def fold_crc_byte_inj)
  then have "(of_le_bytes m :: u32) = of_le_bytes n"
    using assms by (simp add: fold_crc_byte_short crc_bits_inj)
  then show False using assms of_le_bytes_inj[of m n, where 'a = 32] by simp
qed

lemma header_fixed_zeros:
  assumes "header_decode lim bs = Inr h"
  shows "sub_slice 36 4 bs = le_bytes 4 (0 :: u32)"
    and "h_command h \<noteq> Credit \<Longrightarrow> sub_slice 28 4 bs = le_bytes 4 (0 :: u32)"
  using header_decode_Inr(12,13,14)[OF assms] by (auto simp: header_validate_def Let_def result_simps split: if_splits)

lemma header_damage_burst:
  assumes dec: "header_decode lim bs = Inr h"
    and v: "length v \<le> 4" "off + length v \<le> 40" "v \<noteq> sub_slice off (length v) bs"
    and out: "off + length v \<le> 32 \<or> 36 \<le> off"
    and dec': "header_decode lim (put_at off v bs) = Inr h'"
  shows False
proof -
  let ?bs' = "put_at off v bs"
  define canon :: "bytes \<Rightarrow> bytes" where "canon xs = put_at 32 (le_bytes 4 (0 :: u32)) (take 40 xs)" for xs
  note d = header_decode_Inr(1,4) [OF dec] and d' = header_decode_Inr(1,4) [OF dec']
  have len: "40 \<le> length bs" using d by simp
  have crc: "sub_slice 32 4 bs = le_bytes 4 (crc32c (canon bs))"
    "sub_slice 32 4 ?bs' = le_bytes 4 (crc32c (canon ?bs'))"
    using d d' by (simp_all add: canon_def put_u32_def)
  have c': "canon ?bs' = put_at off v (canon bs)"
    using out len v(2) put_at_commute[of 32 "le_bytes 4 (0 :: u32)" "take 40 bs" off v]
    by (auto simp: canon_def take_put_at)
  have c: "canon bs = take off (canon bs) @ sub_slice off (length v) bs @ drop (off + length v) (canon bs)"
    using slice_split[of off "length v" "canon bs"] out len v(2) by (simp add: canon_def)
  have "sub_slice 32 4 ?bs' = sub_slice 32 4 bs"
    using out len v(2) by (intro slice_put_other) auto
  with crc have "le_bytes 4 (crc32c (canon ?bs')) = le_bytes 4 (crc32c (canon bs))" by simp
  then have "crc32c (canon ?bs') = crc32c (canon bs)" by (simp add: le_bytes_eq_iff)
  then show False
    using crc32c_burst[of v "sub_slice off (length v) bs" "take off (canon bs)"
        "drop (off + length v) (canon bs)"] c c' v len
    by (simp add: put_at_def)
qed

lemma slices_4_eqI: "sub_slice n 4 xs = sub_slice n 4 ys \<Longrightarrow> n + 4 \<le> length xs \<Longrightarrow> n + 4 \<le> length ys \<Longrightarrow>
  n \<le> i \<Longrightarrow> i < n + 4 \<Longrightarrow> xs ! i = ys ! i"
  by (metis add_less_cancel_left le_add_diff_inverse nth_slice)

text \<open>
  Damage that reaches the checksum: the bytes around it are fixed by the checks on the reserved field
  and, unless the frame grants credit, on the credit field, so that only the checksum itself can differ.
\<close>

lemma header_damage_checksum:
  assumes dec: "header_decode lim bs = Inr h"
    and v: "length v \<le> 4" "off + length v \<le> 40" "v \<noteq> sub_slice off (length v) bs"
    and at: "32 < off + length v" "off < 36" "h_command h \<noteq> Credit \<or> 32 \<le> off"
    and dec': "header_decode lim (put_at off v bs) = Inr h'"
  shows False
proof -
  let ?bs' = "put_at off v bs"
  have len: "40 \<le> length bs" "length ?bs' = length bs" using header_decode_Inr(1)[OF dec] v(2) by simp_all
  have low: "?bs' ! i = bs ! i" if "i < off" for i
    using that len v(2) by (simp add: nth_put_at)
  have "sub_slice 10 2 ?bs' = sub_slice 10 2 bs"
    using at(1) v(1) len v(2) by (intro slice_put_other) auto
  then have "le_bytes 2 (command_code (h_command h')) = le_bytes 2 (command_code (h_command h))"
    using header_decode_Inr(7)[OF dec] header_decode_Inr(7)[OF dec'] by simp
  then have "command_code (h_command h') = command_code (h_command h)" by (simp add: le_bytes_eq_iff)
  then have cmd: "h_command h' = h_command h" by (metis Inr_inject command_try_from_code)
  have reserved: "sub_slice 36 4 ?bs' = sub_slice 36 4 bs"
    using header_fixed_zeros(1)[OF dec] header_fixed_zeros(1)[OF dec'] by simp
  have credit: "sub_slice 28 4 ?bs' = sub_slice 28 4 bs"
  proof (cases "32 \<le> off")
    case False
    then show ?thesis using header_fixed_zeros(2)[OF dec] header_fixed_zeros(2)[OF dec'] at(3) cmd by simp
  qed (use len v(2) in \<open>intro slice_put_other; auto\<close>)
  have same: "?bs' ! i = bs ! i" if "i < 40" "i < 32 \<or> 36 \<le> i" for i
  proof (cases "i < 28")
    case True
    then show ?thesis using low at(1) v(1) by simp
  next
    case False
    then show ?thesis
      using that slices_4_eqI[OF credit, of i] slices_4_eqI[OF reserved, of i] len by auto
  qed
  have "put_u32 (take 40 ?bs') 32 0 = put_u32 (take 40 bs) 32 0"
    using same len by (intro nth_equalityI) (auto simp: put_u32_def nth_put_at)
  then have crc: "sub_slice 32 4 ?bs' = sub_slice 32 4 bs"
    using header_decode_Inr(4)[OF dec] header_decode_Inr(4)[OF dec'] by simp
  have all: "?bs' ! i = bs ! i" if "i < 40" for i
    using same[OF that] slices_4_eqI[OF crc, of i] len that by (cases "i < 32 \<or> 36 \<le> i") auto
  have "v = sub_slice off (length v) bs"
  proof (intro nth_equalityI)
    fix i assume i: "i < length v"
    show "v ! i = sub_slice off (length v) bs ! i"
      using all[of "off + i"] i len v(2) by (simp add: nth_slice nth_put_at)
  qed (use len v(2) in simp)
  then show False using v(3) by blast
qed

text \<open>C10: A received header that decodes, damaged in at most four consecutive bytes, is rejected by
  \<open>Header::decode\<close>. The one exception is a window that covers both the end of the credit field and the
  beginning of the checksum of a CREDIT frame: every other frame has a zero there.\<close>

theorem header_damage_rejected:
  assumes "header_decode lim bs = Inr h"
    and "length v \<le> 4" and "off + length v \<le> HEADER_LEN"
    and "v \<noteq> sub_slice off (length v) bs"
    and "h_command h \<noteq> Credit \<or> off + length v \<le> 32 \<or> 32 \<le> off"
  shows "\<exists>e. header_decode lim (put_at off v bs) = Inl e"
proof (cases "header_decode lim (put_at off v bs)")
  case (Inr h')
  have "off + length v \<le> 40" using assms(3) by (simp add: HEADER_LEN_def)
  note b = header_damage_burst[OF assms(1,2) this assms(4) _ Inr]
    and c = header_damage_checksum[OF assms(1,2) this assms(4) _ _ _ Inr]
  show ?thesis
    using b c assms(5) by (cases "off + length v \<le> 32 \<or> 36 \<le> off") auto
qed simp

theorem header_damage_rejected_witness:
  "\<exists>bs. header_encode default_decode_limits (header_new Ping 0 7) = Inr bs \<and>
     (\<exists>e. header_decode default_decode_limits (put_at 20 [9] bs) = Inl e)"
proof -
  let ?h = "header_new Ping 0 7"
  have "header_validate default_decode_limits ?h = Inr ()"
    by (simp add: header_validate_def header_new_def PROTOCOL_MAJOR_def default_decode_limits_def)
  then obtain bs where e: "header_encode default_decode_limits ?h = Inr bs"
    by (simp add: header_encode_def Let_def)
  have d: "header_decode default_decode_limits bs = Inr ?h"
    using header_decode_encode(2)[OF e, of "[]"] by simp
  have "sub_slice 20 4 bs = le_bytes 4 (7 :: u32)"
    using header_decode_Inr(10)[OF d] by (simp add: header_new_def)
  then have "sub_slice 20 1 bs = sub_slice 0 1 (le_bytes 4 (7 :: u32))"
    using slice_slice[of 0 1 4 20 bs] by simp
  also have "\<dots> = [7]" by (simp add: le_bytes_expand sub_slice_def)
  finally have "[9] \<noteq> sub_slice 20 1 bs" by simp
  with e header_damage_rejected[OF d, of "[9]" 20] show ?thesis
    by (simp add: HEADER_LEN_def)
qed

lemma crc_byte_steps:
  "crc_byte b crc = crc_bit (crc_bit (crc_bit (crc_bit (crc_bit (crc_bit (crc_bit (crc_bit (crc XOR ucast b))))))))"
  by (simp add: crc_byte_def eval_nat_numeral)

text \<open>The exception is real: this CREDIT frame and its damaged copy are both accepted.\<close>

lemma credit_damage_accepted:
  "let lim = \<lparr>max_payload = 0, max_window = - 1\<rparr>;
       bs = [0x4b, 0x42, 0x50, 0x31, 0x01, 0x00, 0x00, 0x00, 0x28, 0x00, 0x07, 0x00, 0x00, 0x00, 0x00, 0x00, 0x01, 0x00, 0x00, 0x00, 0x00, 0x00, 0x00, 0x00, 0x00, 0x00, 0x00, 0x00, 0x01, 0x00, 0x00, 0x00, 0xd9, 0x7d, 0x24, 0xaf, 0x00, 0x00, 0x00, 0x00] in
   map_sum id h_credit_delta (header_decode lim bs) = Inr 1 \<and>
   map_sum id h_credit_delta (header_decode lim (put_at 29 [0x25, 0x49, 0x93, 0x08] bs)) = Inr 0x93492501"
  by (simp add: header_decode_def header_validate_def HEADER_LEN_def MAGIC_def get_u16_def get_u32_def put_u32_def put_at_def
      sub_slice_def crc32c_def crc_byte_steps crc_bit_def le_bytes_expand command_try_from_def
      PROTOCOL_MAJOR_def Let_def)

end
