(* ===== verification/Wire_Session.thy ===== *)
theory Wire_Session
  imports Wire_Frame
begin

text \<open>
  One endpoint of a KBP connection, \<open>crates/kindlebridge-wire/src/state.rs\<close>: the session phase, the
  stream table, per-stream sequence numbers in each direction and two levels of flow-control
  credit. Every method of \<open>SessionState\<close> that changes the state is a function that returns the
  result together with the state the Rust object is left in, on the error branches too.

  \<open>Panicked\<close> is not a value of the Rust error type: it marks the places where the source would
  abort (\<open>expect\<close> and \<open>unreachable!\<close>); a lemma below shows that no run reaches them.
\<close>

section \<open>Data\<close>

datatype endpoint_role = Host | Device

fun local_streams_are_odd :: "endpoint_role \<Rightarrow> bool" where
  "local_streams_are_odd r = (r = Host)"

datatype direction = Inbound | Outbound

fun sender_is_local :: "direction \<Rightarrow> bool" where
  "sender_is_local d = (d = Outbound)"

datatype session_phase = HelloExchange | Online | GoingAway | SessionClosed

fun phase_name :: "session_phase \<Rightarrow> string" where
  "phase_name HelloExchange = ''HELLO_EXCHANGE''"
| "phase_name Online = ''ONLINE''"
| "phase_name GoingAway = ''GOAWAY''"
| "phase_name SessionClosed = ''CLOSED''"

datatype stream_phase = StreamOpening | StreamAccepted | StreamRejected | StreamClosed | StreamReset

record frame_context =
  initial_connection_window :: "u32 option"
  initial_stream_window :: "u32 option"

definition default_context :: frame_context where
  "default_context = \<lparr>initial_connection_window = None, initial_stream_window = None\<rparr>"

definition context_hello :: "u32 \<Rightarrow> frame_context" where
  "context_hello w = \<lparr>initial_connection_window = Some w, initial_stream_window = None\<rparr>"

definition context_accept :: "u32 \<Rightarrow> frame_context" where
  "context_accept w = \<lparr>initial_connection_window = None, initial_stream_window = Some w\<rparr>"

record session_config =
  cfg_role :: endpoint_role
  cfg_pairing_session :: bool
  cfg_limits :: decode_limits

definition session_config_new :: "endpoint_role \<Rightarrow> decode_limits \<Rightarrow> session_config" where
  "session_config_new role limits =
     \<lparr>cfg_role = role, cfg_pairing_session = False, cfg_limits = limits\<rparr>"

definition config_pairing :: "bool \<Rightarrow> session_config \<Rightarrow> session_config" where
  "config_pairing enabled cfg = cfg\<lparr>cfg_pairing_session := enabled\<rparr>"

datatype protocol_error =
    Wire wire_error
  | UnexpectedCommand string command u32
  | Sequence u32 u32 u32
  | SequenceExhausted u32
  | WrongStreamParity u32 bool
  | StreamAlreadyUsed u32
  | UnknownStream u32
  | StreamNotOpening u32
  | StreamNotAccepted u32
  | WrongOpeningResponder u32
  | CloseByInitiator u32
  | DataAfterEnd u32
  | SendCreditExceeded u32 u32 u32
  | ReceiveCreditExceeded u32 u32 u32
  | ConnectionSendCreditExceeded u32 u32
  | ConnectionReceiveCreditExceeded u32 u32
  | CreditOverflow u32 u32 u32 u32
  | MissingConnectionWindow
  | MissingStreamWindow u32
  | UnexpectedConnectionWindow command
  | UnexpectedStreamWindow command
  | InvalidWindow u32 u32
  | PairingFinishOnRegularSession
  | DuplicateHello
  | DuplicatePairingFinish
  | StreamIdExhausted
  | Panicked

record stream_state =
  st_phase :: stream_phase
  st_initiated_by_local :: bool
  st_local_end_stream :: bool
  st_peer_end_stream :: bool
  st_send_credit :: u32
  st_send_limit :: u32
  st_receive_credit :: u32
  st_receive_limit :: u32

definition stream_opening :: "bool \<Rightarrow> stream_state" where
  "stream_opening loc =
     \<lparr>st_phase = StreamOpening, st_initiated_by_local = loc, st_local_end_stream = False,
      st_peer_end_stream = False, st_send_credit = 0, st_send_limit = 0, st_receive_credit = 0,
      st_receive_limit = 0\<rparr>"

record session_state =
  ss_config :: session_config
  ss_phase :: session_phase
  ss_local_hello :: bool
  ss_peer_hello :: bool
  ss_local_pairing_finish :: bool
  ss_peer_pairing_finish :: bool
  ss_next_local_stream_id :: "u32 option"
  ss_inbound_sequences :: "u32 \<rightharpoonup> u32"
  ss_outbound_sequences :: "u32 \<rightharpoonup> u32"
  ss_streams :: "u32 \<rightharpoonup> stream_state"
  ss_send_credit :: u32
  ss_send_limit :: u32
  ss_receive_credit :: u32
  ss_receive_limit :: u32

definition session_new :: "session_config \<Rightarrow> session_state" where
  "session_new cfg =
     \<lparr>ss_config = cfg, ss_phase = HelloExchange, ss_local_hello = False, ss_peer_hello = False,
      ss_local_pairing_finish = False, ss_peer_pairing_finish = False,
      ss_next_local_stream_id = Some (if local_streams_are_odd (cfg_role cfg) then 1 else 2),
      ss_inbound_sequences = Map.empty, ss_outbound_sequences = Map.empty, ss_streams = Map.empty,
      ss_send_credit = 0, ss_send_limit = 0, ss_receive_credit = 0, ss_receive_limit = 0\<rparr>"

text \<open>The read-only views \<open>snapshot\<close> and \<open>stream\<close>.\<close>

record session_snapshot =
  sn_phase :: session_phase
  sn_send_credit :: u32
  sn_send_limit :: u32
  sn_receive_credit :: u32
  sn_receive_limit :: u32

definition session_snapshot_of :: "session_state \<Rightarrow> session_snapshot" where
  "session_snapshot_of s =
     \<lparr>sn_phase = ss_phase s, sn_send_credit = ss_send_credit s, sn_send_limit = ss_send_limit s,
      sn_receive_credit = ss_receive_credit s, sn_receive_limit = ss_receive_limit s\<rparr>"

definition stream_snapshot :: "session_state \<Rightarrow> u32 \<Rightarrow> stream_state option" where
  "stream_snapshot s sid = ss_streams s sid"

section \<open>Checks that only read the state\<close>

text \<open>\<open>checked_add\<close> on a machine integer: \<open>None\<close> where the sum does not fit.\<close>

definition checked_add :: "'a::len word \<Rightarrow> 'a word \<Rightarrow> 'a word option" where
  "checked_add a b = (if unat a + unat b < 2 ^ LENGTH('a) then Some (a + b) else None)"

definition unexpected :: "session_state \<Rightarrow> header \<Rightarrow> protocol_error" where
  "unexpected s h = UnexpectedCommand (phase_name (ss_phase s)) (h_command h) (h_stream_id h)"

definition require_online_or_going :: "session_state \<Rightarrow> header \<Rightarrow> protocol_error + unit" where
  "require_online_or_going s h = ensure (ss_phase s = Online \<or> ss_phase s = GoingAway) (unexpected s h)"

definition checked_credit :: "u32 \<Rightarrow> u32 \<Rightarrow> u32 \<Rightarrow> u32 \<Rightarrow> protocol_error + u32" where
  "checked_credit sid current delta maximum =
     (case checked_add current delta of
        None \<Rightarrow> Inl (CreditOverflow sid current delta maximum)
      | Some v \<Rightarrow> if v \<le> maximum then Inr v else Inl (CreditOverflow sid current delta maximum))"

definition validate_window :: "session_state \<Rightarrow> u32 \<Rightarrow> protocol_error + unit" where
  "validate_window s w =
     (let maximum = max_window (cfg_limits (ss_config s)) in
      if w = 0 \<or> w > maximum then Inl (InvalidWindow w maximum) else Inr ())"

definition validate_context :: "session_state \<Rightarrow> header \<Rightarrow> frame_context \<Rightarrow> protocol_error + unit" where
  "validate_context s h ctx =
     (if h_command h = Hello then
        (if initial_stream_window ctx \<noteq> None then Inl (UnexpectedStreamWindow (h_command h))
         else rbind (ok_or (initial_connection_window ctx) MissingConnectionWindow) (validate_window s))
      else if h_command h = Accept then
        (if initial_connection_window ctx \<noteq> None then Inl (UnexpectedConnectionWindow (h_command h))
         else rbind (ok_or (initial_stream_window ctx) (MissingStreamWindow (h_stream_id h)))
                (validate_window s))
      else if initial_connection_window ctx \<noteq> None
        then Inl (UnexpectedConnectionWindow (h_command h))
      else if initial_stream_window ctx \<noteq> None then Inl (UnexpectedStreamWindow (h_command h))
      else Inr ())"

definition sequences :: "direction \<Rightarrow> session_state \<Rightarrow> u32 \<rightharpoonup> u32" where
  "sequences dir s =
     (case dir of Inbound \<Rightarrow> ss_inbound_sequences s | Outbound \<Rightarrow> ss_outbound_sequences s)"

definition expected_sequence :: "direction \<Rightarrow> session_state \<Rightarrow> u32 \<Rightarrow> u32" where
  "expected_sequence dir s sid = (case sequences dir s sid of None \<Rightarrow> 0 | Some n \<Rightarrow> n)"

definition validate_sequence :: "session_state \<Rightarrow> direction \<Rightarrow> header \<Rightarrow> protocol_error + unit" where
  "validate_sequence s dir h =
     (let expected = expected_sequence dir s (h_stream_id h) in
      if h_sequence h \<noteq> expected then Inl (Sequence (h_stream_id h) expected (h_sequence h))
      else if h_sequence h = - 1 \<and> h_command h \<noteq> Reset
        then Inl (SequenceExhausted (h_stream_id h))
      else Inr ())"

section \<open>State changes\<close>

definition advance_sequence :: "direction \<Rightarrow> header \<Rightarrow> session_state \<Rightarrow> session_state" where
  "advance_sequence dir h s =
     (if h_sequence h = - 1 then s
      else
        let m = (sequences dir s)(h_stream_id h \<mapsto> h_sequence h + 1) in
        (case dir of
           Inbound \<Rightarrow> s\<lparr>ss_inbound_sequences := m\<rparr>
         | Outbound \<Rightarrow> s\<lparr>ss_outbound_sequences := m\<rparr>))"

definition allocate_stream_id :: "(session_state, protocol_error, u32) mut" where
  "allocate_stream_id s =
     (case ss_next_local_stream_id s of
        None \<Rightarrow> (Inl StreamIdExhausted, s)
      | Some sid \<Rightarrow> (Inr sid, s\<lparr>ss_next_local_stream_id := checked_add sid 2\<rparr>))"

definition put_stream :: "u32 \<Rightarrow> stream_state \<Rightarrow> session_state \<Rightarrow> session_state" where
  "put_stream sid st s = s\<lparr>ss_streams := (ss_streams s)(sid \<mapsto> st)\<rparr>"

definition apply_hello :: "direction \<Rightarrow> frame_context \<Rightarrow> (session_state, protocol_error, unit) mut" where
  "apply_hello dir ctx s =
     (if ss_phase s \<noteq> HelloExchange then (Inl DuplicateHello, s)
      else
        case initial_connection_window ctx of
          None \<Rightarrow> (Inl MissingConnectionWindow, s)
        | Some w \<Rightarrow>
            sbind
              (if dir = Outbound then
                 if ss_local_hello s then (Inl DuplicateHello, s)
                 else (Inr (), s\<lparr>ss_local_hello := True, ss_receive_credit := w, ss_receive_limit := w\<rparr>)
               else
                 if ss_peer_hello s then (Inl DuplicateHello, s)
                 else (Inr (), s\<lparr>ss_peer_hello := True, ss_send_credit := w, ss_send_limit := w\<rparr>))
              (\<lambda>_ s. (Inr (),
                 if ss_local_hello s \<and> ss_peer_hello s then s\<lparr>ss_phase := Online\<rparr> else s)))"

definition apply_pairing_finish :: "direction \<Rightarrow> (session_state, protocol_error, unit) mut" where
  "apply_pairing_finish dir s =
     (if \<not> cfg_pairing_session (ss_config s) then (Inl PairingFinishOnRegularSession, s)
      else if ss_phase s \<noteq> HelloExchange then (Inl DuplicatePairingFinish, s)
      else if dir = Outbound then
        (if ss_local_pairing_finish s then (Inl DuplicatePairingFinish, s)
         else (Inr (), s\<lparr>ss_local_pairing_finish := True\<rparr>))
      else
        (if ss_peer_pairing_finish s then (Inl DuplicatePairingFinish, s)
         else (Inr (), s\<lparr>ss_peer_pairing_finish := True\<rparr>)))"

definition apply_connection_credit :: "direction \<Rightarrow> header \<Rightarrow> (session_state, protocol_error, unit) mut" where
  "apply_connection_credit dir h s =
     (if dir = Inbound then
        (case checked_credit 0 (ss_send_credit s) (h_credit_delta h) (ss_send_limit s) of
           Inl e \<Rightarrow> (Inl e, s)
         | Inr v \<Rightarrow> (Inr (), s\<lparr>ss_send_credit := v\<rparr>))
      else
        (case checked_credit 0 (ss_receive_credit s) (h_credit_delta h) (ss_receive_limit s) of
           Inl e \<Rightarrow> (Inl e, s)
         | Inr v \<Rightarrow> (Inr (), s\<lparr>ss_receive_credit := v\<rparr>)))"

definition apply_control ::
    "direction \<Rightarrow> header \<Rightarrow> frame_context \<Rightarrow> (session_state, protocol_error, unit) mut" where
  "apply_control dir h ctx s =
     (case h_command h of
        Hello \<Rightarrow> apply_hello dir ctx s
      | PairingFinish \<Rightarrow> apply_pairing_finish dir s
      | Credit \<Rightarrow>
          sbind (require_online_or_going s h, s) (\<lambda>_. apply_connection_credit dir h)
      | Ping \<Rightarrow> (require_online_or_going s h, s)
      | Pong \<Rightarrow> (require_online_or_going s h, s)
      | GoAway \<Rightarrow>
          sbind (require_online_or_going s h, s) (\<lambda>_ s. (Inr (), s\<lparr>ss_phase := GoingAway\<rparr>))
      | Error \<Rightarrow> (Inr (), s\<lparr>ss_phase := SessionClosed\<rparr>)
      | _ \<Rightarrow> (Inl (unexpected s h), s))"

definition apply_open :: "direction \<Rightarrow> header \<Rightarrow> (session_state, protocol_error, unit) mut" where
  "apply_open dir h s =
     (if ss_phase s \<noteq> Online then (Inl (unexpected s h), s)
      else
        let expected_odd =
              (if dir = Outbound then local_streams_are_odd (cfg_role (ss_config s))
               else \<not> local_streams_are_odd (cfg_role (ss_config s))) in
        if (h_stream_id h mod 2 = 1) \<noteq> expected_odd
          then (Inl (WrongStreamParity (h_stream_id h) expected_odd), s)
        else if ss_streams s (h_stream_id h) \<noteq> None
          then (Inl (StreamAlreadyUsed (h_stream_id h)), s)
        else
          let s = put_stream (h_stream_id h) (stream_opening (sender_is_local dir)) s in
          (Inr (),
           if dir = Outbound \<and>
              (case ss_next_local_stream_id s of None \<Rightarrow> False | Some n \<Rightarrow> h_stream_id h \<ge> n)
           then s\<lparr>ss_next_local_stream_id := checked_add (h_stream_id h) 2\<rparr>
           else s))"

definition apply_open_response ::
    "direction \<Rightarrow> header \<Rightarrow> frame_context \<Rightarrow> (session_state, protocol_error, unit) mut" where
  "apply_open_response dir h ctx s =
     (case ss_streams s (h_stream_id h) of
        None \<Rightarrow> (Inl Panicked, s)
      | Some st \<Rightarrow>
          let responder_is_local = (\<not> st_initiated_by_local st) in
          if sender_is_local dir \<noteq> responder_is_local
            then (Inl (WrongOpeningResponder (h_stream_id h)), s)
          else if h_command h = Reject
            then (Inr (), put_stream (h_stream_id h) (st\<lparr>st_phase := StreamRejected\<rparr>) s)
          else
            case initial_stream_window ctx of
              None \<Rightarrow> (Inl (MissingStreamWindow (h_stream_id h)), s)
            | Some w \<Rightarrow>
                let st = st\<lparr>st_phase := StreamAccepted, st_send_limit := w, st_receive_limit := w\<rparr>;
                    st = (if dir = Inbound then st\<lparr>st_send_credit := w\<rparr>
                          else st\<lparr>st_receive_credit := w\<rparr>) in
                (Inr (), put_stream (h_stream_id h) st s))"

definition apply_data :: "direction \<Rightarrow> header \<Rightarrow> (session_state, protocol_error, unit) mut" where
  "apply_data dir h s =
     (let n = h_payload_length h; sid = h_stream_id h in
      case ss_streams s sid of
        None \<Rightarrow> (Inl Panicked, s)
      | Some st \<Rightarrow>
          if dir = Outbound then
            if st_local_end_stream st then (Inl (DataAfterEnd sid), s)
            else if n > st_send_credit st then (Inl (SendCreditExceeded sid n (st_send_credit st)), s)
            else if n > ss_send_credit s
              then (Inl (ConnectionSendCreditExceeded n (ss_send_credit s)), s)
            else
              let st = st\<lparr>st_send_credit := st_send_credit st - n\<rparr>;
                  s = s\<lparr>ss_send_credit := ss_send_credit s - n\<rparr>;
                  st = (if h_flags h AND FLAG_END_STREAM \<noteq> 0 then st\<lparr>st_local_end_stream := True\<rparr> else st) in
              (Inr (), put_stream sid st s)
          else
            if st_peer_end_stream st then (Inl (DataAfterEnd sid), s)
            else if n > st_receive_credit st
              then (Inl (ReceiveCreditExceeded sid n (st_receive_credit st)), s)
            else if n > ss_receive_credit s
              then (Inl (ConnectionReceiveCreditExceeded n (ss_receive_credit s)), s)
            else
              let st = st\<lparr>st_receive_credit := st_receive_credit st - n\<rparr>;
                  s = s\<lparr>ss_receive_credit := ss_receive_credit s - n\<rparr>;
                  st = (if h_flags h AND FLAG_END_STREAM \<noteq> 0 then st\<lparr>st_peer_end_stream := True\<rparr> else st) in
              (Inr (), put_stream sid st s))"

definition apply_discarded_inbound_data :: "header \<Rightarrow> (session_state, protocol_error, unit) mut" where
  "apply_discarded_inbound_data h s =
     (let n = h_payload_length h; sid = h_stream_id h in
      case ss_streams s sid of
        None \<Rightarrow> (Inl Panicked, s)
      | Some st \<Rightarrow>
          if n > st_receive_credit st
            then (Inl (ReceiveCreditExceeded sid n (st_receive_credit st)), s)
          else if n > ss_receive_credit s
            then (Inl (ConnectionReceiveCreditExceeded n (ss_receive_credit s)), s)
          else
            let st = st\<lparr>st_receive_credit := st_receive_credit st - n\<rparr>;
                s = s\<lparr>ss_receive_credit := ss_receive_credit s - n\<rparr> in
            (Inr (), put_stream sid st s))"

definition apply_stream_credit :: "direction \<Rightarrow> header \<Rightarrow> (session_state, protocol_error, unit) mut" where
  "apply_stream_credit dir h s =
     (let sid = h_stream_id h in
      case ss_streams s sid of
        None \<Rightarrow> (Inl Panicked, s)
      | Some st \<Rightarrow>
          if dir = Inbound then
            (case checked_credit sid (st_send_credit st) (h_credit_delta h) (st_send_limit st) of
               Inl e \<Rightarrow> (Inl e, s)
             | Inr v \<Rightarrow> (Inr (), put_stream sid (st\<lparr>st_send_credit := v\<rparr>) s))
          else
            (case checked_credit sid (st_receive_credit st) (h_credit_delta h) (st_receive_limit st) of
               Inl e \<Rightarrow> (Inl e, s)
             | Inr v \<Rightarrow> (Inr (), put_stream sid (st\<lparr>st_receive_credit := v\<rparr>) s)))"

definition apply_close :: "direction \<Rightarrow> u32 \<Rightarrow> (session_state, protocol_error, unit) mut" where
  "apply_close dir sid s =
     (case ss_streams s sid of
        None \<Rightarrow> (Inl Panicked, s)
      | Some st \<Rightarrow>
          let responder_is_local = (\<not> st_initiated_by_local st) in
          if sender_is_local dir \<noteq> responder_is_local then (Inl (CloseByInitiator sid), s)
          else (Inr (), put_stream sid
                  (st\<lparr>st_local_end_stream := True, st_peer_end_stream := True,
                      st_phase := StreamClosed\<rparr>) s))"

definition apply_reset :: "u32 \<Rightarrow> (session_state, protocol_error, unit) mut" where
  "apply_reset sid s =
     (case ss_streams s sid of
        None \<Rightarrow> (Inl Panicked, s)
      | Some st \<Rightarrow> (Inr (), put_stream sid (st\<lparr>st_phase := StreamReset\<rparr>) s))"

definition apply_stream ::
    "direction \<Rightarrow> header \<Rightarrow> frame_context \<Rightarrow> (session_state, protocol_error, unit) mut" where
  "apply_stream dir h ctx s =
     (let sid = h_stream_id h in
      case ss_streams s sid of
        None \<Rightarrow> (Inl (UnknownStream sid), s)
      | Some st \<Rightarrow>
          let ph = st_phase st; c = h_command h in
          if c = Accept \<or> c = Reject then
            (if ph \<noteq> StreamOpening then (Inl (StreamNotOpening sid), s)
             else apply_open_response dir h ctx s)
          else if c = Credit \<and> ph \<in> {StreamClosed, StreamReset} then (Inr (), s)
          else if c = Reset \<and> ph \<in> {StreamClosed, StreamReset} then (Inr (), s)
          else if c = Data \<and> dir = Inbound \<and> ph \<in> {StreamClosed, StreamReset}
            then apply_discarded_inbound_data h s
          else if c \<in> {Data, Credit, Close, Reset} then
            (if ph \<noteq> StreamAccepted then (Inl (StreamNotAccepted sid), s)
             else
               case c of
                 Data \<Rightarrow> apply_data dir h s
               | Credit \<Rightarrow> apply_stream_credit dir h s
               | Close \<Rightarrow> apply_close dir sid s
               | Reset \<Rightarrow> apply_reset sid s
               | _ \<Rightarrow> (Inl Panicked, s))
          else (Inl (unexpected s h), s))"

definition apply_frame ::
    "direction \<Rightarrow> header \<Rightarrow> frame_context \<Rightarrow> (session_state, protocol_error, unit) mut" where
  "apply_frame dir h ctx s =
     (if h_stream_id h = 0 then apply_control dir h ctx s
      else if h_command h = Open then apply_open dir h s
      else apply_stream dir h ctx s)"

definition process ::
    "direction \<Rightarrow> header \<Rightarrow> frame_context \<Rightarrow> (session_state, protocol_error, unit) mut" where
  "process dir h ctx s =
     sbind (map_err Wire (header_validate (cfg_limits (ss_config s)) h), s) (\<lambda>_ s.
     sbind (validate_context s h ctx, s) (\<lambda>_ s.
     if ss_phase s = SessionClosed then (Inl (unexpected s h), s)
     else
       sbind (validate_sequence s dir h, s) (\<lambda>_ s.
       sbind (apply_frame dir h ctx s) (\<lambda>_ s.
       (Inr (), advance_sequence dir h s)))))"

definition process_inbound :: "header \<Rightarrow> frame_context \<Rightarrow> (session_state, protocol_error, unit) mut" where
  "process_inbound = process Inbound"

definition process_outbound :: "header \<Rightarrow> frame_context \<Rightarrow> (session_state, protocol_error, unit) mut" where
  "process_outbound = process Outbound"

section \<open>Specification\<close>

text \<open>
  What the protocol allows, as a step relation with one rule per kind of frame. The two directions
  are symmetric: DATA in direction \<open>d\<close> consumes the credit of \<open>d\<close>, HELLO, ACCEPT and CREDIT in
  direction \<open>d\<close> feed the credit of the opposite one.
\<close>

fun opp :: "direction \<Rightarrow> direction" where
  "opp Inbound = Outbound"
| "opp Outbound = Inbound"

fun conn_credit :: "direction \<Rightarrow> session_state \<Rightarrow> u32" where
  "conn_credit Outbound s = ss_send_credit s"
| "conn_credit Inbound s = ss_receive_credit s"

fun conn_limit :: "direction \<Rightarrow> session_state \<Rightarrow> u32" where
  "conn_limit Outbound s = ss_send_limit s"
| "conn_limit Inbound s = ss_receive_limit s"

fun set_conn_credit :: "direction \<Rightarrow> u32 \<Rightarrow> session_state \<Rightarrow> session_state" where
  "set_conn_credit Outbound v s = s\<lparr>ss_send_credit := v\<rparr>"
| "set_conn_credit Inbound v s = s\<lparr>ss_receive_credit := v\<rparr>"

fun strm_credit :: "direction \<Rightarrow> stream_state \<Rightarrow> u32" where
  "strm_credit Outbound st = st_send_credit st"
| "strm_credit Inbound st = st_receive_credit st"

fun strm_limit :: "direction \<Rightarrow> stream_state \<Rightarrow> u32" where
  "strm_limit Outbound st = st_send_limit st"
| "strm_limit Inbound st = st_receive_limit st"

fun set_strm_credit :: "direction \<Rightarrow> u32 \<Rightarrow> stream_state \<Rightarrow> stream_state" where
  "set_strm_credit Outbound v st = st\<lparr>st_send_credit := v\<rparr>"
| "set_strm_credit Inbound v st = st\<lparr>st_receive_credit := v\<rparr>"

fun strm_end :: "direction \<Rightarrow> stream_state \<Rightarrow> bool" where
  "strm_end Outbound st = st_local_end_stream st"
| "strm_end Inbound st = st_peer_end_stream st"

fun mark_end :: "direction \<Rightarrow> stream_state \<Rightarrow> stream_state" where
  "mark_end Outbound st = st\<lparr>st_local_end_stream := True\<rparr>"
| "mark_end Inbound st = st\<lparr>st_peer_end_stream := True\<rparr>"

fun hello_seen :: "direction \<Rightarrow> session_state \<Rightarrow> bool" where
  "hello_seen Outbound s = ss_local_hello s"
| "hello_seen Inbound s = ss_peer_hello s"

fun note_hello :: "direction \<Rightarrow> u32 \<Rightarrow> session_state \<Rightarrow> session_state" where
  "note_hello Outbound w s =
     s\<lparr>ss_local_hello := True, ss_receive_credit := w, ss_receive_limit := w,
       ss_phase := (if ss_peer_hello s then Online else ss_phase s)\<rparr>"
| "note_hello Inbound w s =
     s\<lparr>ss_peer_hello := True, ss_send_credit := w, ss_send_limit := w,
       ss_phase := (if ss_local_hello s then Online else ss_phase s)\<rparr>"

fun pairing_seen :: "direction \<Rightarrow> session_state \<Rightarrow> bool" where
  "pairing_seen Outbound s = ss_local_pairing_finish s"
| "pairing_seen Inbound s = ss_peer_pairing_finish s"

fun note_pairing :: "direction \<Rightarrow> session_state \<Rightarrow> session_state" where
  "note_pairing Outbound s = s\<lparr>ss_local_pairing_finish := True\<rparr>"
| "note_pairing Inbound s = s\<lparr>ss_peer_pairing_finish := True\<rparr>"

definition owned_parity :: "direction \<Rightarrow> session_state \<Rightarrow> bool" where
  "owned_parity d s = (local_streams_are_odd (cfg_role (ss_config s)) = (d = Outbound))"

definition after_open :: "direction \<Rightarrow> u32 \<Rightarrow> session_state \<Rightarrow> session_state" where
  "after_open d sid s =
     (if d = Outbound \<and> (case ss_next_local_stream_id s of None \<Rightarrow> False | Some n \<Rightarrow> sid \<ge> n)
      then s\<lparr>ss_next_local_stream_id := checked_add sid 2\<rparr> else s)"

abbreviation terminal :: "stream_phase \<Rightarrow> bool" where
  "terminal p \<equiv> p = StreamClosed \<or> p = StreamReset"

inductive frame_step ::
    "direction \<Rightarrow> header \<Rightarrow> frame_context \<Rightarrow> session_state \<Rightarrow> session_state \<Rightarrow> bool"
  for d :: direction and h :: header and ctx :: frame_context and s :: session_state where
  hello: "frame_step d h ctx s (note_hello d w s)"
    if "h_stream_id h = 0" "h_command h = Hello" "ss_phase s = HelloExchange"
       "initial_connection_window ctx = Some w" "\<not> hello_seen d s"
| pairing: "frame_step d h ctx s (note_pairing d s)"
    if "h_stream_id h = 0" "h_command h = PairingFinish" "ss_phase s = HelloExchange"
       "cfg_pairing_session (ss_config s)" "\<not> pairing_seen d s"
| conn_grant: "frame_step d h ctx s
      (set_conn_credit (opp d) (conn_credit (opp d) s + h_credit_delta h) s)"
    if "h_stream_id h = 0" "h_command h = Credit" "ss_phase s \<in> {Online, GoingAway}"
       "unat (conn_credit (opp d) s) + unat (h_credit_delta h) \<le> unat (conn_limit (opp d) s)"
| keepalive: "frame_step d h ctx s s"
    if "h_stream_id h = 0" "h_command h \<in> {Ping, Pong}" "ss_phase s \<in> {Online, GoingAway}"
| goaway: "frame_step d h ctx s (s\<lparr>ss_phase := GoingAway\<rparr>)"
    if "h_stream_id h = 0" "h_command h = GoAway" "ss_phase s \<in> {Online, GoingAway}"
| abort: "frame_step d h ctx s (s\<lparr>ss_phase := SessionClosed\<rparr>)"
    if "h_stream_id h = 0" "h_command h = Error"
| open_stream: "frame_step d h ctx s
      (after_open d (h_stream_id h) (put_stream (h_stream_id h) (stream_opening (d = Outbound)) s))"
    if "h_stream_id h \<noteq> 0" "h_command h = Open" "ss_phase s = Online"
       "odd (h_stream_id h) = owned_parity d s" "ss_streams s (h_stream_id h) = None"
| accept: "frame_step d h ctx s (put_stream (h_stream_id h)
      (set_strm_credit (opp d) w (st\<lparr>st_phase := StreamAccepted, st_send_limit := w, st_receive_limit := w\<rparr>)) s)"
    if "h_stream_id h \<noteq> 0" "h_command h = Accept" "ss_streams s (h_stream_id h) = Some st"
       "st_phase st = StreamOpening" "st_initiated_by_local st = (d = Inbound)"
       "initial_stream_window ctx = Some w"
| reject: "frame_step d h ctx s (put_stream (h_stream_id h) (st\<lparr>st_phase := StreamRejected\<rparr>) s)"
    if "h_stream_id h \<noteq> 0" "h_command h = Reject" "ss_streams s (h_stream_id h) = Some st"
       "st_phase st = StreamOpening" "st_initiated_by_local st = (d = Inbound)"
| late: "frame_step d h ctx s s"
    if "h_stream_id h \<noteq> 0" "h_command h \<in> {Credit, Reset}" "ss_streams s (h_stream_id h) = Some st"
       "terminal (st_phase st)"
| late_data: "frame_step d h ctx s
      (put_stream (h_stream_id h) (set_strm_credit d (strm_credit d st - h_payload_length h) st)
        (set_conn_credit d (conn_credit d s - h_payload_length h) s))"
    if "h_stream_id h \<noteq> 0" "h_command h = Data" "ss_streams s (h_stream_id h) = Some st"
       "terminal (st_phase st)" "d = Inbound"
       "h_payload_length h \<le> strm_credit d st" "h_payload_length h \<le> conn_credit d s"
| data: "frame_step d h ctx s
      (put_stream (h_stream_id h)
        ((if h_flags h AND FLAG_END_STREAM \<noteq> 0 then mark_end d else id)
          (set_strm_credit d (strm_credit d st - h_payload_length h) st))
        (set_conn_credit d (conn_credit d s - h_payload_length h) s))"
    if "h_stream_id h \<noteq> 0" "h_command h = Data" "ss_streams s (h_stream_id h) = Some st"
       "st_phase st = StreamAccepted" "\<not> strm_end d st"
       "h_payload_length h \<le> strm_credit d st" "h_payload_length h \<le> conn_credit d s"
| stream_grant: "frame_step d h ctx s (put_stream (h_stream_id h)
      (set_strm_credit (opp d) (strm_credit (opp d) st + h_credit_delta h) st) s)"
    if "h_stream_id h \<noteq> 0" "h_command h = Credit" "ss_streams s (h_stream_id h) = Some st"
       "st_phase st = StreamAccepted"
       "unat (strm_credit (opp d) st) + unat (h_credit_delta h) \<le> unat (strm_limit (opp d) st)"
| close: "frame_step d h ctx s (put_stream (h_stream_id h)
      (st\<lparr>st_local_end_stream := True, st_peer_end_stream := True, st_phase := StreamClosed\<rparr>) s)"
    if "h_stream_id h \<noteq> 0" "h_command h = Close" "ss_streams s (h_stream_id h) = Some st"
       "st_phase st = StreamAccepted" "st_initiated_by_local st = (d = Inbound)"
| reset: "frame_step d h ctx s (put_stream (h_stream_id h) (st\<lparr>st_phase := StreamReset\<rparr>) s)"
    if "h_stream_id h \<noteq> 0" "h_command h = Reset" "ss_streams s (h_stream_id h) = Some st"
       "st_phase st = StreamAccepted"

definition session_step ::
    "direction \<Rightarrow> header \<Rightarrow> frame_context \<Rightarrow> session_state \<Rightarrow> session_state \<Rightarrow> bool" where
  "session_step d h ctx s s' \<longleftrightarrow>
     header_validate (cfg_limits (ss_config s)) h = Inr () \<and> validate_context s h ctx = Inr () \<and>
     ss_phase s \<noteq> SessionClosed \<and> validate_sequence s d h = Inr () \<and>
     (\<exists>s1. frame_step d h ctx s s1 \<and> s' = advance_sequence d h s1)"

lemma direction_cases [simp]: "(d \<noteq> Inbound) = (d = Outbound)" "(d \<noteq> Outbound) = (d = Inbound)"
  by (cases d; simp)+

lemma checked_credit_conv:
  "checked_credit sid c delta m =
     (if unat c + unat delta \<le> unat m then Inr (c + delta) else Inl (CreditOverflow sid c delta m))"
proof -
  have "unat m < 2 ^ 32" using unsigned_less[of m] by simp
  then show ?thesis
    unfolding checked_credit_def checked_add_def
    by (auto simp: word_le_nat_alt unat_word_ariths)
qed

lemma word_mod_2_eq_1 [simp]: "((w::u32) mod 2 = 1) = odd w"
  by (simp add: odd_iff_mod_2_eq_one)

lemmas op_defs = apply_hello_def apply_pairing_finish_def apply_connection_credit_def
  apply_open_def apply_open_response_def apply_data_def apply_discarded_inbound_data_def
  apply_stream_credit_def apply_close_def apply_reset_def require_online_or_going_def

lemma apply_control_iff:
  "h_stream_id h = 0 \<Longrightarrow> apply_control d h ctx s = (Inr (), s') \<longleftrightarrow> frame_step d h ctx s s'"
  by (cases d; cases "h_command h")
    (auto simp: apply_control_def op_defs sbind_eq_Inr checked_credit_conv frame_step.simps
      split: if_splits option.splits sum.splits)

lemma apply_open_iff:
  "h_stream_id h \<noteq> 0 \<Longrightarrow> h_command h = Open \<Longrightarrow>
   apply_open d h s = (Inr (), s') \<longleftrightarrow> frame_step d h ctx s s'"
  by (cases d)
    (auto simp: apply_open_def owned_parity_def after_open_def Let_def frame_step.simps)

lemma apply_stream_iff:
  "h_stream_id h \<noteq> 0 \<Longrightarrow> h_command h \<noteq> Open \<Longrightarrow>
   apply_stream d h ctx s = (Inr (), s') \<longleftrightarrow> frame_step d h ctx s s'"
  by (cases d; cases "h_command h"; cases "ss_streams s (h_stream_id h)";
      cases "st_phase (the (ss_streams s (h_stream_id h)))")
    (auto simp: apply_stream_def op_defs Let_def checked_credit_conv frame_step.simps
      split: if_splits option.splits sum.splits)

lemma apply_frame_iff: "apply_frame d h ctx s = (Inr (), s') \<longleftrightarrow> frame_step d h ctx s s'"
  using apply_control_iff apply_open_iff apply_stream_iff by (simp add: apply_frame_def)

lemma process_iff:
  "process d h ctx s = (Inr (), s') \<longleftrightarrow>
     header_validate (cfg_limits (ss_config s)) h = Inr () \<and> validate_context s h ctx = Inr () \<and>
     ss_phase s \<noteq> SessionClosed \<and> validate_sequence s d h = Inr () \<and>
     (\<exists>s1. frame_step d h ctx s s1 \<and> s' = advance_sequence d h s1)"
  by (auto simp: process_def sbind_eq_Inr apply_frame_iff[symmetric])

lemma apply_control_error: "apply_control d h ctx s = (Inl e, s') \<Longrightarrow> s' = s \<and> e \<noteq> Panicked"
  by (cases "h_command h")
    (auto simp: apply_control_def op_defs sbind_eq_Inl checked_credit_conv unexpected_def
      split: if_splits option.splits)

lemma apply_open_error: "apply_open d h s = (Inl e, s') \<Longrightarrow> s' = s \<and> e \<noteq> Panicked"
  by (auto simp: apply_open_def Let_def unexpected_def split: if_splits)

lemma apply_stream_error: "apply_stream d h ctx s = (Inl e, s') \<Longrightarrow> s' = s \<and> e \<noteq> Panicked"
  by (cases "ss_streams s (h_stream_id h)"; cases "h_command h")
    (auto simp: apply_stream_def op_defs Let_def checked_credit_conv unexpected_def
      split: if_splits option.splits)

lemma apply_frame_error: "apply_frame d h ctx s = (Inl e, s') \<Longrightarrow> s' = s \<and> e \<noteq> Panicked"
  unfolding apply_frame_def
  by (simp split: if_splits add: apply_control_error apply_open_error apply_stream_error)

lemma validate_not_panicked:
  "validate_context s h ctx \<noteq> Inl Panicked" "validate_sequence s d h \<noteq> Inl Panicked"
  by (auto simp: validate_context_def validate_window_def validate_sequence_def rbind_eq_Inl Let_def
    split: if_splits)

lemma process_error: "process d h ctx s = (Inl e, s') \<Longrightarrow> s' = s \<and> e \<noteq> Panicked"
  using validate_not_panicked
  by (auto simp: process_def sbind_eq_Inl unexpected_def split: if_splits dest: apply_frame_error)

section \<open>Invariant\<close>

text \<open>An account: a credit within its limit, the limit within the negotiated maximum.\<close>

definition account_ok :: "session_config \<Rightarrow> u32 \<Rightarrow> u32 \<Rightarrow> bool" where
  "account_ok cfg c l \<longleftrightarrow> c \<le> l \<and> l \<le> max_window (cfg_limits cfg)"

definition stream_ok :: "session_config \<Rightarrow> u32 \<Rightarrow> stream_state \<Rightarrow> bool" where
  "stream_ok cfg sid st \<longleftrightarrow>
     sid \<noteq> 0 \<and> st_initiated_by_local st = (odd sid = local_streams_are_odd (cfg_role cfg)) \<and>
     account_ok cfg (st_send_credit st) (st_send_limit st) \<and>
     account_ok cfg (st_receive_credit st) (st_receive_limit st) \<and>
     (st_phase st \<in> {StreamOpening, StreamRejected} \<longrightarrow>
        st_send_limit st = 0 \<and> st_receive_limit st = 0 \<and>
        \<not> st_local_end_stream st \<and> \<not> st_peer_end_stream st) \<and>
     (st_phase st = StreamClosed \<longrightarrow> st_local_end_stream st \<and> st_peer_end_stream st)"

definition conn_ok :: "session_state \<Rightarrow> bool" where
  "conn_ok s \<longleftrightarrow>
     account_ok (ss_config s) (ss_send_credit s) (ss_send_limit s) \<and>
     account_ok (ss_config s) (ss_receive_credit s) (ss_receive_limit s) \<and>
     (\<not> ss_peer_hello s \<longrightarrow> ss_send_limit s = 0) \<and> (\<not> ss_local_hello s \<longrightarrow> ss_receive_limit s = 0) \<and>
     (ss_phase s = HelloExchange \<longrightarrow> \<not> (ss_local_hello s \<and> ss_peer_hello s)) \<and>
     (ss_phase s \<in> {Online, GoingAway} \<longrightarrow> ss_local_hello s \<and> ss_peer_hello s)"

definition streams_ok :: "session_state \<Rightarrow> bool" where
  "streams_ok s \<longleftrightarrow> (\<forall>sid st. ss_streams s sid = Some st \<longrightarrow> stream_ok (ss_config s) sid st)"

definition sequences_ok :: "session_state \<Rightarrow> bool" where
  "sequences_ok s \<longleftrightarrow> (\<forall>d sid. sequences d s sid \<noteq> None \<longrightarrow> sid = 0 \<or> ss_streams s sid \<noteq> None)"

definition allocator_ok :: "session_state \<Rightarrow> bool" where
  "allocator_ok s \<longleftrightarrow>
     (\<forall>n. ss_next_local_stream_id s = Some n \<longrightarrow>
        n \<noteq> 0 \<and> odd n = local_streams_are_odd (cfg_role (ss_config s)) \<and>
        (\<forall>sid st. ss_streams s sid = Some st \<and> st_initiated_by_local st \<longrightarrow> sid < n))"

definition session_inv :: "session_state \<Rightarrow> bool" where
  "session_inv s \<longleftrightarrow> conn_ok s \<and> streams_ok s \<and> sequences_ok s \<and> allocator_ok s"

lemma account_ok_open: "w \<le> max_window (cfg_limits cfg) \<Longrightarrow> account_ok cfg w w \<and> account_ok cfg 0 w"
  by (simp add: account_ok_def)

lemma account_ok_consume: "account_ok cfg c l \<Longrightarrow> n \<le> c \<Longrightarrow> account_ok cfg (c - n) l"
  unfolding account_ok_def by (meson order_trans word_sub_le)

lemma account_ok_grant: "account_ok cfg c l \<Longrightarrow> unat c + unat n \<le> unat l \<Longrightarrow> account_ok cfg (c + n) l"
  using unsigned_less[of l] by (simp add: account_ok_def word_le_nat_alt unat_word_ariths)

lemma account_ok_limit_0 [simp]: "account_ok cfg c 0 \<longleftrightarrow> c = 0"
  by (simp add: account_ok_def)

lemma session_inv_new: "session_inv (session_new cfg)"
  by (auto simp: session_inv_def conn_ok_def streams_ok_def sequences_ok_def allocator_ok_def
    session_new_def sequences_def split: direction.splits)

subsection \<open>Sequence counters\<close>

lemma advance_sequence_fields [simp]:
  "ss_config (advance_sequence d h s) = ss_config s"
  "ss_phase (advance_sequence d h s) = ss_phase s"
  "ss_local_hello (advance_sequence d h s) = ss_local_hello s"
  "ss_peer_hello (advance_sequence d h s) = ss_peer_hello s"
  "ss_next_local_stream_id (advance_sequence d h s) = ss_next_local_stream_id s"
  "ss_streams (advance_sequence d h s) = ss_streams s"
  "ss_send_credit (advance_sequence d h s) = ss_send_credit s"
  "ss_send_limit (advance_sequence d h s) = ss_send_limit s"
  "ss_receive_credit (advance_sequence d h s) = ss_receive_credit s"
  "ss_receive_limit (advance_sequence d h s) = ss_receive_limit s"
  by (cases d; simp add: advance_sequence_def Let_def)+

lemma sequences_advance:
  "sequences d' (advance_sequence d h s) sid =
     (if d' = d \<and> sid = h_stream_id h \<and> h_sequence h \<noteq> - 1 then Some (h_sequence h + 1)
      else sequences d' s sid)"
  by (cases d; cases d') (auto simp: advance_sequence_def sequences_def Let_def)

lemma put_stream_fields [simp]:
  "ss_config (put_stream sid st s) = ss_config s"
  "ss_phase (put_stream sid st s) = ss_phase s"
  "ss_next_local_stream_id (put_stream sid st s) = ss_next_local_stream_id s"
  "ss_streams (put_stream sid st s) = (ss_streams s)(sid \<mapsto> st)"
  "sequences d (put_stream sid st s) = sequences d s"
  "ss_send_credit (put_stream sid st s) = ss_send_credit s"
  "ss_receive_credit (put_stream sid st s) = ss_receive_credit s"
  by (cases d; simp add: put_stream_def sequences_def)+

lemma set_conn_credit_fields [simp]:
  "ss_config (set_conn_credit d v s) = ss_config s"
  "ss_phase (set_conn_credit d v s) = ss_phase s"
  "ss_next_local_stream_id (set_conn_credit d v s) = ss_next_local_stream_id s"
  "ss_streams (set_conn_credit d v s) = ss_streams s"
  "sequences d' (set_conn_credit d v s) = sequences d' s"
  by (cases d; cases d'; simp add: sequences_def)+

lemma after_open_fields [simp]:
  "ss_config (after_open d sid s) = ss_config s"
  "ss_phase (after_open d sid s) = ss_phase s"
  "ss_streams (after_open d sid s) = ss_streams s"
  "sequences d' (after_open d sid s) = sequences d' s"
  by (cases d'; simp add: after_open_def sequences_def)+

lemma note_fields [simp]:
  "ss_config (note_hello d w s) = ss_config s"
  "ss_next_local_stream_id (note_hello d w s) = ss_next_local_stream_id s"
  "ss_streams (note_hello d w s) = ss_streams s"
  "sequences d' (note_hello d w s) = sequences d' s"
  "ss_config (note_pairing d s) = ss_config s"
  "ss_next_local_stream_id (note_pairing d s) = ss_next_local_stream_id s"
  "ss_streams (note_pairing d s) = ss_streams s"
  "sequences d' (note_pairing d s) = sequences d' s"
  by (cases d; cases d'; simp add: sequences_def)+

lemma sequences_update [simp]:
  "sequences d (s\<lparr>ss_phase := p\<rparr>) = sequences d s"
  "sequences d (s\<lparr>ss_send_credit := v\<rparr>) = sequences d s"
  "sequences d (s\<lparr>ss_receive_credit := v\<rparr>) = sequences d s"
  "sequences d (s\<lparr>ss_next_local_stream_id := n\<rparr>) = sequences d s"
  by (cases d; simp add: sequences_def)+

lemma frame_step_config [simp]: "frame_step d h ctx s s' \<Longrightarrow> ss_config s' = ss_config s"
  by (erule frame_step.cases) simp_all

lemma frame_step_sequences: "frame_step d h ctx s s' \<Longrightarrow> sequences d' s' = sequences d' s"
  by (erule frame_step.cases) simp_all

lemma frame_step_stream:
  "frame_step d h ctx s s' \<Longrightarrow> h_stream_id h = 0 \<or> ss_streams s' (h_stream_id h) \<noteq> None"
  by (erule frame_step.cases) auto

lemma frame_step_other_stream:
  "frame_step d h ctx s s' \<Longrightarrow> sid \<noteq> h_stream_id h \<or> sid = 0 \<Longrightarrow> ss_streams s' sid = ss_streams s sid"
  by (erule frame_step.cases) auto

lemma validate_window_Inr [simp]:
  "validate_window s w = Inr () \<longleftrightarrow> w \<noteq> 0 \<and> w \<le> max_window (cfg_limits (ss_config s))"
  by (auto simp: validate_window_def Let_def)

lemma validate_context_windows:
  assumes "validate_context s h ctx = Inr ()"
  shows "h_command h = Hello \<Longrightarrow> initial_connection_window ctx = Some w \<Longrightarrow>
           w \<noteq> 0 \<and> w \<le> max_window (cfg_limits (ss_config s))"
    and "h_command h = Accept \<Longrightarrow> initial_stream_window ctx = Some w \<Longrightarrow>
           w \<noteq> 0 \<and> w \<le> max_window (cfg_limits (ss_config s))"
  using assms by (auto simp: validate_context_def split: if_splits)

lemma frame_step_conn_ok:
  assumes "frame_step d h ctx s s'" "validate_context s h ctx = Inr ()" "conn_ok s"
  shows "conn_ok s'"
  using assms(1)
proof cases
  case (hello w)
  then show ?thesis using assms(3) validate_context_windows(1)[OF assms(2), of w]
    by (cases d) (auto simp: conn_ok_def account_ok_open)
next
  case pairing then show ?thesis using assms(3) by (cases d) (auto simp: conn_ok_def)
next
  case conn_grant then show ?thesis using assms(3) by (cases d) (auto simp: conn_ok_def account_ok_grant)
next
  case open_stream then show ?thesis using assms(3) by (auto simp: conn_ok_def put_stream_def after_open_def)
next
  case late_data then show ?thesis using assms(3)
    by (auto simp: conn_ok_def put_stream_def account_ok_consume)
next
  case data then show ?thesis using assms(3)
    by (cases d) (auto simp: conn_ok_def put_stream_def account_ok_consume)
qed (use assms(3) in \<open>auto simp: conn_ok_def put_stream_def\<close>)

lemma stream_okD:
  "streams_ok s \<Longrightarrow> ss_streams s sid = Some st \<Longrightarrow> stream_ok (ss_config s) sid st"
  by (simp add: streams_ok_def)

lemma set_strm_credit_fields [simp]:
  "st_phase (set_strm_credit d v st) = st_phase st"
  "st_initiated_by_local (set_strm_credit d v st) = st_initiated_by_local st"
  "strm_limit d' (set_strm_credit d v st) = strm_limit d' st"
  "strm_end d' (set_strm_credit d v st) = strm_end d' st"
  "st_phase (mark_end d st) = st_phase st"
  "st_initiated_by_local (mark_end d st) = st_initiated_by_local st"
  by (cases d; cases d'; simp)+

lemma stream_ok_account: "stream_ok cfg sid st \<Longrightarrow> account_ok cfg (strm_credit d st) (strm_limit d st)"
  by (cases d) (simp_all add: stream_ok_def)

lemma stream_ok_credit:
  "stream_ok cfg sid st \<Longrightarrow> account_ok cfg v (strm_limit d st) \<Longrightarrow> stream_ok cfg sid (set_strm_credit d v st)"
  by (cases d) (simp_all add: stream_ok_def)

lemma stream_ok_end: "stream_ok cfg sid st \<Longrightarrow> st_phase st = StreamAccepted \<Longrightarrow> stream_ok cfg sid (mark_end d st)"
  by (cases d) (simp_all add: stream_ok_def)

lemma stream_ok_accept:
  "stream_ok cfg sid st \<Longrightarrow> st_phase st = StreamOpening \<Longrightarrow> w \<le> max_window (cfg_limits cfg) \<Longrightarrow>
   stream_ok cfg sid
     (set_strm_credit d w (st\<lparr>st_phase := StreamAccepted, st_send_limit := w, st_receive_limit := w\<rparr>))"
  by (cases d) (clarsimp simp: stream_ok_def account_ok_open)+

lemma stream_ok_phase:
  "stream_ok cfg sid st \<Longrightarrow> st_phase st = StreamOpening \<Longrightarrow> stream_ok cfg sid (st\<lparr>st_phase := StreamRejected\<rparr>)"
  "stream_ok cfg sid st \<Longrightarrow> st_phase st = StreamAccepted \<Longrightarrow> stream_ok cfg sid (st\<lparr>st_phase := StreamReset\<rparr>)"
  "stream_ok cfg sid st \<Longrightarrow> st_phase st = StreamAccepted \<Longrightarrow> stream_ok cfg sid
     (st\<lparr>st_local_end_stream := True, st_peer_end_stream := True, st_phase := StreamClosed\<rparr>)"
  by (clarsimp simp: stream_ok_def)+

lemma stream_ok_opening:
  "sid \<noteq> 0 \<Longrightarrow> odd sid = owned_parity d s \<Longrightarrow> stream_ok (ss_config s) sid (stream_opening (d = Outbound))"
  by (cases d) (simp_all add: stream_ok_def stream_opening_def owned_parity_def)

lemma frame_step_stream_ok:
  assumes "frame_step d h ctx s s'" "validate_context s h ctx = Inr ()" "streams_ok s"
    and st': "ss_streams s' (h_stream_id h) = Some st'"
  shows "stream_ok (ss_config s) (h_stream_id h) st'"
  using assms(1)
proof cases
  case open_stream
  from stream_ok_opening[OF open_stream(2,5)] show ?thesis using st' open_stream(1) by simp
next
  case (accept st w)
  have "w \<le> max_window (cfg_limits (ss_config s))"
    using validate_context_windows(2)[OF assms(2) accept(3,7)] by simp
  from stream_ok_accept[OF stream_okD[OF assms(3) accept(4)] accept(5) this, of "opp d"]
  show ?thesis using st' accept(1) by simp
next
  case (reject st)
  from stream_ok_phase(1)[OF stream_okD[OF assms(3) reject(4)] reject(5)]
  show ?thesis using st' reject(1) by simp
next
  case (late_data st)
  note ok = stream_okD[OF assms(3) late_data(4)]
  show ?thesis
    using st' late_data(1) stream_ok_credit[OF ok account_ok_consume[OF stream_ok_account[OF ok] late_data(7)]]
    by simp
next
  case (data st)
  note ok = stream_okD[OF assms(3) data(4)]
  show ?thesis
    using st' data(1,5) stream_ok_credit[OF ok account_ok_consume[OF stream_ok_account[OF ok] data(7)]]
    by (auto intro: stream_ok_end split: if_splits)
next
  case (stream_grant st)
  note ok = stream_okD[OF assms(3) stream_grant(4)]
  show ?thesis
    using st' stream_grant(1) stream_ok_credit[OF ok account_ok_grant[OF stream_ok_account[OF ok] stream_grant(6)]]
    by simp
next
  case (close st)
  from stream_ok_phase(3)[OF stream_okD[OF assms(3) close(4)] close(5)]
  show ?thesis using st' close(1) by simp
next
  case (reset st)
  from stream_ok_phase(2)[OF stream_okD[OF assms(3) reset(4)] reset(5)]
  show ?thesis using st' reset(1) by simp
qed (use st' stream_okD[OF assms(3)] in simp_all)

lemma frame_step_streams_ok:
  assumes "frame_step d h ctx s s'" "validate_context s h ctx = Inr ()" "streams_ok s"
  shows "streams_ok s'"
  unfolding streams_ok_def frame_step_config[OF assms(1)]
  using frame_step_stream_ok[OF assms] frame_step_other_stream[OF assms(1)] stream_okD[OF assms(3)]
  by metis

lemma checked_add_2: "checked_add (n::u32) 2 = Some m \<Longrightarrow> odd m = odd n \<and> n < m \<and> m \<noteq> 0"
  by (auto simp: checked_add_def word_less_nat_alt unat_word_ariths unat_eq_zero[symmetric] split: if_splits)

lemma frame_step_initiator:
  "frame_step d h ctx s s' \<Longrightarrow> ss_streams s' sid = Some st' \<Longrightarrow>
   (\<exists>st. ss_streams s sid = Some st \<and> st_initiated_by_local st' = st_initiated_by_local st) \<or>
   sid = h_stream_id h \<and> h_command h = Open \<and> st_initiated_by_local st' = (d = Outbound)"
  by (erule frame_step.cases) (auto simp: stream_opening_def split: if_splits)


lemma frame_step_next_id:
  "frame_step d h ctx s s' \<Longrightarrow> h_command h \<noteq> Open \<Longrightarrow> ss_next_local_stream_id s' = ss_next_local_stream_id s"
  by (erule frame_step.cases) simp_all

lemma allocator_ok_open:
  assumes ok: "allocator_ok s" and sid: "sid \<noteq> 0" "odd sid = owned_parity d s"
  shows "allocator_ok (after_open d sid (put_stream sid (stream_opening (d = Outbound)) s))"
proof (cases "ss_next_local_stream_id s")
  case None
  then show ?thesis by (simp add: allocator_ok_def after_open_def)
next
  case (Some n)
  note n = ok[unfolded allocator_ok_def, rule_format, OF Some]
  show ?thesis
  proof (cases "d = Outbound \<and> n \<le> sid")
    case True
    then have "i < m" if "ss_streams s i = Some st" "st_initiated_by_local st"
        "checked_add sid 2 = Some m" for i st m
      using n that checked_add_2[of sid m] by (meson order_less_le_trans order_less_trans)
    then show ?thesis
      using True Some sid checked_add_2[of sid]
      by (auto simp: allocator_ok_def after_open_def owned_parity_def)
  next
    case False
    let ?s = "put_stream sid (stream_opening (d = Outbound)) s"
    have "after_open d sid ?s = ?s" using False Some by (auto simp: after_open_def)
    moreover have "i < n" if "ss_streams ?s i = Some st" "st_initiated_by_local st" for i st
    proof (cases "i = sid")
      case True
      then have "d = Outbound" using that by (auto simp: stream_opening_def)
      then show ?thesis using True False by (simp add: not_le)
    next
      case False
      then show ?thesis using that n by auto
    qed
    ultimately show ?thesis
      using Some n unfolding allocator_ok_def by (metis option.inject put_stream_fields(1,3))
  qed
qed

lemma frame_step_allocator_ok:
  assumes "frame_step d h ctx s s'" "allocator_ok s"
  shows "allocator_ok s'"
proof (cases "h_command h = Open")
  case True
  from assms(1) show ?thesis by cases (use True assms(2) in \<open>auto intro: allocator_ok_open\<close>)
next
  case False
  then have "\<exists>st. ss_streams s sid = Some st \<and> st_initiated_by_local st"
    if "ss_streams s' sid = Some st'" "st_initiated_by_local st'" for sid st'
    using frame_step_initiator[OF assms(1) that(1)] that(2) by auto
  then show ?thesis
    using assms(2) frame_step_next_id[OF assms(1) False] frame_step_config[OF assms(1)]
    unfolding allocator_ok_def by simp
qed

lemma frame_step_dom: "frame_step d h ctx s s' \<Longrightarrow> ss_streams s sid \<noteq> None \<Longrightarrow> ss_streams s' sid \<noteq> None"
  by (erule frame_step.cases) auto

lemma process_sequences_ok:
  assumes "frame_step d h ctx s s1" "sequences_ok s"
  shows "sequences_ok (advance_sequence d h s1)"
proof -
  have "sid = 0 \<or> ss_streams s1 sid \<noteq> None"
    if "sequences d' (advance_sequence d h s1) sid \<noteq> None" for d' sid
    using that assms(2) frame_step_stream[OF assms(1)] frame_step_dom[OF assms(1), of sid]
    unfolding sequences_advance frame_step_sequences[OF assms(1)] sequences_ok_def
    by (cases "sid = h_stream_id h") (simp_all, blast)
  then show ?thesis by (simp add: sequences_ok_def)
qed

lemma session_inv_process:
  assumes "process d h ctx s = (Inr (), s')" "session_inv s"
  shows "session_inv s'"
proof -
  obtain s1 where s1: "frame_step d h ctx s s1" "s' = advance_sequence d h s1"
    and ctx: "validate_context s h ctx = Inr ()"
    using assms(1) by (auto simp: process_iff)
  have "conn_ok s1" "streams_ok s1" "allocator_ok s1"
    using frame_step_conn_ok[OF s1(1) ctx] frame_step_streams_ok[OF s1(1) ctx]
      frame_step_allocator_ok[OF s1(1)] assms(2) by (auto simp: session_inv_def)
  moreover have "sequences_ok s'"
    using process_sequences_ok[OF s1(1)] assms(2) s1(2) by (simp add: session_inv_def)
  ultimately show ?thesis
    unfolding s1(2) by (simp add: session_inv_def conn_ok_def streams_ok_def allocator_ok_def)
qed

lemma session_inv_allocate:
  assumes "allocate_stream_id s = (Inr sid, s')" "session_inv s"
  shows "session_inv s'"
proof -
  have s': "s' = s\<lparr>ss_next_local_stream_id := checked_add sid 2\<rparr>" 
    and "ss_next_local_stream_id s = Some sid"
    using assms(1) by (auto simp: allocate_stream_id_def split: option.splits)
  then have "allocator_ok s'"
    using assms(2) checked_add_2[of sid]
    by (auto simp: session_inv_def allocator_ok_def intro: order_less_trans)
  then show ?thesis using assms(2) s'
    by (simp add: session_inv_def conn_ok_def streams_ok_def sequences_ok_def)
qed


section \<open>Runs\<close>

text \<open>The calls a connection makes on its endpoint, and runs of them from \<open>SessionState::new\<close>.\<close>

datatype session_event = FrameEvent direction header frame_context | AllocateEvent

fun session_exec :: "session_event \<Rightarrow> (session_state, protocol_error, unit) mut" where
  "session_exec (FrameEvent d h ctx) s = process d h ctx s"
| "session_exec AllocateEvent s = sbind (allocate_stream_id s) (\<lambda>_ s. (Inr (), s))"

lemma session_exec_Inr_cases:
  assumes "session_exec ev s = (Inr (), s')"
  obtains (Frame) d h ctx s1 where "ev = FrameEvent d h ctx" "process d h ctx s = (Inr (), s')"
      "header_validate (cfg_limits (ss_config s)) h = Inr ()" "validate_context s h ctx = Inr ()"
      "validate_sequence s d h = Inr ()"
      "frame_step d h ctx s s1" "s' = advance_sequence d h s1"
  | (Allocate) sid where "ev = AllocateEvent" "allocate_stream_id s = (Inr sid, s')"
      "ss_next_local_stream_id s = Some sid" "s' = s\<lparr>ss_next_local_stream_id := checked_add sid 2\<rparr>"
  using assms
  by (cases ev) (auto simp: process_iff sbind_eq_Inr allocate_stream_id_def split: option.splits)

interpretation session: machine session_exec session_inv
proof
  fix s ev s'
  assume "session_inv s" "session_exec ev s = (Inr (), s')"
  then show "session_inv s'"
    by (elim session_exec_Inr_cases) (auto intro: session_inv_process session_inv_allocate)
qed

subsection \<open>Sequence numbers of a run\<close>

fun frames_on :: "direction \<Rightarrow> u32 \<Rightarrow> session_event list \<Rightarrow> header list" where
  "frames_on d sid [] = []"
| "frames_on d sid (FrameEvent d' h ctx # evs) =
     (if d' = d \<and> h_stream_id h = sid then h # frames_on d sid evs else frames_on d sid evs)"
| "frames_on d sid (AllocateEvent # evs) = frames_on d sid evs"

abbreviation seq_max :: nat where
  "seq_max \<equiv> 4294967295"

lemma unat_u32_bound: "unat (w::u32) < 4294967296"
  using unsigned_less[of w] by simp

lemma unat_u32_max [simp]: "unat (- 1 :: u32) = seq_max"
  by (simp add: unsigned_minus_1_eq_mask mask_eq_exp_minus_1)

lemma unat_u32_less_max: "(w::u32) \<noteq> - 1 \<Longrightarrow> unat w < seq_max"
  by (metis unat_u32_max word_less_nat_alt word_order.not_eq_extremum)

lemma expected_sequence_step:
  assumes "frame_step d h ctx s s1" "validate_sequence s d h = Inr ()"
  shows "h_sequence h = expected_sequence d s (h_stream_id h)"
    and "unat (expected_sequence d (advance_sequence d h s1) (h_stream_id h)) =
           min (Suc (unat (h_sequence h))) seq_max"
    and "d' \<noteq> d \<or> sid \<noteq> h_stream_id h \<Longrightarrow>
           expected_sequence d' (advance_sequence d h s1) sid = expected_sequence d' s sid"
proof -
  show seq: "h_sequence h = expected_sequence d s (h_stream_id h)"
    using assms(2) by (auto simp: validate_sequence_def Let_def split: if_splits)
  show "unat (expected_sequence d (advance_sequence d h s1) (h_stream_id h)) =
      min (Suc (unat (h_sequence h))) seq_max"
  proof (cases "h_sequence h = - 1")
    case True
    then show ?thesis
      using seq by (simp add: expected_sequence_def sequences_advance frame_step_sequences[OF assms(1)])
  next
    case False
    then have "unat (h_sequence h) < seq_max" by (rule unat_u32_less_max)
    moreover from this have "unat (h_sequence h + 1) = Suc (unat (h_sequence h))"
      by (simp add: unat_word_ariths)
    ultimately show ?thesis
      using False by (simp add: expected_sequence_def sequences_advance)
  qed
  show "expected_sequence d' (advance_sequence d h s1) sid = expected_sequence d' s sid"
    if "d' \<noteq> d \<or> sid \<noteq> h_stream_id h"
    using that by (auto simp: expected_sequence_def sequences_advance frame_step_sequences[OF assms(1)])
qed


lemma sequences_run:
  "exec_all session_exec evs s = (Inr (), s') \<Longrightarrow>
   map (\<lambda>h. unat (h_sequence h)) (frames_on d sid evs) =
     map (\<lambda>i. min (unat (expected_sequence d s sid) + i) seq_max) [0..<length (frames_on d sid evs)]"
proof (induction evs arbitrary: s)
  case (Cons ev evs)
  then obtain s1 where 1: "session_exec ev s = (Inr (), s1)" "exec_all session_exec evs s1 = (Inr (), s')"
    by auto
  from 1(1) show ?case
  proof (cases rule: session_exec_Inr_cases)
    case (Frame d' h ctx s2)
    note es = expected_sequence_step[OF Frame(6,5), folded Frame(7)]
    show ?thesis
    proof (cases "d' = d \<and> h_stream_id h = sid")
      case True
      let ?n = "unat (expected_sequence d s sid)" and ?fs = "frames_on d sid evs"
      have "?n \<le> seq_max" using unat_u32_bound[of "expected_sequence d s sid"] by simp
      moreover have "map (\<lambda>h. unat (h_sequence h)) ?fs = map (\<lambda>i. min (min (Suc ?n) seq_max + i) seq_max) [0..<length ?fs]"
        using Cons.IH[OF 1(2)] es(1,2) True by simp
      moreover have "\<dots> = map (\<lambda>i. min (?n + Suc i) seq_max) [0..<length ?fs]" by auto
      ultimately show ?thesis
        using es(1) True Frame(1) by (simp add: map_upt_Suc del: upt_Suc)
    next
      case False
      then show ?thesis using Cons.IH[OF 1(2)] es(3)[of d sid] Frame(1) by auto
    qed
  next
    case (Allocate sid')
    then have "expected_sequence d s1 sid = expected_sequence d s sid"
      by (simp add: expected_sequence_def)
    then show ?thesis using Cons.IH[OF 1(2)] Allocate(1) by simp
  qed
qed simp

subsection \<open>Credit over a run\<close>

fun data_taken :: "direction \<Rightarrow> session_event \<Rightarrow> nat" where
  "data_taken d (FrameEvent d' h ctx) =
     (if d' = d \<and> h_command h = Data then unat (h_payload_length h) else 0)"
| "data_taken d AllocateEvent = 0"

fun credit_given :: "direction \<Rightarrow> session_event \<Rightarrow> nat" where
  "credit_given d (FrameEvent d' h ctx) =
     (if d' \<noteq> opp d then 0
      else if h_command h = Hello then (case initial_connection_window ctx of None \<Rightarrow> 0 | Some w \<Rightarrow> unat w)
      else if h_command h = Credit \<and> h_stream_id h = 0 then unat (h_credit_delta h)
      else 0)"
| "credit_given d AllocateEvent = 0"

lemma conn_credit_advance [simp]: "conn_credit d (advance_sequence d' h s) = conn_credit d s"
  by (cases d) simp_all

lemma conn_credit_set [simp]:
  "conn_credit d (set_conn_credit d' v s) = (if d = d' then v else conn_credit d s)"
  "conn_credit d (put_stream sid st s) = conn_credit d s"
  "conn_credit d (after_open d' sid s) = conn_credit d s"
  "conn_credit d (note_pairing d' s) = conn_credit d s"
  "conn_credit d (note_hello d' w s) = (if d = opp d' then w else conn_credit d s)"
  "conn_credit d (s\<lparr>ss_phase := p\<rparr>) = conn_credit d s"
  "conn_credit d (s\<lparr>ss_next_local_stream_id := n\<rparr>) = conn_credit d s"
  by (cases d; cases d'; simp add: after_open_def)+

lemma opp_opp [simp]: "opp (opp d) = d" "opp d \<noteq> d" "d \<noteq> opp d" "opp d = opp d' \<longleftrightarrow> d = d'"
  by (cases d; cases d'; simp)+

lemma conn_credit_unseen: "conn_ok s \<Longrightarrow> \<not> hello_seen d s \<Longrightarrow> conn_credit (opp d) s = 0"
  by (cases d) (auto simp: conn_ok_def)

lemma conn_credit_le: "conn_ok s \<Longrightarrow> conn_credit d s \<le> conn_limit d s"
  by (cases d) (auto simp: conn_ok_def account_ok_def)

lemma frame_step_credit:
  assumes "frame_step d' h ctx s s'" "conn_ok s"
  shows "unat (conn_credit d s') + data_taken d (FrameEvent d' h ctx) =
         unat (conn_credit d s) + credit_given d (FrameEvent d' h ctx)"
  using assms(1)
proof cases
  case (hello w)
  then show ?thesis using conn_credit_unseen[OF assms(2)] by (cases "d = opp d'") auto
next
  case conn_grant
  then have "unat (conn_credit (opp d') s + h_credit_delta h) =
      unat (conn_credit (opp d') s) + unat (h_credit_delta h)"
    using unat_u32_bound[of "conn_limit (opp d') s"] by (simp add: unat_word_ariths)
  then show ?thesis using conn_grant by (cases "d = opp d'") auto
next
  case late_data
  then show ?thesis by (cases "d = d'") (auto simp: unat_sub word_le_nat_alt)
next
  case data
  then show ?thesis by (cases "d = d'") (auto simp: unat_sub word_le_nat_alt)
qed auto

interpretation connection_credit: ledger session_exec session_inv
  "\<lambda>s. unat (conn_credit d s)" "data_taken d" "credit_given d" for d
proof
  fix s ev s'
  assume "session_inv s" "session_exec ev s = (Inr (), s')"
  then show "unat (conn_credit d s') + data_taken d ev = unat (conn_credit d s) + credit_given d ev"
    by (elim session_exec_Inr_cases)
      (use frame_step_credit in \<open>auto simp: session_inv_def\<close>)
qed


subsection \<open>Life of a stream\<close>

fun phase_reaches :: "stream_phase \<Rightarrow> stream_phase \<Rightarrow> bool" where
  "phase_reaches StreamOpening q = True"
| "phase_reaches StreamAccepted q = (q \<in> {StreamAccepted, StreamClosed, StreamReset})"
| "phase_reaches p q = (q = p)"

lemma phase_reaches_refl [simp]: "phase_reaches p p"
  by (cases p) auto

lemma phase_reaches_trans: "phase_reaches p q \<Longrightarrow> phase_reaches q r \<Longrightarrow> phase_reaches p r"
  by (cases p; cases q) auto

lemma frame_step_lifecycle:
  assumes "frame_step d h ctx s s'" "ss_streams s sid = Some st"
  shows "\<exists>st'. ss_streams s' sid = Some st' \<and> phase_reaches (st_phase st) (st_phase st') \<and>
           st_initiated_by_local st' = st_initiated_by_local st"
  using assms by (cases rule: frame_step.cases) auto

lemma frames_on_Cons_Open:
  "(\<forall>h \<in> set (frames_on d sid (ev # evs)). h_command h \<noteq> Open) \<longleftrightarrow>
   (\<forall>h ctx. ev = FrameEvent d h ctx \<longrightarrow> h_stream_id h = sid \<longrightarrow> h_command h \<noteq> Open) \<and>
   (\<forall>h \<in> set (frames_on d sid evs). h_command h \<noteq> Open)"
  by (cases ev) auto

lemma frame_step_no_reopen:
  "frame_step d h ctx s s' \<Longrightarrow> ss_streams s (h_stream_id h) \<noteq> None \<Longrightarrow> h_command h \<noteq> Open"
  by (erule frame_step.cases) auto

lemma lifecycle_run:
  "exec_all session_exec evs s = (Inr (), s') \<Longrightarrow> ss_streams s sid = Some st \<Longrightarrow>
   (\<exists>st'. ss_streams s' sid = Some st' \<and> phase_reaches (st_phase st) (st_phase st') \<and>
     st_initiated_by_local st' = st_initiated_by_local st) \<and>
   (\<forall>h \<in> set (frames_on d sid evs). h_command h \<noteq> Open)"
proof (induction evs arbitrary: s st)
  case (Cons ev evs)
  then obtain s1 where 1: "session_exec ev s = (Inr (), s1)" "exec_all session_exec evs s1 = (Inr (), s')"
    by auto
  from 1(1) obtain st1 where st1: "ss_streams s1 sid = Some st1"
      "phase_reaches (st_phase st) (st_phase st1)" "st_initiated_by_local st1 = st_initiated_by_local st"
    by (cases rule: session_exec_Inr_cases) (use Cons.prems(2) frame_step_lifecycle in fastforce)+
  moreover have "h_command h \<noteq> Open" if "ev = FrameEvent d h ctx" "h_stream_id h = sid" for h ctx
    using 1(1) that Cons.prems(2) frame_step_no_reopen by (auto simp: process_iff)
  ultimately show ?case
    using Cons.IH[OF 1(2) st1(1)] phase_reaches_trans[OF st1(2)] unfolding frames_on_Cons_Open by fastforce
qed simp

section \<open>Allocation\<close>

lemma allocated_fresh:
  assumes "session_inv s" "ss_next_local_stream_id s = Some sid"
  shows "sid \<noteq> 0" "odd sid = local_streams_are_odd (cfg_role (ss_config s))"
    "ss_streams s sid = None" "expected_sequence d s sid = 0"
proof -
  have al: "sid \<noteq> 0" "odd sid = local_streams_are_odd (cfg_role (ss_config s))"
      "\<And>i st. ss_streams s i = Some st \<and> st_initiated_by_local st \<Longrightarrow> i < sid"
    using assms unfolding session_inv_def allocator_ok_def by blast+
  show new: "ss_streams s sid = None"
  proof (rule ccontr)
    assume "ss_streams s sid \<noteq> None"
    then obtain st where st: "ss_streams s sid = Some st" by auto
    then have "st_initiated_by_local st"
      using assms(1) al(2) stream_okD by (auto simp: session_inv_def stream_ok_def)
    then show False using al(3) st by blast
  qed
  show "sid \<noteq> 0" "odd sid = local_streams_are_odd (cfg_role (ss_config s))" by (fact al)+
  have "sequences d s sid = None"
    using assms(1) new al(1) unfolding session_inv_def sequences_ok_def by blast
  then show "expected_sequence d s sid = 0" by (simp add: expected_sequence_def)
qed

lemma header_validate_open [simp]: "sid \<noteq> 0 \<Longrightarrow> header_validate lim (header_new Open sid n) = Inr ()"
  by (simp add: header_validate_def header_new_def)

lemma allocated_opens:
  assumes inv: "session_inv s" and on: "ss_phase s = Online"
    and al: "allocate_stream_id s = (Inr sid, s1)"
  shows "\<exists>s2. process Outbound (header_new Open sid 0) default_context s1 = (Inr (), s2) \<and>
           ss_streams s2 = (ss_streams s)(sid \<mapsto> stream_opening True)"
proof -
  have s1: "s1 = s\<lparr>ss_next_local_stream_id := checked_add sid 2\<rparr>" and nx: "ss_next_local_stream_id s = Some sid"
    using al by (auto simp: allocate_stream_id_def split: option.splits)
  note fresh = allocated_fresh[OF inv nx]
  let ?h = "header_new Open sid 0"
  have h: "h_stream_id ?h = sid" "h_command ?h = Open" "h_sequence ?h = 0" by (simp_all add: header_new_def)
  have "frame_step Outbound ?h default_context s1
      (after_open Outbound sid (put_stream sid (stream_opening True) s1))"
    using fresh on frame_step.open_stream[of ?h s1 Outbound default_context]
    by (simp add: h s1 owned_parity_def)
  moreover have "validate_sequence s1 Outbound ?h = Inr ()"
    using fresh(4)[of Outbound] by (simp add: validate_sequence_def h s1 expected_sequence_def)
  moreover have "validate_context s1 ?h default_context = Inr ()"
    by (simp add: validate_context_def h default_context_def)
  ultimately show ?thesis using fresh(1) on by (auto simp: process_iff s1)
qed

section \<open>An example run\<close>

definition demo_config :: session_config where
  "demo_config = \<lparr>cfg_role = Host, cfg_pairing_session = False, cfg_limits = default_decode_limits\<rparr>"

definition demo_handshake :: "session_event list" where
  "demo_handshake =
     [FrameEvent Outbound (header_new Hello 0 0) (context_hello 1000),
      FrameEvent Inbound (header_new Hello 0 0) (context_hello 2000)]"

definition demo_exchange :: "session_event list" where
  "demo_exchange =
     [AllocateEvent,
      FrameEvent Outbound (header_new Open 1 0) default_context,
      FrameEvent Inbound (header_new Accept 1 0) (context_accept 500),
      FrameEvent Outbound ((header_new Data 1 1)\<lparr>h_payload_length := 300\<rparr>) default_context,
      FrameEvent Inbound ((header_new Credit 0 1)\<lparr>h_credit_delta := 100\<rparr>) default_context]"

lemmas session_eval =
  demo_handshake_def demo_exchange_def exec_all.simps(2) process_def header_validate_def
  header_new_def demo_config_def session_new_def default_decode_limits_def validate_context_def
  context_hello_def context_accept_def default_context_def validate_window_def
  validate_sequence_def expected_sequence_def sequences_def apply_frame_def apply_control_def
  apply_hello_def advance_sequence_def allocate_stream_id_def checked_add_def apply_open_def
  put_stream_def apply_stream_def apply_open_response_def apply_data_def stream_opening_def
  require_online_or_going_def apply_connection_credit_def checked_credit_def Let_def
  FLAG_END_STREAM_def PROTOCOL_MAJOR_def PROTOCOL_MINOR_def CRITICAL_FLAG_MASK_def
  KNOWN_CRITICAL_FLAGS_def

lemma demo_handshake_run:
  "exec_all session_exec demo_handshake (session_new demo_config) =
     (Inr (), snd (exec_all session_exec demo_handshake (session_new demo_config)))"
  by (rule prod_eqI) (simp_all add: session_eval)

lemma demo_run:
  "exec_all session_exec (demo_handshake @ demo_exchange) (session_new demo_config) =
     (Inr (), snd (exec_all session_exec (demo_handshake @ demo_exchange) (session_new demo_config)))"
  by (rule prod_eqI) (simp_all add: session_eval)

section \<open>Properties\<close>

text \<open>
  C1: refinement of the protocol. \<open>process\<close>, the method behind \<open>process_inbound\<close> and
  \<open>process_outbound\<close>, accepts a frame exactly when the specification has a step for it and ends in
  the state of that step. In every other case it returns an error and leaves the whole state as it
  was: a rejected frame advances no counter and consumes no credit, and no \<open>expect\<close> or
  \<open>unreachable!\<close> of the source is ever reached.
\<close>

theorem process_refines_session_step:
  "(process d h ctx s = (Inr (), s') \<longleftrightarrow> session_step d h ctx s s') \<and>
   ((\<nexists>t. session_step d h ctx s t) \<longleftrightarrow> (\<exists>e. e \<noteq> Panicked \<and> process d h ctx s = (Inl e, s)))"
proof -
  have "(\<nexists>t. session_step d h ctx s t) \<longleftrightarrow> (\<exists>e. e \<noteq> Panicked \<and> process d h ctx s = (Inl e, s))"
  proof (cases "process d h ctx s")
    case (Pair r t)
    then show ?thesis
      using process_error[of d h ctx s] process_iff[of d h ctx s]
      by (cases r) (auto simp: session_step_def)
  qed
  then show ?thesis by (simp add: process_iff session_step_def)
qed

text \<open>
  C4: well-formedness of every reachable endpoint. After any run, each credit is within its limit
  and each limit within the negotiated window, the phase agrees with the HELLOs seen, every stream
  has the parity of its initiator and lawful accounts, sequence counters exist only for opened
  streams, and the next local id lies above every stream this endpoint has opened.
\<close>

theorem session_invariant_reachable:
  assumes "exec_all session_exec evs (session_new cfg) = (Inr (), s')"
  shows "session_inv s'"
  using session.inv_run[OF session_inv_new assms] .

theorem session_invariant_reachable_witness:
  "session_inv (snd (exec_all session_exec (demo_handshake @ demo_exchange) (session_new demo_config)))"
  by (rule session_invariant_reachable[OF demo_run])

text \<open>
  C3: replay and reordering protection. In every run of an endpoint from its initial state, the
  sequence numbers of the frames accepted on one stream in one direction are 0, 1, 2, \<dots> without a
  gap or a repetition, up to the maximum value of the counter, where only RESET is accepted.
\<close>

theorem accepted_sequences_consecutive:
  assumes "exec_all session_exec evs (session_new cfg) = (Inr (), s')"
  shows "map (\<lambda>h. unat (h_sequence h)) (frames_on d sid evs) =
           map (\<lambda>i. min i (2 ^ 32 - 1)) [0..<length (frames_on d sid evs)]"
  using sequences_run[OF assms, of d sid]
  by (simp add: expected_sequence_def session_new_def sequences_def split: direction.splits)

theorem accepted_sequences_consecutive_witness:
  "map (\<lambda>h. unat (h_sequence h)) (frames_on Outbound 1 (demo_handshake @ demo_exchange)) = [0, 1]"
  using accepted_sequences_consecutive[OF demo_run, of Outbound 1]
  by (simp add: demo_handshake_def demo_exchange_def header_new_def)

text \<open>
  C2: conservation of connection credit. Over every run of an endpoint from its initial state, in
  each direction, the payload bytes of the accepted DATA frames and the credit that is left add up
  to the window of the HELLO and the connection CREDIT grants that came the other way: no byte is
  sent or accepted without credit, and none of it is counted twice or lost, discarded DATA of
  finished streams included.
\<close>

theorem connection_credit_conserved:
  assumes "exec_all session_exec evs (session_new cfg) = (Inr (), s')"
  shows "unat (conn_credit d s') + sum_list (map (data_taken d) evs) = sum_list (map (credit_given d) evs)"
  using connection_credit.balance_run[OF session_inv_new assms, of d]
  by (cases d) (simp_all add: session_new_def)

theorem connection_credit_conserved_witness:
  "unat (conn_credit Outbound
     (snd (exec_all session_exec (demo_handshake @ demo_exchange) (session_new demo_config)))) + 300 = 2100"
  using connection_credit_conserved[OF demo_run, of Outbound]
  by (simp add: demo_handshake_def demo_exchange_def header_new_def context_hello_def)

text \<open>
  C5: life of a stream. Once a stream exists it is never forgotten, its initiator never changes, its
  id is never opened again in either direction, and its phase only moves from opening to accepted
  or rejected and from accepted to closed or reset: rejected, closed and reset are final.
\<close>

theorem stream_lifecycle:
  assumes "exec_all session_exec evs s = (Inr (), s')" "ss_streams s sid = Some st"
  shows "\<exists>st'. ss_streams s' sid = Some st' \<and> phase_reaches (st_phase st) (st_phase st') \<and>
           st_initiated_by_local st' = st_initiated_by_local st \<and>
           list_all (\<lambda>h. h_command h \<noteq> Open) (frames_on Inbound sid evs @ frames_on Outbound sid evs)"
  using lifecycle_run[OF assms, of Inbound] lifecycle_run[OF assms, of Outbound]
  by (auto simp: list_all_iff)

theorem stream_lifecycle_witness:
  "let s = (session_new demo_config)
         \<lparr>ss_phase := Online, ss_streams := [2 \<mapsto> (stream_opening False)\<lparr>st_phase := StreamAccepted\<rparr>]\<rparr>;
       evs = [FrameEvent Inbound (header_new Reset 2 0) default_context] in
   \<exists>st'. ss_streams (snd (exec_all session_exec evs s)) 2 = Some st' \<and>
     phase_reaches StreamAccepted (st_phase st') \<and> \<not> st_initiated_by_local st'"
proof -
  let ?s = "(session_new demo_config)
      \<lparr>ss_phase := Online, ss_streams := [2 \<mapsto> (stream_opening False)\<lparr>st_phase := StreamAccepted\<rparr>]\<rparr>"
    and ?evs = "[FrameEvent Inbound (header_new Reset 2 0) default_context]"
  have "exec_all session_exec ?evs ?s = (Inr (), snd (exec_all session_exec ?evs ?s))"
    by (rule prod_eqI) (simp_all add: session_eval apply_reset_def)
  from stream_lifecycle[OF this, of 2] show ?thesis by (auto simp: Let_def stream_opening_def)
qed

text \<open>
  C6: stream allocation. In a reachable online endpoint the id that \<open>allocate_stream_id\<close> returns is
  non-zero, has the parity of the endpoint's role, is not in use, and an OPEN on it with sequence
  number zero is accepted and puts the stream in its opening state.
\<close>

theorem allocated_stream_opens:
  assumes "exec_all session_exec evs (session_new cfg) = (Inr (), s)" "ss_phase s = Online"
    and "allocate_stream_id s = (Inr sid, s1)"
  shows "sid \<noteq> 0 \<and> odd sid = local_streams_are_odd (cfg_role (ss_config s)) \<and> ss_streams s sid = None \<and>
         (\<exists>s2. process_outbound (header_new Open sid 0) default_context s1 = (Inr (), s2) \<and>
            ss_streams s2 = (ss_streams s)(sid \<mapsto> stream_opening True))"
proof -
  have inv: "session_inv s" by (rule session.inv_run[OF session_inv_new assms(1)])
  have "ss_next_local_stream_id s = Some sid"
    using assms(3) by (auto simp: allocate_stream_id_def split: option.splits)
  from allocated_fresh[OF inv this] allocated_opens[OF inv assms(2,3)]
  show ?thesis by (simp add: process_outbound_def)
qed

theorem allocated_stream_opens_witness:
  "let s = snd (exec_all session_exec demo_handshake (session_new demo_config)) in
   allocate_stream_id s = (Inr 1, s\<lparr>ss_next_local_stream_id := Some 3\<rparr>) \<and>
   (\<exists>s2. process_outbound (header_new Open 1 0) default_context
        (s\<lparr>ss_next_local_stream_id := Some 3\<rparr>) = (Inr (), s2) \<and>
      ss_streams s2 = (ss_streams s)(1 \<mapsto> stream_opening True))"
proof -
  let ?s = "snd (exec_all session_exec demo_handshake (session_new demo_config))"
  have "allocate_stream_id ?s = (Inr 1, ?s\<lparr>ss_next_local_stream_id := Some 3\<rparr>)" "ss_phase ?s = Online"
    by (simp_all add: session_eval)
  with allocated_stream_opens[OF demo_handshake_run this(2,1)] show ?thesis by (simp add: Let_def)
qed

end
