(* ===== verification/Scheduler.thy ===== *)
theory Scheduler
  imports Wire_Frame
begin

text \<open>
  The outbound frame scheduler and the transport registry of \<open>crates/kindlebridge-transport/src/lib.rs\<close>:
  five traffic classes served by deficit round robin under a byte bound, where a frame is eligible
  only while it is the oldest queued frame of its stream.

  \<open>um\<close> is \<open>usize::MAX\<close> of the target; byte counts are natural numbers and the saturating and
  checked operations of the source are written out against it.
\<close>

section \<open>Data\<close>

definition CLASS_COUNT :: nat where "CLASS_COUNT = 5"

definition DEFAULT_QUANTA :: "nat list" where
  "DEFAULT_QUANTA = [65536, 32768, 16384, 8192, 4096]"

datatype traffic_class = Control | Interactive | Events | Forwarding | Bulk

fun class_index :: "traffic_class \<Rightarrow> nat" where
  "class_index Control = 0"
| "class_index Interactive = 1"
| "class_index Events = 2"
| "class_index Forwarding = 3"
| "class_index Bulk = 4"

fun for_command :: "command \<Rightarrow> traffic_class" where
  "for_command Open = Bulk"
| "for_command Data = Bulk"
| "for_command _ = Control"

record scheduled_frame =
  sf_class :: traffic_class
  sf_frame :: frame

abbreviation sf_stream :: "scheduled_frame \<Rightarrow> u32" where
  "sf_stream f \<equiv> h_stream_id (f_header (sf_frame f))"

definition saturating_add :: "nat \<Rightarrow> nat \<Rightarrow> nat \<Rightarrow> nat" where
  "saturating_add um a b = min (a + b) um"

definition wire_len :: "nat \<Rightarrow> scheduled_frame \<Rightarrow> nat" where
  "wire_len um f = saturating_add um HEADER_LEN (length (f_payload (sf_frame f)))"

record frame_scheduler =
  fs_queues :: "scheduled_frame list list"
  fs_stream_classes :: "u32 \<rightharpoonup> nat list"
  fs_deficits :: "nat list"
  fs_quanta :: "nat list"
  fs_cursor :: nat
  fs_queued_bytes :: nat
  fs_max_queued_bytes :: nat

datatype scheduler_error = QueueFull

section \<open>Operations\<close>

definition scheduler_new :: "nat \<Rightarrow> frame_scheduler" where
  "scheduler_new m =
     \<lparr>fs_queues = replicate CLASS_COUNT [], fs_stream_classes = Map.empty,
      fs_deficits = replicate CLASS_COUNT 0, fs_quanta = DEFAULT_QUANTA, fs_cursor = 0,
      fs_queued_bytes = 0, fs_max_queued_bytes = m\<rparr>"

definition enqueue :: "nat \<Rightarrow> scheduled_frame \<Rightarrow> (frame_scheduler, scheduler_error, unit) mut" where
  "enqueue um item s =
     (let nxt = fs_queued_bytes s + wire_len um item in
      if nxt > um then (Inl QueueFull, s)
      else if nxt > fs_max_queued_bytes s then (Inl QueueFull, s)
      else
        let class = class_index (sf_class item); sid = sf_stream item;
            classes = (case fs_stream_classes s sid of None \<Rightarrow> [] | Some cs \<Rightarrow> cs) in
        (Inr (),
         s\<lparr>fs_stream_classes := (fs_stream_classes s)(sid \<mapsto> classes @ [class]),
           fs_queues := (fs_queues s)[class := fs_queues s ! class @ [item]],
           fs_queued_bytes := nxt\<rparr>))"

definition advance :: "frame_scheduler \<Rightarrow> frame_scheduler" where
  "advance s = s\<lparr>fs_cursor := (fs_cursor s + 1) mod CLASS_COUNT\<rparr>"

text \<open>\<open>Iterator::position\<close>: the index of the first element that satisfies the predicate.\<close>

fun position :: "('a \<Rightarrow> bool) \<Rightarrow> 'a list \<Rightarrow> nat option" where
  "position P [] = None"
| "position P (x # xs) = (if P x then Some 0 else map_option Suc (position P xs))"

definition eligible :: "frame_scheduler \<Rightarrow> nat \<Rightarrow> scheduled_frame \<Rightarrow> bool" where
  "eligible s index item =
     (case fs_stream_classes s (sf_stream item) of
        Some (c # cs) \<Rightarrow> c = index
      | _ \<Rightarrow> False)"

definition remove_at :: "nat \<Rightarrow> 'a list \<Rightarrow> 'a list" where
  "remove_at i xs = take i xs @ drop (Suc i) xs"

text \<open>
  The body of the loop for the class under the cursor: nothing eligible, not enough deficit, or a
  frame. The stream of an eligible frame always has ordering metadata, so that the second
  \<open>expect\<close> of the source is the branch \<open>Some (c # cs)\<close> of \<open>eligible\<close>.
\<close>

definition take_frame :: "nat \<Rightarrow> nat \<Rightarrow> nat \<Rightarrow> frame_scheduler \<Rightarrow> scheduled_frame \<times> frame_scheduler" where
  "take_frame um index pos s =
     (let item = fs_queues s ! index ! pos; cost = wire_len um item; sid = sf_stream item;
          classes = (case fs_stream_classes s sid of None \<Rightarrow> [] | Some cs \<Rightarrow> tl cs) in
      (item, advance
        (s\<lparr>fs_deficits := (fs_deficits s)[index := fs_deficits s ! index - cost],
           fs_queues := (fs_queues s)[index := remove_at pos (fs_queues s ! index)],
           fs_stream_classes := (if classes = [] then (fs_stream_classes s)(sid := None)
                                 else (fs_stream_classes s)(sid \<mapsto> classes)),
           fs_queued_bytes := fs_queued_bytes s - cost\<rparr>)))"

definition visit :: "nat \<Rightarrow> frame_scheduler \<Rightarrow> scheduled_frame option \<times> frame_scheduler" where
  "visit um s =
     (let index = fs_cursor s in
      case position (eligible s index) (fs_queues s ! index) of
        None \<Rightarrow> (None, advance (s\<lparr>fs_deficits := (fs_deficits s)[index := 0]\<rparr>))
      | Some pos \<Rightarrow>
          let cost = wire_len um (fs_queues s ! index ! pos);
              s = (if fs_deficits s ! index < cost
                   then s\<lparr>fs_deficits := (fs_deficits s)
                          [index := saturating_add um (fs_deficits s ! index) (fs_quanta s ! index)]\<rparr>
                   else s) in
          if fs_deficits s ! index < cost then (None, advance s)
          else let (item, s) = take_frame um index pos s in (Some item, s))"

fun dequeue_loop :: "nat \<Rightarrow> nat \<Rightarrow> frame_scheduler \<Rightarrow> scheduled_frame option \<times> frame_scheduler" where
  "dequeue_loop um 0 s = (None, s)"
| "dequeue_loop um (Suc n) s =
     (case visit um s of
        (Some item, s) \<Rightarrow> (Some item, s)
      | (None, s) \<Rightarrow> dequeue_loop um n s)"

definition dequeue :: "nat \<Rightarrow> frame_scheduler \<Rightarrow> scheduled_frame option \<times> frame_scheduler" where
  "dequeue um s =
     (if fs_queued_bytes s = 0 then (None, s)
      else dequeue_loop um (min (CLASS_COUNT * 512) um) s)"

definition scheduler_is_empty :: "frame_scheduler \<Rightarrow> bool" where
  "scheduler_is_empty s = (fs_queued_bytes s = 0)"

section \<open>Transport registry\<close>

datatype transport_kind = UsbBulk | Tcp

record transport_candidate =
  tc_id :: string
  tc_kind :: transport_kind
  tc_online :: bool
  tc_round_trip_micros :: u32
  tc_estimated_bytes_per_second :: u64

type_synonym transport_registry = "string \<rightharpoonup> transport_candidate list"

fun replace_or_push :: "transport_candidate \<Rightarrow> transport_candidate list \<Rightarrow> transport_candidate list" where
  "replace_or_push c [] = [c]"
| "replace_or_push c (x # xs) = (if tc_id x = tc_id c then c # xs else x # replace_or_push c xs)"

definition register :: "string \<Rightarrow> transport_candidate \<Rightarrow> transport_registry \<Rightarrow> transport_registry" where
  "register serial c r =
     r(serial \<mapsto> replace_or_push c (case r serial of None \<Rightarrow> [] | Some cs \<Rightarrow> cs))"

text \<open>
  The sort key: a pair compared lexicographically. \<open>u64::MAX.saturating_sub\<close> never saturates.
\<close>

definition select_key :: "traffic_class \<Rightarrow> transport_candidate \<Rightarrow> bool \<times> nat" where
  "select_key class c =
     (if class = Bulk
      then (tc_kind c \<noteq> UsbBulk, 2 ^ 64 - 1 - unat (tc_estimated_bytes_per_second c))
      else (False, unat (tc_round_trip_micros c)))"

definition key_less :: "bool \<times> nat \<Rightarrow> bool \<times> nat \<Rightarrow> bool" where
  "key_less a b = ((\<not> fst a \<and> fst b) \<or> (fst a = fst b \<and> snd a < snd b))"

text \<open>\<open>Iterator::min_by_key\<close>: the first of the elements with the least key.\<close>

fun min_by_key :: "('a \<Rightarrow> bool \<times> nat) \<Rightarrow> 'a list \<Rightarrow> 'a option" where
  "min_by_key k [] = None"
| "min_by_key k (x # xs) =
     (case min_by_key k xs of
        None \<Rightarrow> Some x
      | Some y \<Rightarrow> if key_less (k y) (k x) then Some y else Some x)"

definition select :: "transport_registry \<Rightarrow> string \<Rightarrow> traffic_class \<Rightarrow> transport_candidate option" where
  "select r serial class =
     (case r serial of
        None \<Rightarrow> None
      | Some cs \<Rightarrow> min_by_key (select_key class) (filter tc_online cs))"

fun set_offline :: "string \<Rightarrow> transport_candidate list \<Rightarrow> transport_candidate list" where
  "set_offline i [] = []"
| "set_offline i (x # xs) = (if tc_id x = i then x\<lparr>tc_online := False\<rparr> # xs else x # set_offline i xs)"

definition mark_offline :: "string \<Rightarrow> string \<Rightarrow> transport_registry \<Rightarrow> transport_registry" where
  "mark_offline serial i r =
     (case r serial of None \<Rightarrow> r | Some cs \<Rightarrow> r(serial \<mapsto> set_offline i cs))"

section \<open>What a client relies on\<close>

text \<open>
  A queue with keys: items of one key leave in the order in which they entered, whatever happens to
  the items of other keys.
\<close>

datatype 'item queue_op = Put 'item | Get

fun queue_run :: "('item \<Rightarrow> ('s, 'e, unit) mut) \<Rightarrow> ('s \<Rightarrow> 'item option \<times> 's) \<Rightarrow>
    'item queue_op list \<Rightarrow> 's \<Rightarrow> 'item list \<times> 'item list \<times> 's" where
  "queue_run put get [] s = ([], [], s)"
| "queue_run put get (Put x # ops) s =
     (case put x s of
        (Inl e, s) \<Rightarrow> queue_run put get ops s
      | (Inr u, s) \<Rightarrow> (case queue_run put get ops s of (ac, de, s) \<Rightarrow> (x # ac, de, s)))"
| "queue_run put get (Get # ops) s =
     (case get s of
        (None, s) \<Rightarrow> queue_run put get ops s
      | (Some x, s) \<Rightarrow> (case queue_run put get ops s of (ac, de, s) \<Rightarrow> (ac, x # de, s)))"

locale stream_fifo =
  fixes put :: "'item \<Rightarrow> ('s, 'e, unit) mut"
    and get :: "'s \<Rightarrow> 'item option \<times> 's"
    and key :: "'item \<Rightarrow> 'k"
    and items :: "'s \<Rightarrow> 'k \<Rightarrow> 'item list"
    and inv :: "'s \<Rightarrow> bool"
  assumes put_inv: "inv s \<Longrightarrow> put x s = (Inr (), s') \<Longrightarrow> inv s'"
    and get_inv: "inv s \<Longrightarrow> get s = (y, s') \<Longrightarrow> inv s'"
    and put_full: "put x s = (Inl e, s') \<Longrightarrow> s' = s"
    and put_items: "inv s \<Longrightarrow> put x s = (Inr (), s') \<Longrightarrow> items s' = (items s)(key x := items s (key x) @ [x])"
    and get_none: "inv s \<Longrightarrow> get s = (None, s') \<Longrightarrow> items s' = items s"
    and get_some: "inv s \<Longrightarrow> get s = (Some x, s') \<Longrightarrow> items s = (items s')(key x := x # items s' (key x))"
begin

lemma fifo_run:
  "inv s \<Longrightarrow> queue_run put get ops s = (ac, de, s') \<Longrightarrow>
   inv s' \<and> filter (\<lambda>x. key x = k) de @ items s' k = items s k @ filter (\<lambda>x. key x = k) ac"
proof (induction ops arbitrary: s ac de)
  case (Cons op ops)
  show ?case
  proof (cases op)
    case (Put x)
    obtain r s1 where r: "put x s = (r, s1)" by (cases "put x s")
    show ?thesis
    proof (cases r)
      case (Inl e)
      then have "s1 = s" using put_full r by blast
      then show ?thesis using Cons.IH[OF Cons.prems(1)] Cons.prems(2) Put r Inl by simp
    next
      case (Inr u)
      obtain ac' where ac': "queue_run put get ops s1 = (ac', de, s')" "ac = x # ac'"
        using Cons.prems(2) Put r Inr by (auto split: prod.splits)
      have "inv s1" "items s1 = (items s)(key x := items s (key x) @ [x])"
        using put_inv put_items Cons.prems(1) r Inr by auto
      then show ?thesis using Cons.IH[OF _ ac'(1)] ac'(2) by auto
    qed
  next
    case Get
    obtain y s1 where y: "get s = (y, s1)" by (cases "get s")
    have inv1: "inv s1" using get_inv[OF Cons.prems(1) y] .
    show ?thesis
    proof (cases y)
      case None
      then show ?thesis
        using Cons.IH[OF inv1] Cons.prems(2) Get y get_none[OF Cons.prems(1)] by auto
    next
      case (Some x)
      obtain de' where de': "queue_run put get ops s1 = (ac, de', s')" "de = x # de'"
        using Cons.prems(2) Get y Some by (auto split: prod.splits)
      have it: "items s = (items s1)(key x := x # items s1 (key x))"
        using get_some[OF Cons.prems(1)] y Some by simp
      show ?thesis using Cons.IH[OF inv1 de'(1)] de'(2) by (auto simp: it)
    qed
  qed
qed simp

end

section \<open>Abstraction and invariant\<close>

fun interleave :: "nat list \<Rightarrow> (nat \<Rightarrow> 'a list) \<Rightarrow> 'a list" where
  "interleave [] q = []"
| "interleave (c # cs) q = (case q c of [] \<Rightarrow> [] | x # xs \<Rightarrow> x # interleave cs (q(c := xs)))"

definition class_items :: "frame_scheduler \<Rightarrow> u32 \<Rightarrow> nat \<Rightarrow> scheduled_frame list" where
  "class_items s sid i =
     (if i < length (fs_queues s) then filter (\<lambda>f. sf_stream f = sid) (fs_queues s ! i) else [])"

definition classes_of :: "frame_scheduler \<Rightarrow> u32 \<Rightarrow> nat list" where
  "classes_of s sid = (case fs_stream_classes s sid of None \<Rightarrow> [] | Some cs \<Rightarrow> cs)"

definition stream_items :: "frame_scheduler \<Rightarrow> u32 \<Rightarrow> scheduled_frame list" where
  "stream_items s sid = interleave (classes_of s sid) (class_items s sid)"

definition queue_bytes :: "nat \<Rightarrow> frame_scheduler \<Rightarrow> nat" where
  "queue_bytes um s = sum_list (map (wire_len um) (concat (fs_queues s)))"

definition sched_inv :: "nat \<Rightarrow> frame_scheduler \<Rightarrow> bool" where
  "sched_inv um s \<longleftrightarrow>
     length (fs_queues s) = CLASS_COUNT \<and> length (fs_deficits s) = CLASS_COUNT \<and>
     fs_quanta s = DEFAULT_QUANTA \<and> fs_cursor s < CLASS_COUNT \<and>
     fs_queued_bytes s = queue_bytes um s \<and> fs_queued_bytes s \<le> fs_max_queued_bytes s \<and>
     (\<forall>sid. fs_stream_classes s sid \<noteq> Some []) \<and>
     (\<forall>sid i. count_list (classes_of s sid) i = length (class_items s sid i))"

lemma sched_inv_new: "sched_inv um (scheduler_new m)"
  by (auto simp: sched_inv_def scheduler_new_def queue_bytes_def classes_of_def class_items_def CLASS_COUNT_def
      nth_Cons' numeral_eq_Suc)

lemma interleave_snoc:
  "(\<And>i. count_list cs i = length (q i)) \<Longrightarrow>
   interleave (cs @ [c]) (q(c := q c @ [x])) = interleave cs q @ [x]"
proof (induction cs arbitrary: q)
  case Nil
  then show ?case by auto
next
  case (Cons d cs)
  from Cons.prems[of d] obtain y ys where q: "q d = y # ys"
    by (cases "q d") auto
  have cnt: "count_list cs i = length ((q(d := ys)) i)" for i
    using Cons.prems[of i] q by (cases "i = d") auto
  have eq: "(q(d := ys))(c := (q(d := ys)) c @ [x]) = (q(c := q c @ [x]))(d := (if d = c then ys @ [x] else ys))"
    by (auto simp: fun_eq_iff)
  have "interleave ((d # cs) @ [c]) (q(c := q c @ [x])) =
      y # interleave (cs @ [c]) ((q(c := q c @ [x]))(d := (if d = c then ys @ [x] else ys)))"
    using q by (cases "d = c") (simp_all add: fun_upd_def cong: if_cong)
  also have "\<dots> = y # interleave cs (q(d := ys)) @ [x]"
    by (simp only: eq[symmetric] Cons.IH[of "q(d := ys)", OF cnt])
  also have "\<dots> = interleave (d # cs) q @ [x]"
    by (simp only: interleave.simps q list.case append_Cons)
  finally show ?case .
qed

lemma sum_list_concat_update:
  "i < length xss \<Longrightarrow> sum_list (map f (concat (xss[i := ys]))) + sum_list (map f (xss ! i)) =
     sum_list (map f (concat xss)) + sum_list (map f ys)" for f :: "'a \<Rightarrow> nat"
proof (induction xss arbitrary: i)
  case (Cons xs xss)
  then show ?case by (cases i) auto
qed simp

lemma class_index_less [simp]: "class_index c < 5"
  by (cases c) auto

lemma enqueue_full: "enqueue um item s = (Inl e, s') \<Longrightarrow> s' = s"
  by (auto simp: enqueue_def Let_def split: if_splits)

lemma enqueue_class_items:
  assumes "sched_inv um s" "enqueue um item s = (Inr (), s')"
  shows "class_items s' sid = (if sid = sf_stream item
           then (class_items s sid)(class_index (sf_class item) := class_items s sid (class_index (sf_class item)) @ [item])
           else class_items s sid)"
    and "classes_of s' sid = (if sid = sf_stream item then classes_of s sid @ [class_index (sf_class item)]
           else classes_of s sid)"
  using assms
  by (auto simp: enqueue_def Let_def sched_inv_def class_items_def classes_of_def CLASS_COUNT_def fun_eq_iff
      nth_list_update split: if_splits)

lemma enqueue_inv:
  assumes "sched_inv um s" "enqueue um item s = (Inr (), s')"
  shows "sched_inv um s'"
proof -
  have "count_list (classes_of s' sid) i = length (class_items s' sid i)" for sid i
    using enqueue_class_items[OF assms] assms(1) by (auto simp: sched_inv_def)
  moreover have "queue_bytes um s' = queue_bytes um s + wire_len um item"
    using assms sum_list_concat_update[of "class_index (sf_class item)" "fs_queues s" "wire_len um"
        "fs_queues s ! class_index (sf_class item) @ [item]"]
    by (auto simp: enqueue_def Let_def sched_inv_def queue_bytes_def CLASS_COUNT_def split: if_splits)
  ultimately show ?thesis
    using assms by (auto simp: sched_inv_def enqueue_def Let_def split: if_splits option.splits)
qed

lemma enqueue_items:
  assumes "sched_inv um s" "enqueue um item s = (Inr (), s')"
  shows "stream_items s' = (stream_items s)(sf_stream item := stream_items s (sf_stream item) @ [item])"
proof
  fix sid
  have "\<And>i. count_list (classes_of s sid) i = length (class_items s sid i)"
    using assms(1) by (simp add: sched_inv_def)
  from interleave_snoc[OF this, of "class_index (sf_class item)" item]
  show "stream_items s' sid = ((stream_items s)(sf_stream item := stream_items s (sf_stream item) @ [item])) sid"
    unfolding stream_items_def enqueue_class_items[OF assms] by (cases "sid = sf_stream item") auto
qed

section \<open>Dequeue\<close>

lemma position_Some:
  "position P xs = Some p \<Longrightarrow> p < length xs \<and> P (xs ! p) \<and> (\<forall>j < p. \<not> P (xs ! j))"
proof (induction xs arbitrary: p)
  case (Cons x xs)
  then show ?case by (auto simp: nth_Cons' split: if_splits)
qed simp

lemma position_None: "position P xs = None \<longleftrightarrow> (\<forall>x \<in> set xs. \<not> P x)"
  by (induction xs) auto

lemma filter_remove_at:
  assumes "p < length xs" "\<And>j. j < p \<Longrightarrow> Q (xs ! j) \<Longrightarrow> \<not> Q (xs ! p)"
  shows "filter Q xs = (if Q (xs ! p) then xs ! p # filter Q (remove_at p xs) else filter Q (remove_at p xs))"
proof -
  have xs: "xs = take p xs @ xs ! p # drop (Suc p) xs" using assms(1) by (rule id_take_nth_drop)
  have "filter Q (take p xs) = []" if "Q (xs ! p)"
    using assms that by (auto simp: filter_empty_conv in_set_conv_nth)
  then show ?thesis
    by (subst xs) (auto simp: remove_at_def)
qed

lemma sum_list_remove_at:
  "p < length xs \<Longrightarrow> sum_list (map f xs) = f (xs ! p) + sum_list (map f (remove_at p xs))" for f :: "'a \<Rightarrow> nat"
  by (subst id_take_nth_drop[of p xs]) (simp_all add: remove_at_def)

lemma eligible_classes: "eligible s i f \<longleftrightarrow> (\<exists>cs. classes_of s (sf_stream f) = i # cs)"
  by (auto simp: eligible_def classes_of_def split: option.splits list.splits)

text \<open>The queues and the ordering metadata; deficits and cursor only steer the choice.\<close>

definition same_content :: "frame_scheduler \<Rightarrow> frame_scheduler \<Rightarrow> bool" where
  "same_content s t \<longleftrightarrow>
     fs_queues t = fs_queues s \<and> fs_stream_classes t = fs_stream_classes s \<and>
     fs_quanta t = fs_quanta s \<and> fs_queued_bytes t = fs_queued_bytes s \<and>
     fs_max_queued_bytes t = fs_max_queued_bytes s \<and> length (fs_deficits t) = length (fs_deficits s)"

lemma same_content_refl [simp]: "same_content s s"
  by (simp add: same_content_def)

lemma same_content_trans: "same_content s t \<Longrightarrow> same_content t u \<Longrightarrow> same_content s u"
  by (simp add: same_content_def)

lemma same_content_items:
  "same_content s t \<Longrightarrow> class_items t = class_items s" "same_content s t \<Longrightarrow> classes_of t = classes_of s"
  "same_content s t \<Longrightarrow> stream_items t = stream_items s" "same_content s t \<Longrightarrow> eligible t = eligible s"
  "same_content s t \<Longrightarrow> queue_bytes um t = queue_bytes um s"
  by (simp_all add: same_content_def class_items_def[abs_def] classes_of_def[abs_def] stream_items_def[abs_def]
    eligible_def[abs_def] queue_bytes_def cong: if_cong)

lemma same_content_inv:
  "same_content s t \<Longrightarrow> sched_inv um s \<Longrightarrow> fs_cursor t < CLASS_COUNT \<Longrightarrow> sched_inv um t"
  using same_content_items[of s t] by (auto simp: sched_inv_def same_content_def)

lemma advance_content [simp]: "same_content s (advance s)" "fs_cursor (advance s) < CLASS_COUNT"
  by (auto simp: advance_def same_content_def CLASS_COUNT_def)

lemma visit_None:
  "visit um s = (None, s') \<Longrightarrow> same_content s s' \<and> fs_cursor s' = (fs_cursor s + 1) mod CLASS_COUNT"
  by (auto simp: visit_def Let_def advance_def same_content_def split: option.splits if_splits prod.splits)

lemma visit_Some:
  assumes "visit um s = (Some x, s')"
  obtains t pos where "same_content s t" "fs_cursor t = fs_cursor s"
    "position (eligible s (fs_cursor s)) (fs_queues s ! fs_cursor s) = Some pos"
    "x = fs_queues s ! fs_cursor s ! pos" "(x, s') = take_frame um (fs_cursor s) pos t"
proof -
  let ?i = "fs_cursor s"
  obtain pos where pos: "position (eligible s ?i) (fs_queues s ! ?i) = Some pos"
    using assms by (auto simp: visit_def Let_def split: option.splits)
  let ?t = "if fs_deficits s ! ?i < wire_len um (fs_queues s ! ?i ! pos)
    then s\<lparr>fs_deficits := (fs_deficits s)[?i := saturating_add um (fs_deficits s ! ?i) (fs_quanta s ! ?i)]\<rparr> else s"
  have "same_content s ?t" "fs_cursor ?t = fs_cursor s" by (auto simp: same_content_def)
  moreover have "(x, s') = take_frame um ?i pos ?t"
    using assms pos by (auto simp: visit_def Let_def split: if_splits prod.splits)
  moreover from this have "x = fs_queues s ! ?i ! pos"
    by (auto simp: take_frame_def Let_def split: if_splits)
  ultimately show thesis using that pos by blast
qed


lemma take_frame_effect:
  assumes inv: "sched_inv um s" and i: "i < CLASS_COUNT"
    and pos: "position (eligible s i) (fs_queues s ! i) = Some pos"
    and tk: "(x, s') = take_frame um i pos s"
  shows "x = fs_queues s ! i ! pos"
    and "\<exists>cs. classes_of s (sf_stream x) = i # cs \<and>
           classes_of s' = (classes_of s)(sf_stream x := cs)"
    and "class_items s = (class_items s')(sf_stream x := (class_items s' (sf_stream x))
           (i := x # class_items s' (sf_stream x) i))"
    and "queue_bytes um s = wire_len um x + queue_bytes um s'"
proof -
  note p = position_Some[OF pos]
  have len: "i < length (fs_queues s)" using inv i by (simp add: sched_inv_def)
  show x: "x = fs_queues s ! i ! pos" using tk by (simp add: take_frame_def Let_def)
  then have "eligible s i x" using p by simp
  then obtain cs where cs: "classes_of s (sf_stream x) = i # cs" by (auto simp: eligible_classes)
  then have sc: "fs_stream_classes s (sf_stream x) = Some (i # cs)"
    by (auto simp: classes_of_def split: option.splits)
  have q': "fs_queues s' = (fs_queues s)[i := remove_at pos (fs_queues s ! i)]"
    using tk by (simp add: take_frame_def Let_def advance_def)
  have "classes_of s' = (classes_of s)(sf_stream x := cs)"
    using tk sc by (auto simp: take_frame_def Let_def advance_def x[symmetric] classes_of_def fun_eq_iff)
  with cs show "\<exists>cs. classes_of s (sf_stream x) = i # cs \<and> classes_of s' = (classes_of s)(sf_stream x := cs)"
    by blast
  have first: "sf_stream (fs_queues s ! i ! j) \<noteq> sf_stream x" if "j < pos" for j
    using p that \<open>eligible s i x\<close> by (auto simp: eligible_classes)
  show "class_items s = (class_items s')(sf_stream x := (class_items s' (sf_stream x))
      (i := x # class_items s' (sf_stream x) i))"
  proof (intro ext)
    fix sid k
    show "class_items s sid k = ((class_items s')(sf_stream x := (class_items s' (sf_stream x))
        (i := x # class_items s' (sf_stream x) i))) sid k"
      using filter_remove_at[of pos "fs_queues s ! i" "\<lambda>f. sf_stream f = sid"] p first len
      by (auto simp: class_items_def q' x[symmetric] nth_list_update)
  qed
  show "queue_bytes um s = wire_len um x + queue_bytes um s'"
    using sum_list_concat_update[OF len, of "wire_len um" "remove_at pos (fs_queues s ! i)"]
      sum_list_remove_at[of pos "fs_queues s ! i" "wire_len um"] p
    by (simp add: queue_bytes_def q' x)
qed

lemma take_frame_inv:
  assumes inv: "sched_inv um s" and i: "i < CLASS_COUNT"
    and pos: "position (eligible s i) (fs_queues s ! i) = Some pos"
    and tk: "(x, s') = take_frame um i pos s"
  shows "sched_inv um s'"
    and "stream_items s = (stream_items s')(sf_stream x := x # stream_items s' (sf_stream x))"
proof -
  note e = take_frame_effect[OF assms]
  obtain cs where cs: "classes_of s (sf_stream x) = i # cs" "classes_of s' = (classes_of s)(sf_stream x := cs)"
    using e(2) by blast
  have cnt: "count_list (classes_of s' sid) k = length (class_items s' sid k)" for sid k
  proof -
    have "count_list (classes_of s sid) k = length (class_items s sid k)"
      using inv by (simp add: sched_inv_def)
    then show ?thesis using cs fun_cong[OF fun_cong[OF e(3)], of sid k] by (auto split: if_splits)
  qed
  have "fs_stream_classes s' sid \<noteq> Some []" for sid
    using tk inv by (auto simp: take_frame_def Let_def advance_def sched_inv_def)
  moreover have "length (fs_queues s') = length (fs_queues s)" "length (fs_deficits s') = length (fs_deficits s)"
      "fs_quanta s' = fs_quanta s" "fs_cursor s' < CLASS_COUNT"
      "fs_queued_bytes s' = fs_queued_bytes s - wire_len um x" "fs_max_queued_bytes s' = fs_max_queued_bytes s"
    using tk by (simp_all add: take_frame_def Let_def advance_def CLASS_COUNT_def)
  ultimately show "sched_inv um s'"
    using inv e(4) cnt by (simp add: sched_inv_def)
  have "interleave (i # cs) (class_items s (sf_stream x)) = x # interleave cs (class_items s' (sf_stream x))"
    by (subst e(3)) simp
  moreover have "class_items s sid = class_items s' sid" if "sid \<noteq> sf_stream x" for sid
    using e(3) that by (metis fun_upd_other)
  ultimately have "stream_items s sid = ((stream_items s')(sf_stream x := x # stream_items s' (sf_stream x))) sid" for sid
    using cs by (cases "sid = sf_stream x") (simp_all only: stream_items_def fun_upd_same fun_upd_other not_False_eq_True)
  then show "stream_items s = (stream_items s')(sf_stream x := x # stream_items s' (sf_stream x))" ..
qed

definition leaves :: "nat \<Rightarrow> frame_scheduler \<Rightarrow> scheduled_frame option \<Rightarrow> frame_scheduler \<Rightarrow> bool" where
  "leaves um s y s' \<longleftrightarrow> fs_max_queued_bytes s' = fs_max_queued_bytes s \<and>
     (case y of
        None \<Rightarrow> stream_items s' = stream_items s \<and> queue_bytes um s' = queue_bytes um s
      | Some x \<Rightarrow> stream_items s = (stream_items s')(sf_stream x := x # stream_items s' (sf_stream x)) \<and>
          queue_bytes um s = wire_len um x + queue_bytes um s')"

lemma visit_spec:
  assumes inv: "sched_inv um s" and v: "visit um s = (y, s')"
  shows "sched_inv um s' \<and> leaves um s y s'"
proof (cases y)
  case None
  then have "same_content s s'" "fs_cursor s' < CLASS_COUNT"
    using visit_None[of um s s'] v by (auto simp: CLASS_COUNT_def)
  then show ?thesis
    using None inv same_content_inv same_content_items(3,5)[of s s']
    by (auto simp: leaves_def same_content_def)
next
  case (Some x)
  then obtain t pos where t: "same_content s t" "fs_cursor t = fs_cursor s"
      "position (eligible s (fs_cursor s)) (fs_queues s ! fs_cursor s) = Some pos"
      "(x, s') = take_frame um (fs_cursor s) pos t"
    using visit_Some[of um s x s'] v by metis
  have i: "fs_cursor s < CLASS_COUNT" using inv by (simp add: sched_inv_def)
  have inv_t: "sched_inv um t" using same_content_inv[OF t(1) inv] i t(2) by simp
  have pos_t: "position (eligible t (fs_cursor s)) (fs_queues t ! fs_cursor s) = Some pos"
    using t(1,3) same_content_items(4)[OF t(1)] by (simp add: same_content_def)
  show ?thesis
    using take_frame_inv[OF inv_t i pos_t t(4)] take_frame_effect(4)[OF inv_t i pos_t t(4)]
      same_content_items(3,5)[OF t(1)] t(1,4) Some
    by (simp add: leaves_def same_content_def take_frame_def Let_def advance_def)
qed

lemma dequeue_loop_spec:
  "sched_inv um s \<Longrightarrow> dequeue_loop um n s = (y, s') \<Longrightarrow> sched_inv um s' \<and> leaves um s y s'"
proof (induction n arbitrary: s)
  case 0
  then show ?case by (auto simp: leaves_def)
next
  case (Suc n)
  obtain z s1 where v: "visit um s = (z, s1)" by (cases "visit um s")
  show ?case
    using visit_spec[OF Suc.prems(1) v] Suc.IH[of s1] Suc.prems(2) v
    by (cases z; cases y) (auto simp: leaves_def)
qed

lemma dequeue_spec:
  assumes "sched_inv um s" "dequeue um s = (y, s')"
  shows "sched_inv um s'" "leaves um s y s'"
  using assms dequeue_loop_spec[of um s] by (auto simp: dequeue_def leaves_def split: if_splits)

interpretation scheduler: stream_fifo "enqueue um" "dequeue um" sf_stream stream_items "sched_inv um" for um
proof
  show "sched_inv um s \<Longrightarrow> dequeue um s = (y, s') \<Longrightarrow> sched_inv um s'" for s y s'
    by (rule dequeue_spec)
  show "sched_inv um s \<Longrightarrow> dequeue um s = (None, s') \<Longrightarrow> stream_items s' = stream_items s" for s s'
    using dequeue_spec(2)[of um s None s'] by (simp add: leaves_def)
  show "sched_inv um s \<Longrightarrow> dequeue um s = (Some x, s') \<Longrightarrow>
      stream_items s = (stream_items s')(sf_stream x := x # stream_items s' (sf_stream x))" for s x s'
    using dequeue_spec(2)[of um s "Some x" s'] by (simp add: leaves_def)
qed (auto intro: enqueue_inv enqueue_full enqueue_items)

section \<open>Progress\<close>

lemma wire_len_pos: "um \<ge> 40 \<Longrightarrow> wire_len um f > 0"
  by (simp add: wire_len_def saturating_add_def HEADER_LEN_def)

text \<open>The class at whose visits a frame can leave: the oldest class of some queued stream.\<close>

lemma eligible_class_exists:
  assumes inv: "sched_inv um s" and ne: "fs_queued_bytes s \<noteq> 0"
  obtains i pos where "i < CLASS_COUNT" "position (eligible s i) (fs_queues s ! i) = Some pos"
proof -
  have "concat (fs_queues s) \<noteq> []"
    using inv ne unfolding sched_inv_def queue_bytes_def by (metis list.simps(8) sum_list.Nil)
  then obtain k f where k: "k < CLASS_COUNT" "f \<in> set (fs_queues s ! k)"
    using inv by (auto simp: sched_inv_def in_set_conv_nth[of _ "fs_queues s"] neq_Nil_conv)
       (metis in_set_conv_nth list.set_intros(1))
  let ?sid = "sf_stream f"
  have cnt: "count_list (classes_of s ?sid) i = length (class_items s ?sid i)" for i
    using inv by (simp add: sched_inv_def)
  have "class_items s ?sid k \<noteq> []"
    using k inv by (auto simp: class_items_def sched_inv_def filter_empty_conv)
  then have "classes_of s ?sid \<noteq> []" using cnt[of k] by auto
  then obtain i cs where i: "classes_of s ?sid = i # cs" by (cases "classes_of s ?sid") auto
  then have "class_items s ?sid i \<noteq> []" using cnt[of i] by auto
  then have "i < CLASS_COUNT" "\<exists>g \<in> set (fs_queues s ! i). sf_stream g = ?sid"
    using inv by (auto simp: class_items_def sched_inv_def filter_empty_conv split: if_splits)
  moreover from this i have "position (eligible s i) (fs_queues s ! i) \<noteq> None"
    unfolding position_None by (metis eligible_classes)
  ultimately show thesis using that by blast
qed


lemma wire_len_le: "wire_len um f \<le> um"
  by (simp add: wire_len_def saturating_add_def)

lemma visit_None_deficit:
  assumes inv: "sched_inv um s" and v: "visit um s = (None, s')"
    and pos: "position (eligible s i) (fs_queues s ! i) = Some pos"
  shows "fs_deficits s' ! i = fs_deficits s ! i + (if fs_cursor s = i then fs_quanta s ! i else 0)"
    and "fs_cursor s = i \<Longrightarrow> fs_deficits s' ! i < wire_len um (fs_queues s ! i ! pos)"
  using assms wire_len_le[of um "fs_queues s ! i ! pos"]
  by (auto simp: visit_def Let_def advance_def saturating_add_def sched_inv_def nth_list_update
      split: option.splits if_splits prod.splits)

fun visits :: "nat \<Rightarrow> nat \<Rightarrow> nat \<Rightarrow> nat" where
  "visits 0 k i = 0"
| "visits (Suc n) k i = (if k = i then 1 else 0) + visits n ((k + 1) mod CLASS_COUNT) i"

lemma class_cases: "i < CLASS_COUNT \<Longrightarrow> i = 0 \<or> i = 1 \<or> i = 2 \<or> i = 3 \<or> i = 4"
  by (auto simp: CLASS_COUNT_def)

lemma visits_round:
  assumes "k < CLASS_COUNT" "i < CLASS_COUNT"
  shows "visits (Suc (Suc (Suc (Suc (Suc n))))) k i = Suc (visits n k i)"
  using class_cases[OF assms(1)] class_cases[OF assms(2)] by (elim disjE) (simp_all add: CLASS_COUNT_def flip: numeral_2_eq_2)

lemma visits_rounds: "k < CLASS_COUNT \<Longrightarrow> i < CLASS_COUNT \<Longrightarrow> visits (m * 5) k i = m"
proof (induction m)
  case (Suc m)
  have "Suc m * 5 = Suc (Suc (Suc (Suc (Suc (m * 5)))))" by simp
  then show ?case using Suc visits_round by metis
qed simp

lemma dequeue_loop_None:
  "sched_inv um s \<Longrightarrow> dequeue_loop um n s = (None, s') \<Longrightarrow>
   position (eligible s i) (fs_queues s ! i) = Some pos \<Longrightarrow>
   same_content s s' \<and>
   fs_deficits s' ! i = fs_deficits s ! i + visits n (fs_cursor s) i * fs_quanta s ! i \<and>
   (visits n (fs_cursor s) i > 0 \<longrightarrow> fs_deficits s' ! i < wire_len um (fs_queues s ! i ! pos))"
proof (induction n arbitrary: s)
  case (Suc n)
  then obtain s1 where v: "visit um s = (None, s1)" and l: "dequeue_loop um n s1 = (None, s')"
    by (cases "visit um s"; cases "fst (visit um s)") auto
  have sc: "same_content s s1" and c: "fs_cursor s1 = (fs_cursor s + 1) mod CLASS_COUNT"
    using visit_None[OF v] by auto
  have inv1: "sched_inv um s1" using same_content_inv[OF sc Suc.prems(1)] c by (simp add: CLASS_COUNT_def)
  have q1: "fs_queues s1 = fs_queues s" "fs_quanta s1 = fs_quanta s" using sc by (simp_all add: same_content_def)
  have pos1: "position (eligible s1 i) (fs_queues s1 ! i) = Some pos"
    using Suc.prems(3) same_content_items(4)[OF sc] q1 by simp
  note ih = Suc.IH[OF inv1 l pos1] and d = visit_None_deficit[OF Suc.prems(1) v Suc.prems(3)]
  show ?case
  proof (cases "fs_cursor s = i")
    case True
    then show ?thesis
      using ih d c q1 same_content_trans[OF sc] by (cases "visits n (fs_cursor s1) i > 0") auto
  next
    case False
    then show ?thesis using ih d c q1 same_content_trans[OF sc] by auto
  qed
qed simp

lemma dequeue_progress:
  assumes um: "65535 \<le> um" and inv: "sched_inv um s" and ne: "\<not> scheduler_is_empty s"
    and small: "\<And>f. f \<in> set (concat (fs_queues s)) \<Longrightarrow> wire_len um f \<le> 512 * 4096"
  obtains x s' where "dequeue um s = (Some x, s')"
proof -
  obtain i pos where i: "i < CLASS_COUNT" and pos: "position (eligible s i) (fs_queues s ! i) = Some pos"
    using eligible_class_exists[OF inv] ne by (auto simp: scheduler_is_empty_def)
  have "fs_queues s ! i ! pos \<in> set (concat (fs_queues s))"
    using position_Some[OF pos] i inv by (auto simp: sched_inv_def intro!: nth_mem bexI[of _ "fs_queues s ! i"])
  then have cost: "wire_len um (fs_queues s ! i ! pos) \<le> 512 * 4096" by (rule small)
  have q: "fs_quanta s ! i \<ge> 4096"
    using class_cases[OF i] inv by (auto simp: sched_inv_def DEFAULT_QUANTA_def)
  have vs: "visits 2560 (fs_cursor s) i = 512"
    using visits_rounds[of "fs_cursor s" i 512] i inv by (simp add: sched_inv_def)
  have "fst (dequeue_loop um 2560 s) \<noteq> None"
  proof
    assume "fst (dequeue_loop um 2560 s) = None"
    then have "dequeue_loop um 2560 s = (None, snd (dequeue_loop um 2560 s))" by (metis prod.collapse)
    from dequeue_loop_None[OF inv this pos] vs
    have "512 * fs_quanta s ! i < wire_len um (fs_queues s ! i ! pos)" by simp
    then show False using cost q by linarith
  qed
  then show thesis
    using that um ne by (cases "dequeue_loop um 2560 s") (auto simp: dequeue_def scheduler_is_empty_def CLASS_COUNT_def)
qed


lemma set_interleave:
  "(\<And>i. count_list cs i = length (q i)) \<Longrightarrow> set (interleave cs q) = (\<Union>i. set (q i))"
proof (induction cs arbitrary: q)
  case Nil
  then have "q i = []" for i by simp
  then show ?case by simp
next
  case (Cons c cs)
  from Cons.prems[of c] obtain x xs where q: "q c = x # xs" by (cases "q c") auto
  have cnt: "count_list cs i = length ((q(c := xs)) i)" for i
    using Cons.prems[of i] q by (cases "i = c") auto
  have ih: "set (interleave cs (q(c := xs))) = (\<Union>i. set ((q(c := xs)) i))"
    by (rule Cons.IH) (rule cnt)
  have "set (interleave (c # cs) q) = insert x (\<Union>i. set ((q(c := xs)) i))"
    unfolding ih[symmetric] using q by simp
  also have "\<dots> = (\<Union>i. set (q i))"
  proof -
    have "(\<Union>i. set ((q(c := xs)) i)) = set xs \<union> (\<Union>i \<in> - {c}. set (q i))" by (auto split: if_splits)
    moreover have "(\<Union>i. set (q i)) = set (q c) \<union> (\<Union>i \<in> - {c}. set (q i))" by auto
    ultimately show ?thesis using q by simp
  qed
  finally show ?case .
qed

lemma queued_in_stream_items:
  assumes inv: "sched_inv um s" and f: "f \<in> set (concat (fs_queues s))"
  shows "f \<in> set (stream_items s (sf_stream f))"
proof -
  obtain i where i: "i < length (fs_queues s)" "f \<in> set (fs_queues s ! i)"
    using f by (auto simp: in_set_conv_nth[of _ "fs_queues s"])
  then have "f \<in> set (class_items s (sf_stream f) i)" by (simp add: class_items_def)
  then show ?thesis
    using inv set_interleave[of "classes_of s (sf_stream f)" "class_items s (sf_stream f)"]
    by (auto simp: stream_items_def sched_inv_def)
qed


lemma scheduler_empty_iff:
  assumes "40 \<le> um" "sched_inv um s"
  shows "scheduler_is_empty s \<longleftrightarrow> concat (fs_queues s) = []"
proof
  assume "scheduler_is_empty s"
  then have "sum_list (map (wire_len um) (concat (fs_queues s))) = 0"
    using assms(2) by (simp add: scheduler_is_empty_def sched_inv_def queue_bytes_def)
  moreover have "wire_len um f \<noteq> 0" for f using wire_len_pos[OF assms(1), of f] by simp
  ultimately show "concat (fs_queues s) = []"
    by (cases "concat (fs_queues s)") (simp_all del: concat_eq_Nil_conv)
qed (use assms(2) in \<open>simp add: scheduler_is_empty_def sched_inv_def queue_bytes_def del: concat_eq_Nil_conv\<close>)

lemma dequeue_Some_bytes:
  "40 \<le> um \<Longrightarrow> sched_inv um s \<Longrightarrow> dequeue um s = (Some x, s') \<Longrightarrow> fs_queued_bytes s' < fs_queued_bytes s"
  using dequeue_spec[of um s "Some x" s'] wire_len_pos[of um x] by (simp add: sched_inv_def leaves_def)

lemma drain:
  "65535 \<le> um \<Longrightarrow> sched_inv um s \<Longrightarrow>
   (\<And>f sid. f \<in> set (stream_items s sid) \<Longrightarrow> wire_len um f \<le> 512 * 4096) \<Longrightarrow>
   \<exists>n de s'. queue_run (enqueue um) (dequeue um) (replicate n Get) s = ([], de, s') \<and> scheduler_is_empty s'"
proof (induction "fs_queued_bytes s" arbitrary: s rule: less_induct)
  case less
  show ?case
  proof (cases "scheduler_is_empty s")
    case True
    then show ?thesis by (intro exI[of _ 0]) simp
  next
    case False
    obtain x s1 where d: "dequeue um s = (Some x, s1)"
      using dequeue_progress[OF less.prems(1,2) False] queued_in_stream_items[OF less.prems(2)] less.prems(3)
      by metis
    note sp = dequeue_spec[OF less.prems(2) d]
    have "set (stream_items s1 sid) \<subseteq> set (stream_items s sid)" for sid
      using sp(2) by (auto simp: leaves_def)
    then have small: "wire_len um f \<le> 512 * 4096" if "f \<in> set (stream_items s1 sid)" for f sid
      using that less.prems(3) by blast
    have lt: "fs_queued_bytes s1 < fs_queued_bytes s"
      using dequeue_Some_bytes[OF _ less.prems(2) d] less.prems(1) by simp
    have "\<exists>n de s'. queue_run (enqueue um) (dequeue um) (replicate n Get) s1 = ([], de, s') \<and> scheduler_is_empty s'"
      by (rule less.hyps[OF lt less.prems(1) sp(1)]) (rule small)
    then obtain n de s' where "queue_run (enqueue um) (dequeue um) (replicate n Get) s1 = ([], de, s')"
        "scheduler_is_empty s'" by blast
    then show ?thesis using d by (intro exI[of _ "Suc n"] exI[of _ "x # de"] exI[of _ s']) simp
  qed
qed


lemma empty_stream_items:
  assumes "40 \<le> um" "sched_inv um s" "scheduler_is_empty s"
  shows "stream_items s sid = []"
proof -
  have "fs_queues s ! i = []" if "i < length (fs_queues s)" for i
    using scheduler_empty_iff[OF assms(1,2)] assms(3) that by (metis concat_eq_Nil_conv nth_mem)
  then have "class_items s sid i = []" for i by (simp add: class_items_def)
  then have "set (stream_items s sid) = {}"
    using assms(2) set_interleave[of "classes_of s sid" "class_items s sid"] by (simp add: stream_items_def sched_inv_def)
  then show ?thesis by simp
qed

section \<open>Registry\<close>

lemma min_by_key_None: "min_by_key k xs = None \<longleftrightarrow> xs = []"
  by (cases xs) (auto split: option.splits)

lemma key_less_total: "\<not> key_less a b \<Longrightarrow> \<not> key_less b a \<Longrightarrow> a = b"
  by (cases a; cases b) (auto simp: key_less_def)

lemma key_less_trans: "key_less a b \<Longrightarrow> key_less b c \<Longrightarrow> key_less a c"
  by (auto simp: key_less_def)

lemma min_by_key_Some:
  "min_by_key k xs = Some x \<Longrightarrow>
   \<exists>ys zs. xs = ys @ x # zs \<and> (\<forall>y \<in> set ys. key_less (k x) (k y)) \<and> (\<forall>z \<in> set zs. \<not> key_less (k z) (k x))"
proof (induction xs arbitrary: x)
  case (Cons a xs)
  show ?case
  proof (cases "min_by_key k xs")
    case None
    then show ?thesis
      using Cons.prems min_by_key_None[of k xs] by (intro exI[of _ "[]"] exI[of _ "[]"]) simp
  next
    case (Some y)
    from Cons.IH[OF Some] obtain ys zs where yz: "xs = ys @ y # zs"
        "\<forall>w \<in> set ys. key_less (k y) (k w)" "\<forall>z \<in> set zs. \<not> key_less (k z) (k y)" by blast
    show ?thesis
    proof (cases "key_less (k y) (k a)")
      case True
      then have "x = y" using Cons.prems Some by simp
      then show ?thesis using yz True by (intro exI[of _ "a # ys"] exI[of _ zs]) auto
    next
      case False
      then have "x = a" using Cons.prems Some by simp
      moreover have "\<not> key_less (k z) (k a)" if "z \<in> set xs" for z
        using that yz False key_less_trans key_less_total unfolding yz(1) by (metis Un_iff insert_iff list.set(2) set_append)
      ultimately show ?thesis by (intro exI[of _ "[]"] exI[of _ xs]) simp
    qed
  qed
qed simp


text \<open>What \<open>select\<close> prefers, in terms of the candidates: for bulk traffic USB before TCP and then the larger
  throughput, for other traffic the shorter round trip.\<close>

definition preferred :: "traffic_class \<Rightarrow> transport_candidate \<Rightarrow> transport_candidate \<Rightarrow> bool" where
  "preferred class a b = (if class = Bulk
     then tc_kind a = UsbBulk \<and> tc_kind b = Tcp
       \<or> tc_kind a = tc_kind b \<and> tc_estimated_bytes_per_second b < tc_estimated_bytes_per_second a
     else tc_round_trip_micros a < tc_round_trip_micros b)"

lemma preferred_key: "key_less (select_key class a) (select_key class b) = preferred class a b"
proof -
  have "unat (tc_estimated_bytes_per_second c) \<le> 18446744073709551615" for c
    using unsigned_less[of "tc_estimated_bytes_per_second c", where 'a = nat] by simp
  from this[of a] this[of b] show ?thesis
    by (cases "tc_kind a"; cases "tc_kind b") (auto simp: key_less_def select_key_def preferred_def word_less_nat_alt)
qed

text \<open>Transport ids are unique within a device.\<close>

definition registry_ok :: "transport_registry \<Rightarrow> bool" where
  "registry_ok r \<longleftrightarrow> (\<forall>serial cs. r serial = Some cs \<longrightarrow> distinct (map tc_id cs))"

lemma replace_or_push_ids:
  "set (map tc_id (replace_or_push c cs)) = insert (tc_id c) (set (map tc_id cs))"
  "distinct (map tc_id cs) \<Longrightarrow> distinct (map tc_id (replace_or_push c cs))"
  by (induction cs) auto

lemma set_offline_ids [simp]: "map tc_id (set_offline i cs) = map tc_id cs"
  by (induction cs) auto

lemma set_offline_online: "distinct (map tc_id cs) \<Longrightarrow> x \<in> set (set_offline i cs) \<Longrightarrow> tc_online x \<Longrightarrow> tc_id x \<noteq> i"
  by (induction cs) (auto split: if_splits simp: image_iff)

lemma registry_ok_register: "registry_ok r \<Longrightarrow> registry_ok (register serial c r)"
  by (auto simp: registry_ok_def register_def replace_or_push_ids split: option.splits)

lemma registry_ok_mark_offline: "registry_ok r \<Longrightarrow> registry_ok (mark_offline serial i r)"
  by (auto simp: registry_ok_def mark_offline_def split: option.splits)

lemma select_Some:
  assumes "select r serial class = Some c"
  shows "\<exists>ys zs. filter tc_online (case r serial of None \<Rightarrow> [] | Some cs \<Rightarrow> cs) = ys @ c # zs \<and>
           (\<forall>y \<in> set ys. key_less (select_key class c) (select_key class y)) \<and>
           (\<forall>z \<in> set zs. \<not> key_less (select_key class z) (select_key class c))"
  using assms min_by_key_Some[of "select_key class"] by (auto simp: select_def split: option.splits)


lemma select_online:
  assumes "select r serial class = Some c"
  obtains cs where "r serial = Some cs" "c \<in> set cs" "tc_online c"
proof -
  obtain ys zs where "filter tc_online (case r serial of None \<Rightarrow> [] | Some cs \<Rightarrow> cs) = ys @ c # zs"
    using select_Some[OF assms] by blast
  then have "c \<in> set (filter tc_online (case r serial of None \<Rightarrow> [] | Some cs \<Rightarrow> cs))" by simp
  then show thesis using that by (cases "r serial") auto
qed

lemma bytes_run:
  "sched_inv um s \<Longrightarrow> queue_run (enqueue um) (dequeue um) ops s = (ac, de, s') \<Longrightarrow>
   fs_queued_bytes s' + sum_list (map (wire_len um) de) = fs_queued_bytes s + sum_list (map (wire_len um) ac) \<and>
   fs_max_queued_bytes s' = fs_max_queued_bytes s"
proof (induction ops arbitrary: s ac de)
  case (Cons op ops)
  show ?case
  proof (cases op)
    case (Put x)
    obtain r s1 where r: "enqueue um x s = (r, s1)" by (cases "enqueue um x s")
    show ?thesis
    proof (cases r)
      case (Inl e)
      then show ?thesis using Cons Put r enqueue_full[of um x s] by simp
    next
      case (Inr u)
      obtain ac' where "queue_run (enqueue um) (dequeue um) ops s1 = (ac', de, s')" "ac = x # ac'"
        using Cons.prems(2) Put r Inr by (auto split: prod.splits)
      moreover have "fs_queued_bytes s1 = fs_queued_bytes s + wire_len um x" "fs_max_queued_bytes s1 = fs_max_queued_bytes s"
        using r Inr by (auto simp: enqueue_def Let_def split: if_splits)
      ultimately show ?thesis using Cons.IH[of s1 ac' de] enqueue_inv[OF Cons.prems(1)] r Inr by auto
    qed
  next
    case Get
    obtain y s1 where y: "dequeue um s = (y, s1)" by (cases "dequeue um s")
    note sp = dequeue_spec[OF Cons.prems(1) y]
    have b: "fs_queued_bytes s = queue_bytes um s" "fs_queued_bytes s1 = queue_bytes um s1"
      using sp(1) Cons.prems(1) by (simp_all add: sched_inv_def)
    show ?thesis
      using Cons.IH[OF sp(1)] Cons.prems(2) Get y sp(2) b
      by (cases y) (auto simp: leaves_def split: prod.splits)
  qed
qed simp

text \<open>
  What one call of \<open>dequeue\<close> can pay for: the frame that is next to leave from a class, and whether it
  costs more than the deficit of the class and the quanta of its visits.
\<close>

definition next_of_class :: "frame_scheduler \<Rightarrow> nat \<Rightarrow> scheduled_frame option" where
  "next_of_class s i = find (eligible s i) (fs_queues s ! i)"

lemma position_find: "find P xs = map_option ((!) xs) (position P xs)"
  by (induction xs) (auto simp: option.map_comp comp_def)

definition unpaid :: "nat \<Rightarrow> nat \<Rightarrow> frame_scheduler \<Rightarrow> nat \<Rightarrow> bool" where
  "unpaid um v s i = (case next_of_class s i of
     None \<Rightarrow> True | Some f \<Rightarrow> fs_deficits s ! i + v * fs_quanta s ! i < wire_len um f)"

lemma unpaid_position:
  "position (eligible s i) (fs_queues s ! i) = Some pos \<Longrightarrow>
   unpaid um v s i \<longleftrightarrow> fs_deficits s ! i + v * fs_quanta s ! i < wire_len um (fs_queues s ! i ! pos)"
  "position (eligible s i) (fs_queues s ! i) = None \<Longrightarrow> unpaid um v s i"
  by (simp_all add: unpaid_def next_of_class_def position_find)

lemma visit_stall:
  assumes inv: "sched_inv um s" and d: "unpaid um 1 s (fs_cursor s)"
  shows "fst (visit um s) = None"
proof (cases "position (eligible s (fs_cursor s)) (fs_queues s ! fs_cursor s)")
  case (Some pos)
  then show ?thesis
    using inv d by (auto simp: unpaid_position visit_def Let_def sched_inv_def saturating_add_def split: if_splits prod.splits)
qed (simp add: visit_def Let_def)

lemma unpaid_mono: "unpaid um v s i \<Longrightarrow> w \<le> v \<Longrightarrow> unpaid um w s i"
  by (auto simp: unpaid_def split: option.splits intro: le_less_trans[OF add_left_mono[OF mult_le_mono1]])

lemma unpaid_visit:
  assumes "sched_inv um s" "visit um s = (None, s')" "unpaid um (v + (if fs_cursor s = i then 1 else 0)) s i"
  shows "unpaid um v s' i"
proof -
  have sc: "same_content s s'" using visit_None[OF assms(2)] by simp
  have q: "fs_queues s' = fs_queues s" "fs_quanta s' = fs_quanta s" "eligible s' i = eligible s i"
    using sc same_content_items(4)[OF sc] by (simp_all add: same_content_def)
  show ?thesis
  proof (cases "position (eligible s i) (fs_queues s ! i)")
    case (Some pos)
    then show ?thesis
      using assms(3) visit_None_deficit(1)[OF assms(1,2) Some] q
      by (auto simp: unpaid_position split: if_splits)
  qed (simp add: unpaid_position q)
qed

lemma dequeue_loop_stall:
  "sched_inv um s \<Longrightarrow> (\<And>i. i < CLASS_COUNT \<Longrightarrow> unpaid um (visits n (fs_cursor s) i) s i) \<Longrightarrow>
   fst (dequeue_loop um n s) = None"
proof (induction n arbitrary: s)
  case (Suc n)
  have k: "fs_cursor s < CLASS_COUNT" using Suc.prems(1) by (simp add: sched_inv_def)
  have "fst (visit um s) = None"
    by (rule visit_stall[OF Suc.prems(1)]) (rule unpaid_mono[OF Suc.prems(2)[OF k]], simp)
  then obtain s1 where v: "visit um s = (None, s1)" by (metis prod.collapse)
  have sc: "same_content s s1" and c: "fs_cursor s1 = (fs_cursor s + 1) mod CLASS_COUNT"
    using visit_None[OF v] by auto
  have inv1: "sched_inv um s1" using same_content_inv[OF sc Suc.prems(1)] c by (simp add: CLASS_COUNT_def)
  have "fst (dequeue_loop um n s1) = None"
    by (rule Suc.IH[OF inv1]) (rule unpaid_visit[OF Suc.prems(1) v], use Suc.prems(2) c in \<open>simp add: add.commute\<close>)
  then show ?case using v by simp
qed simp

lemma dequeue_loop_paid:
  assumes "sched_inv um s" "i < CLASS_COUNT" "0 < visits n (fs_cursor s) i" "fst (dequeue_loop um n s) = None"
  shows "unpaid um (visits n (fs_cursor s) i) s i"
proof (cases "position (eligible s i) (fs_queues s ! i)")
  case (Some pos)
  obtain s' where "dequeue_loop um n s = (None, s')" using assms(4) by (metis prod.collapse)
  from dequeue_loop_None[OF assms(1) this Some] assms(3) show ?thesis by (simp add: unpaid_position(1)[OF Some])
qed (simp add: unpaid_position)

lemma dequeue_None_iff:
  assumes "2560 \<le> um" "sched_inv um s"
  shows "fst (dequeue um s) = None \<longleftrightarrow> (\<forall>i < CLASS_COUNT. unpaid um 512 s i)"
proof -
  have vs: "visits 2560 (fs_cursor s) i = 512" if "i < CLASS_COUNT" for i
    using visits_rounds[of "fs_cursor s" i 512] that assms(2) by (simp add: sched_inv_def)
  have "fst (dequeue_loop um 2560 s) = None \<longleftrightarrow> (\<forall>i < CLASS_COUNT. unpaid um 512 s i)"
    using dequeue_loop_stall[OF assms(2), of 2560] dequeue_loop_paid[OF assms(2), of _ 2560] vs by auto
  moreover have "unpaid um 512 s i" if "fs_queued_bytes s = 0" "i < CLASS_COUNT" for i
  proof (cases "position (eligible s i) (fs_queues s ! i)")
    case (Some pos)
    have "concat (fs_queues s) = []"
      using scheduler_empty_iff[of um s] assms that(1) by (simp add: scheduler_is_empty_def del: concat_eq_Nil_conv)
    then have "fs_queues s ! i = []" using that(2) assms(2) by (auto simp: sched_inv_def)
    then show ?thesis using Some by simp
  qed (simp add: unpaid_position)
  ultimately show ?thesis using assms(1) by (auto simp: dequeue_def CLASS_COUNT_def min_def)
qed


section \<open>Properties\<close>

text \<open>
  C11: ordered and complete delivery. Whatever frames are offered and taken, in any order, once every
  accepted frame fits 512 quanta of the slowest class the scheduler can be drained by calling
  \<open>dequeue\<close> alone, and on each stream exactly the accepted frames come out, in the order in which
  they were accepted: no class overtakes another within a stream, nothing is lost or duplicated,
  and no class is starved.
\<close>

theorem scheduler_delivers:
  assumes "65535 \<le> um"
    and "queue_run (enqueue um) (dequeue um) ops (scheduler_new m) = (ac, de, s)"
    and "list_all (\<lambda>f. length (f_payload (sf_frame f)) \<le> 512 * 4096 - 40) ac"
  shows "\<exists>n de' s'. queue_run (enqueue um) (dequeue um) (replicate n Get) s = ([], de', s') \<and>
           scheduler_is_empty s' \<and>
           (\<forall>sid. filter (\<lambda>f. sf_stream f = sid) (de @ de') = filter (\<lambda>f. sf_stream f = sid) ac)"
proof -
  have start: "stream_items (scheduler_new m) sid = []" for sid
    by (simp add: stream_items_def classes_of_def scheduler_new_def)
  note run = scheduler.fifo_run[OF sched_inv_new assms(2)]
  have inv: "sched_inv um s" using run by blast
  have "f \<in> set ac" if "f \<in> set (stream_items s sid)" for f sid
  proof -
    have "set (stream_items s sid) \<subseteq> set (filter (\<lambda>x. sf_stream x = sid) ac)"
      using run[of sid] start by (metis append_Nil set_append sup.cobounded2)
    then show ?thesis using that by auto
  qed
  then have small: "wire_len um f \<le> 512 * 4096" if "f \<in> set (stream_items s sid)" for f sid
    using that assms(3) by (fastforce simp: list_all_iff wire_len_def saturating_add_def HEADER_LEN_def)
  have "\<exists>n de' s'. queue_run (enqueue um) (dequeue um) (replicate n Get) s = ([], de', s') \<and> scheduler_is_empty s'"
    by (rule drain[OF assms(1) inv]) (rule small)
  then obtain n de' s' where
    d: "queue_run (enqueue um) (dequeue um) (replicate n Get) s = ([], de', s')" "scheduler_is_empty s'"
    by blast
  note run' = scheduler.fifo_run[OF inv d(1)]
  have "stream_items s' sid = []" for sid
    using empty_stream_items[OF _ conjunct1[OF run'] d(2)] assms(1) by simp
  then have "filter (\<lambda>f. sf_stream f = sid) (de @ de') = filter (\<lambda>f. sf_stream f = sid) ac" for sid
    using run[of sid] run'[of sid] start by simp
  then show ?thesis using d by blast
qed

lemma five_classes:
  "replicate CLASS_COUNT x = [x, x, x, x, x]" "[a, b, c, d, e][4 := y] = [a, b, c, d, y]"
  by (simp_all add: CLASS_COUNT_def numeral_eq_Suc)

definition demo_frame :: "u32 \<Rightarrow> traffic_class \<Rightarrow> bytes \<Rightarrow> scheduled_frame" where
  "demo_frame sid c p = \<lparr>sf_class = c, sf_frame = \<lparr>f_header = header_new Data sid 0, f_payload = p\<rparr>\<rparr>"

lemma demo_put:
  "queue_run (enqueue (2 ^ 64 - 1)) (dequeue (2 ^ 64 - 1))
     [Put (demo_frame 1 Bulk [7, 7]), Put (demo_frame 1 Control [])] (scheduler_new 100) =
   ([demo_frame 1 Bulk [7, 7], demo_frame 1 Control []], [],
    snd (snd (queue_run (enqueue (2 ^ 64 - 1)) (dequeue (2 ^ 64 - 1))
     [Put (demo_frame 1 Bulk [7, 7]), Put (demo_frame 1 Control [])] (scheduler_new 100))))"
  by (simp add: enqueue_def scheduler_new_def demo_frame_def wire_len_def saturating_add_def HEADER_LEN_def
      CLASS_COUNT_def header_new_def Let_def)

theorem scheduler_delivers_witness:
  "\<exists>n de' s'. queue_run (enqueue (2 ^ 64 - 1)) (dequeue (2 ^ 64 - 1)) (replicate n Get)
       (snd (snd (queue_run (enqueue (2 ^ 64 - 1)) (dequeue (2 ^ 64 - 1))
          [Put (demo_frame 1 Bulk [7, 7]), Put (demo_frame 1 Control [])] (scheduler_new 100)))) = ([], de', s') \<and>
     scheduler_is_empty s' \<and>
     filter (\<lambda>f. sf_stream f = 1) de' = [demo_frame 1 Bulk [7, 7], demo_frame 1 Control []]"
  using scheduler_delivers[OF _ demo_put] by (fastforce simp: demo_frame_def header_new_def)

text \<open>
  C12: the byte bound. After any sequence of calls the scheduler holds exactly the bytes of the
  accepted frames that have not been delivered, and never more than its limit.
\<close>

theorem scheduler_bounded:
  assumes "queue_run (enqueue um) (dequeue um) ops (scheduler_new m) = (ac, de, s)"
  shows "fs_queued_bytes s + sum_list (map (wire_len um) de) = sum_list (map (wire_len um) ac) \<and>
         fs_queued_bytes s \<le> m"
  using bytes_run[OF sched_inv_new assms] conjunct1[OF scheduler.fifo_run[OF sched_inv_new assms]]
  by (auto simp: sched_inv_def scheduler_new_def)

theorem scheduler_bounded_witness:
  "fs_queued_bytes (snd (snd (queue_run (enqueue (2 ^ 64 - 1)) (dequeue (2 ^ 64 - 1))
      [Put (demo_frame 1 Bulk [7, 7]), Put (demo_frame 1 Control [])] (scheduler_new 100)))) = 82"
  using scheduler_bounded[OF demo_put]
  by (simp add: demo_frame_def wire_len_def saturating_add_def HEADER_LEN_def)

text \<open>
  C14: when \<open>dequeue\<close> has nothing to give. A call returns nothing exactly when, for every traffic class, the
  frame that is next to leave the class costs more than the deficit of the class and 512 of its quanta
  (or no frame of the class may leave). With the quantum of bulk traffic, 4096 bytes, 512 visits
  pay for two mebibytes only, so a bulk frame of the largest size is not returned by the first call.
\<close>

theorem dequeue_stalls_exactly:
  assumes "2560 \<le> um" "queue_run (enqueue um) (dequeue um) ops (scheduler_new m) = (ac, de, s)"
  shows "fst (dequeue um s) = None \<longleftrightarrow>
    list_all (\<lambda>i. case next_of_class s i of
        None \<Rightarrow> True
      | Some f \<Rightarrow> fs_deficits s ! i + 512 * DEFAULT_QUANTA ! i < wire_len um f) [0..<CLASS_COUNT]"
proof -
  have inv: "sched_inv um s" using scheduler.fifo_run[OF sched_inv_new assms(2)] by blast
  then have q: "fs_quanta s = DEFAULT_QUANTA" by (simp add: sched_inv_def)
  show ?thesis
    using dequeue_None_iff[OF assms(1) inv] unfolding unpaid_def q by (simp add: list_all_iff Ball_def)
qed

definition large_frame :: scheduled_frame where
  "large_frame = demo_frame 1 Bulk (replicate (16 * 1024 * 1024) 0)"

definition large_queue :: frame_scheduler where
  "large_queue = snd (enqueue (2 ^ 64 - 1) large_frame (scheduler_new (64 * 1024 * 1024)))"

lemma large_cost: "wire_len 18446744073709551615 large_frame = 16777256"
  by (simp add: wire_len_def saturating_add_def large_frame_def demo_frame_def HEADER_LEN_def)

lemma large_stream: "sf_stream large_frame = 1" "sf_class large_frame = Bulk"
  by (simp_all add: large_frame_def demo_frame_def header_new_def)

lemma large_run:
  "queue_run (enqueue (2 ^ 64 - 1)) (dequeue (2 ^ 64 - 1)) [Put large_frame] (scheduler_new (64 * 1024 * 1024)) =
     ([large_frame], [], large_queue)"
  by (simp add: large_queue_def enqueue_def Let_def scheduler_new_def large_cost)

lemma large_next:
  "next_of_class large_queue i = (if i = 4 then Some large_frame else None)" if "i < CLASS_COUNT"
  using class_cases[OF that]
  by (auto simp: large_queue_def enqueue_def Let_def scheduler_new_def large_cost next_of_class_def five_classes
      large_stream eligible_def)

theorem dequeue_stalls_exactly_witness:
  "fst (dequeue (2 ^ 64 - 1) large_queue) = None \<and> \<not> scheduler_is_empty large_queue"
proof -
  have "fs_deficits large_queue = [0, 0, 0, 0, 0]" "fs_queued_bytes large_queue = 16777256"
    by (simp_all add: large_queue_def enqueue_def Let_def scheduler_new_def large_cost five_classes)
  then show ?thesis
    using dequeue_stalls_exactly[OF _ large_run]
    by (simp add: list_all_iff large_next large_cost DEFAULT_QUANTA_def scheduler_is_empty_def)
qed

text \<open>
  C13: choice of a transport. \<open>select\<close> returns the first of the online candidates of the device to which no
  other online candidate is preferred: for bulk traffic a USB transport before a TCP transport and then the
  larger estimated throughput, for all other traffic the shorter round trip. Among equals the one that
  was registered first is taken. Nothing is returned exactly when no candidate is online, and a transport
  that has been marked offline is not selected.
\<close>

theorem registry_selects_best:
  assumes "registry_ok r"
  shows "(case select r serial class of
            None \<Rightarrow> list_all (\<lambda>c. \<not> tc_online c) (case r serial of None \<Rightarrow> [] | Some cs \<Rightarrow> cs)
          | Some c \<Rightarrow> tc_online c \<and>
              (\<exists>ys zs. filter tc_online (case r serial of None \<Rightarrow> [] | Some cs \<Rightarrow> cs) = ys @ c # zs \<and>
                 list_all (preferred class c) ys \<and> list_all (\<lambda>z. \<not> preferred class z c) zs)) \<and>
         map_option tc_id (select (mark_offline serial i r) serial class) \<noteq> Some i"
proof -
  have "map_option tc_id (select (mark_offline serial i r) serial class) \<noteq> Some i"
  proof
    assume "map_option tc_id (select (mark_offline serial i r) serial class) = Some i"
    then obtain c where c: "select (mark_offline serial i r) serial class = Some c" "tc_id c = i" by auto
    from select_online[OF c(1)] obtain cs where cs: "mark_offline serial i r serial = Some cs"
      "c \<in> set cs" "tc_online c" .
    then obtain cs0 where "r serial = Some cs0" "cs = set_offline i cs0"
      by (auto simp: mark_offline_def split: option.splits)
    then show False
      using set_offline_online[of cs0 c i] assms c(2) cs by (auto simp: registry_ok_def)
  qed
  moreover have "tc_online c" if "select r serial class = Some c" for c
    using select_online[OF that] by blast
  moreover have "list_all (\<lambda>c. \<not> tc_online c) (case r serial of None \<Rightarrow> [] | Some cs \<Rightarrow> cs)"
    if "select r serial class = None"
    using that by (auto simp: select_def min_by_key_None list_all_iff filter_empty_conv split: option.splits)
  ultimately show ?thesis
    using select_Some[of r serial "class"] by (auto simp: list_all_iff preferred_key split: option.split)
qed

definition demo_registry :: transport_registry where
  "demo_registry =
     register ''KT6'' \<lparr>tc_id = ''usb'', tc_kind = UsbBulk, tc_online = True, tc_round_trip_micros = 2000,
         tc_estimated_bytes_per_second = 40000000\<rparr>
       (register ''KT6'' \<lparr>tc_id = ''wifi'', tc_kind = Tcp, tc_online = True, tc_round_trip_micros = 500,
         tc_estimated_bytes_per_second = 80000000\<rparr> Map.empty)"

theorem registry_selects_best_witness:
  "map_option tc_id (select demo_registry ''KT6'' Bulk) = Some ''usb'' \<and>
   map_option tc_id (select demo_registry ''KT6'' Interactive) = Some ''wifi'' \<and>
   map_option tc_id (select (mark_offline ''KT6'' ''usb'' demo_registry) ''KT6'' Bulk) \<noteq> Some ''usb''"
proof -
  have "registry_ok demo_registry"
    unfolding demo_registry_def by (intro registry_ok_register) (simp add: registry_ok_def)
  from registry_selects_best[OF this, of "''KT6''" Bulk "''usb''"]
  show ?thesis
    by (simp add: demo_registry_def register_def select_def select_key_def key_less_def)
qed

end
