(* ===== verification/Byte_IO.thy ===== *)
theory Byte_IO
  imports KB_Prelude
begin

text \<open>
  Byte streams as the Rust sources use them through \<open>std::io::Read\<close> and \<open>std::io::Write\<close>. A reader
  is the sequence of results its next \<open>read\<close> calls give: chunks of bytes of any size, faults, and
  end of file when nothing is left. A writer is the sequence of results of its \<open>write\<close> calls and
  the bytes it has taken so far.
\<close>

section \<open>Readers\<close>

datatype io_kind = Interrupted | TimedOut | WouldBlock | WriteZero | OtherIo

datatype read_event = Chunk bytes | ReadFault io_kind

type_synonym reader = "read_event list"

text \<open>One call of \<open>read\<close> with a buffer of \<open>n\<close> bytes: at most the next chunk is delivered.\<close>

fun read_call :: "nat \<Rightarrow> reader \<Rightarrow> (io_kind + bytes) \<times> reader" where
  "read_call n [] = (Inr [], [])"
| "read_call n (ReadFault k # evs) = (Inl k, evs)"
| "read_call n (Chunk b # evs) =
     (Inr (take n b), if length b \<le> n then evs else Chunk (drop n b) # evs)"

fun content :: "reader \<Rightarrow> bytes" where
  "content [] = []"
| "content (Chunk b # evs) = b @ content evs"
| "content (ReadFault k # evs) = content evs"

text \<open>A reader that delivers its bytes without failing: it may be interrupted at any point.\<close>

fun benign :: "reader \<Rightarrow> bool" where
  "benign [] = True"
| "benign (Chunk b # evs) = (b \<noteq> [] \<and> benign evs)"
| "benign (ReadFault k # evs) = (k = Interrupted \<and> benign evs)"

section \<open>Writers\<close>

datatype write_event = Takes nat | WriteFault io_kind

record writer =
  wr_events :: "write_event list"
  wr_out :: bytes

text \<open>
  \<open>Write::write_all\<close>: write until the buffer is empty, again after an interruption, with an error
  when nothing was taken. A writer with no event left takes everything.
\<close>

fun write_loop :: "write_event list \<Rightarrow> bytes \<Rightarrow> bytes \<Rightarrow> (io_kind + unit) \<times> writer" where
  "write_loop evs [] out = (Inr (), \<lparr>wr_events = evs, wr_out = out\<rparr>)"
| "write_loop [] buf out = (Inr (), \<lparr>wr_events = [], wr_out = out @ buf\<rparr>)"
| "write_loop (Takes n # evs) buf out =
     (if n = 0 then (Inl WriteZero, \<lparr>wr_events = evs, wr_out = out\<rparr>)
      else write_loop evs (drop n buf) (out @ take n buf))"
| "write_loop (WriteFault k # evs) buf out =
     (if k = Interrupted then write_loop evs buf out
      else (Inl k, \<lparr>wr_events = evs, wr_out = out\<rparr>))"

definition write_all :: "bytes \<Rightarrow> (writer, io_kind, unit) mut" where
  "write_all buf w = write_loop (wr_events w) buf (wr_out w)"

lemma write_loop_out:
  "write_loop evs buf out = (r, w) \<Longrightarrow>
   \<exists>sent rest. wr_out w = out @ sent \<and> buf = sent @ rest \<and> (r = Inr () \<longleftrightarrow> rest = [])"
proof (induction evs buf out rule: write_loop.induct)
  case (1 evs out)
  then show ?case by auto
next
  case (2 b bs out)
  then show ?case by auto
next
  case (3 n evs b bs out)
  show ?case
  proof (cases "n = 0")
    case True
    then show ?thesis using 3(2) by auto
  next
    case False
    from 3(2) False have "write_loop evs (drop n (b # bs)) (out @ take n (b # bs)) = (r, w)" by simp
    from 3(1)[OF False this] obtain sent rest where
      sr: "wr_out w = (out @ take n (b # bs)) @ sent" "drop n (b # bs) = sent @ rest" "r = Inr () \<longleftrightarrow> rest = []"
      by blast
    have "b # bs = (take n (b # bs) @ sent) @ rest"
      using append_take_drop_id[of n "b # bs"] unfolding sr(2) by simp
    then show ?thesis using sr(1,3) by (metis append.assoc)
  qed
next
  case (4 k evs b bs out)
  show ?case
  proof (cases "k = Interrupted")
    case True
    then show ?thesis using 4 by simp
  next
    case False
    then show ?thesis using 4(2) by auto
  qed
qed

text \<open>A writer that never fails: every call takes something or is interrupted.\<close>

fun willing :: "write_event list \<Rightarrow> bool" where
  "willing [] = True"
| "willing (Takes n # evs) = (n > 0 \<and> willing evs)"
| "willing (WriteFault k # evs) = (k = Interrupted \<and> willing evs)"

lemma write_loop_willing:
  "willing evs \<Longrightarrow> \<exists>w. write_loop evs buf out = (Inr (), w) \<and> willing (wr_events w)"
  by (induction evs buf out rule: write_loop.induct) auto

section \<open>Self-delimiting encodings\<close>

text \<open>
  An encoder whose output a decoder can take from the front of a byte stream, leaving the rest: then
  a sequence of items is read back from the concatenation of their encodings, wherever the
  stream is cut.
\<close>

fun read_many :: "('s \<Rightarrow> ('e + 'a) \<times> 's) \<Rightarrow> nat \<Rightarrow> ('s, 'e, 'a list) mut" where
  "read_many rd 0 s = (Inr [], s)"
| "read_many rd (Suc n) s = sbind (rd s) (\<lambda>x s. sbind (read_many rd n s) (\<lambda>xs s. (Inr (x # xs), s)))"

locale stream_codec =
  fixes rd :: "('s, 'e, 'a) mut"
    and enc :: "'a \<Rightarrow> 'f + bytes"
    and bytes_of :: "'s \<Rightarrow> bytes"
    and ready :: "'s \<Rightarrow> bool"
  assumes rd_enc: "enc x = Inr bs \<Longrightarrow> ready s \<Longrightarrow> bytes_of s = bs @ rest \<Longrightarrow>
    \<exists>s'. rd s = (Inr x, s') \<and> ready s' \<and> bytes_of s' = rest"
begin

lemma read_many_encoded:
  "list_all2 (\<lambda>x bs. enc x = Inr bs) xs bss \<Longrightarrow> ready s \<Longrightarrow> bytes_of s = concat bss @ rest \<Longrightarrow>
   \<exists>s'. read_many rd (length xs) s = (Inr xs, s') \<and> ready s' \<and> bytes_of s' = rest"
proof (induction xs bss arbitrary: s rule: list_all2_induct)
  case (Cons x xs bs bss)
  obtain s1 where 1: "rd s = (Inr x, s1)" "ready s1" "bytes_of s1 = concat bss @ rest"
    using rd_enc[OF Cons.hyps(1) Cons.prems(1), of "concat bss @ rest"] Cons.prems(2) by auto
  from Cons.IH[OF 1(2,3)] obtain s' where
    "read_many rd (length xs) s1 = (Inr xs, s')" "ready s'" "bytes_of s' = rest" by blast
  then show ?case using 1(1) by simp
qed simp

lemma enc_prefix_free:
  assumes "enc x = Inr bs" "enc y = Inr bs'" "bs @ r = bs' @ r'" "ready s" "bytes_of s = bs @ r"
  shows "x = y \<and> r = r'"
proof -
  obtain s1 where 1: "rd s = (Inr x, s1)" "bytes_of s1 = r"
    using rd_enc[OF assms(1,4,5)] by blast
  obtain s2 where "rd s = (Inr y, s2)" "bytes_of s2 = r'"
    using rd_enc[OF assms(2,4), of r'] assms(3,5) by auto
  then show ?thesis using 1 by simp
qed

end

end
