(* ===== verification/Framing.thy ===== *)
theory Framing
  imports Wire_Frame Byte_IO
begin

text \<open>
  KBP framing over a byte stream, \<open>crates/kindlebridge-transport-tcp/src/framing.rs\<close>, with the
  configuration checks of \<open>config.rs\<close> and the error values of \<open>error.rs\<close>. TCP, USB bulk and
  FunctionFS endpoints share this code.

  \<open>um\<close> is \<open>usize::MAX\<close>; \<open>alloc n\<close> says whether \<open>try_reserve_exact n\<close> succeeds.
\<close>

section \<open>Configuration and errors\<close>

definition DEFAULT_MAX_PAYLOAD :: u32 where "DEFAULT_MAX_PAYLOAD = 16 * 1024 * 1024"
definition HARD_MAX_PAYLOAD :: u32 where "HARD_MAX_PAYLOAD = 64 * 1024 * 1024"

datatype io_operation =
    OpBind | OpAccept | OpConnect | OpConfigure | OpReadHeader | OpReadPayload | OpWriteHeader
  | OpWritePayload | OpFlush | OpShutdown | OpAddress

datatype error_class =
    CleanEof | Timeout | Truncated | Protocol | ResourceLimit | Configuration | IoClass

datatype transport_error =
    EndOfStream
  | TruncatedHeader nat
  | TruncatedPayload nat nat
  | TransportWire wire_error
  | ConfiguredPayloadLimitTooLarge u32 u32
  | PayloadExceedsHardLimit u32 u32
  | PayloadAllocation nat
  | TransportLengthMismatch u32 nat
  | ZeroTimeout string
  | TransportIo io_operation io_kind

fun transport_error_class :: "transport_error \<Rightarrow> error_class" where
  "transport_error_class EndOfStream = CleanEof"
| "transport_error_class (TruncatedHeader n) = Truncated"
| "transport_error_class (TruncatedPayload e n) = Truncated"
| "transport_error_class (TransportWire (PayloadTooLarge l m)) = ResourceLimit"
| "transport_error_class (TransportWire (CreditTooLarge l m)) = ResourceLimit"
| "transport_error_class (PayloadExceedsHardLimit l m) = ResourceLimit"
| "transport_error_class (PayloadAllocation n) = ResourceLimit"
| "transport_error_class (TransportWire e) = Protocol"
| "transport_error_class (TransportLengthMismatch d a) = Protocol"
| "transport_error_class (ConfiguredPayloadLimitTooLarge c h) = Configuration"
| "transport_error_class (ZeroTimeout n) = Configuration"
| "transport_error_class (TransportIo operation k) =
     (if k = TimedOut \<or> k = WouldBlock then Timeout else IoClass)"

fun transport_error_operation :: "transport_error \<Rightarrow> io_operation option" where
  "transport_error_operation (TransportIo operation k) = Some operation"
| "transport_error_operation _ = None"

text \<open>Durations in nanoseconds.\<close>

record transport_config =
  tcf_limits :: decode_limits
  tcf_connect_timeout :: nat
  tcf_read_timeout :: "nat option"
  tcf_write_timeout :: "nat option"
  tcf_nodelay :: bool

definition transport_config_new :: "decode_limits \<Rightarrow> transport_config" where
  "transport_config_new limits =
     \<lparr>tcf_limits = limits, tcf_connect_timeout = 5 * 10 ^ 9, tcf_read_timeout = Some (30 * 10 ^ 9),
      tcf_write_timeout = Some (30 * 10 ^ 9), tcf_nodelay = True\<rparr>"

definition transport_config_validate :: "transport_config \<Rightarrow> transport_error + transport_config" where
  "transport_config_validate c =
     (if max_payload (tcf_limits c) > HARD_MAX_PAYLOAD
      then Inl (ConfiguredPayloadLimitTooLarge (max_payload (tcf_limits c)) HARD_MAX_PAYLOAD)
      else if tcf_connect_timeout c = 0 then Inl (ZeroTimeout ''connect'')
      else if tcf_read_timeout c = Some 0 then Inl (ZeroTimeout ''read'')
      else if tcf_write_timeout c = Some 0 then Inl (ZeroTimeout ''write'')
      else Inr c)"

definition default_transport_config :: transport_config where
  "default_transport_config =
     transport_config_new \<lparr>max_payload = DEFAULT_MAX_PAYLOAD, max_window = DEFAULT_MAX_PAYLOAD\<rparr>"

section \<open>Reading\<close>

text \<open>
  The loop of \<open>read_exact_counted\<close>; \<open>n\<close> is what the buffer still takes and \<open>got\<close> what it holds.
  A call that delivers nothing ends the loop, an interruption repeats it.
\<close>

fun read_counted :: "io_operation \<Rightarrow> nat \<Rightarrow> bytes \<Rightarrow> reader \<Rightarrow> (transport_error + bytes) \<times> reader" where
  "read_counted operation n got [] = (Inr got, [])"
| "read_counted operation n got (ev # evs) =
     (if n = 0 then (Inr got, ev # evs)
      else
        case read_call n (ev # evs) of
          (Inr bs, evs') \<Rightarrow>
            if bs = [] then (Inr got, evs')
            else if length bs < n then read_counted operation (n - length bs) (got @ bs) evs
            else (Inr (got @ bs), evs')
        | (Inl k, evs') \<Rightarrow>
            if k = Interrupted then read_counted operation n got evs
            else (Inl (TransportIo operation k), evs'))"

definition read_exact_counted :: "io_operation \<Rightarrow> nat \<Rightarrow> (reader, transport_error, bytes) mut" where
  "read_exact_counted operation n r = read_counted operation n [] r"

definition read_frame_from ::
    "nat \<Rightarrow> (nat \<Rightarrow> bool) \<Rightarrow> transport_config \<Rightarrow> (reader, transport_error, frame) mut" where
  "read_frame_from um alloc config r =
     sbind (read_exact_counted OpReadHeader HEADER_LEN r) (\<lambda>header_bytes r.
     if length header_bytes = 0 then (Inl EndOfStream, r)
     else if length header_bytes \<noteq> HEADER_LEN then (Inl (TruncatedHeader (length header_bytes)), r)
     else
       sbind (map_err TransportWire (header_decode (tcf_limits config) header_bytes), r) (\<lambda>h r.
       if h_payload_length h > HARD_MAX_PAYLOAD
         then (Inl (PayloadExceedsHardLimit (h_payload_length h) HARD_MAX_PAYLOAD), r)
       else if unat (h_payload_length h) > um
         then (Inl (PayloadExceedsHardLimit (h_payload_length h) HARD_MAX_PAYLOAD), r)
       else
         let payload_len = unat (h_payload_length h) in
         if \<not> alloc payload_len then (Inl (PayloadAllocation payload_len), r)
         else
           sbind (read_exact_counted OpReadPayload payload_len r) (\<lambda>payload r.
           if length payload \<noteq> payload_len
             then (Inl (TruncatedPayload payload_len (length payload)), r)
           else (Inr \<lparr>f_header = h, f_payload = payload\<rparr>, r))))"

section \<open>Writing\<close>

definition encode_header_for_write :: "nat \<Rightarrow> transport_config \<Rightarrow> frame \<Rightarrow> transport_error + bytes" where
  "encode_header_for_write um config f =
     (if h_payload_length (f_header f) > HARD_MAX_PAYLOAD
      then Inl (PayloadExceedsHardLimit (h_payload_length (f_header f)) HARD_MAX_PAYLOAD)
      else
        let actual = length (f_payload f); declared = unat (h_payload_length (f_header f)) in
        if declared > um \<or> declared \<noteq> actual
          then Inl (TransportLengthMismatch (h_payload_length (f_header f)) actual)
        else map_err TransportWire (header_encode (tcf_limits config) (f_header f)))"

definition encode_frame_for_write :: "nat \<Rightarrow> transport_config \<Rightarrow> frame \<Rightarrow> transport_error + bytes" where
  "encode_frame_for_write um config f =
     rbind (encode_header_for_write um config f) (\<lambda>h. Inr (h @ f_payload f))"

definition write_all_as :: "io_operation \<Rightarrow> bytes \<Rightarrow> (writer, transport_error, unit) mut" where
  "write_all_as operation buf w =
     (case write_all buf w of (r, w) \<Rightarrow> (map_err (TransportIo operation) r, w))"

definition write_frame_to :: "nat \<Rightarrow> transport_config \<Rightarrow> frame \<Rightarrow> (writer, transport_error, unit) mut" where
  "write_frame_to um config f w =
     sbind (encode_header_for_write um config f, w) (\<lambda>encoded_header w.
     sbind (write_all_as OpWriteHeader encoded_header w) (\<lambda>_ w.
     write_all_as OpWritePayload (f_payload f) w))"

definition write_frame_contiguous ::
    "nat \<Rightarrow> transport_config \<Rightarrow> frame \<Rightarrow> (writer, transport_error, unit) mut" where
  "write_frame_contiguous um config f w =
     sbind (encode_frame_for_write um config f, w) (\<lambda>encoded w.
     write_all_as OpWritePayload encoded w)"

section \<open>The stream objects\<close>

record split_frame_stream =
  sp_reader :: reader
  sp_reader_config :: transport_config
  sp_writer :: writer
  sp_writer_config :: transport_config

definition split_frame_stream_new ::
    "reader \<Rightarrow> writer \<Rightarrow> transport_config \<Rightarrow> transport_error + split_frame_stream" where
  "split_frame_stream_new r w config =
     rbind (transport_config_validate config) (\<lambda>rc.
     rbind (transport_config_validate config) (\<lambda>wc.
     Inr \<lparr>sp_reader = r, sp_reader_config = rc, sp_writer = w, sp_writer_config = wc\<rparr>))"

definition split_read_frame ::
    "nat \<Rightarrow> (nat \<Rightarrow> bool) \<Rightarrow> (split_frame_stream, transport_error, frame) mut" where
  "split_read_frame um alloc s =
     (case read_frame_from um alloc (sp_reader_config s) (sp_reader s) of
        (res, r) \<Rightarrow> (res, s\<lparr>sp_reader := r\<rparr>))"

definition split_write_frame ::
    "nat \<Rightarrow> frame \<Rightarrow> (split_frame_stream, transport_error, unit) mut" where
  "split_write_frame um f s =
     (case write_frame_to um (sp_writer_config s) f (sp_writer s) of
        (res, w) \<Rightarrow> (res, s\<lparr>sp_writer := w\<rparr>))"

section \<open>Reading from any stream\<close>

lemma read_counted_0: "read_counted operation 0 got r = (Inr got, r)"
  by (cases r) auto

lemma read_counted_benign:
  "benign r \<Longrightarrow> \<exists>r'. read_counted operation n got r = (Inr (got @ take n (content r)), r') \<and>
     benign r' \<and> content r' = drop n (content r)"
proof (induction r arbitrary: n got)
  case (Cons ev evs)
  show ?case
  proof (cases "n = 0")
    case True
    then show ?thesis using Cons.prems by auto
  next
    case n: False
    show ?thesis
    proof (cases ev)
      case (Chunk b)
      then have b: "b \<noteq> []" "benign evs" using Cons.prems by auto
      show ?thesis
        using Cons.IH[OF b(2), of "n - length b" "got @ b"] Chunk b n
        by (cases "length b < n") auto
    next
      case (ReadFault k)
      then show ?thesis using Cons.IH[of n got] Cons.prems n by auto
    qed
  qed
qed simp

lemma read_counted_Inr:
  "read_counted operation n got r = (Inr x, r') \<Longrightarrow>
   \<exists>b. x = got @ b \<and> content r = b @ content r' \<and> length b \<le> n"
proof (induction r arbitrary: n got)
  case (Cons ev evs)
  show ?case
  proof (cases "n = 0")
    case True
    then show ?thesis using Cons.prems by auto
  next
    case n: False
    show ?thesis
    proof (cases ev)
      case (Chunk b)
      show ?thesis
      proof (cases "b \<noteq> [] \<and> length b < n")
        case True
        then have "read_counted operation (n - length b) (got @ b) evs = (Inr x, r')"
          using Cons.prems Chunk n by simp
        from Cons.IH[OF this] obtain c where
          "x = (got @ b) @ c" "content evs = c @ content r'" "length c \<le> n - length b" by blast
        then show ?thesis using Chunk True by (intro exI[of _ "b @ c"]) auto
      next
        case False
        then show ?thesis
          using Cons.prems Chunk n by (intro exI[of _ "take n b"]) (auto split: if_splits)
      qed
    next
      case (ReadFault k)
      then show ?thesis using Cons.IH[of n got] Cons.prems n by (auto split: if_splits)
    qed
  qed
qed simp

lemmas read_exact_benign = read_counted_benign[where got = "[]", folded read_exact_counted_def, simplified]

lemma read_exact_Inr:
  "read_exact_counted operation n r = (Inr x, r') \<Longrightarrow> content r = x @ content r' \<and> length x \<le> n"
  using read_counted_Inr[of operation n "[]" r x r'] by (auto simp: read_exact_counted_def)

section \<open>Encodings\<close>

lemma encode_frame_Inr:
  "encode_frame_for_write um cfg f = Inr bs \<longleftrightarrow>
   h_payload_length (f_header f) \<le> HARD_MAX_PAYLOAD \<and> unat (h_payload_length (f_header f)) \<le> um \<and>
   unat (h_payload_length (f_header f)) = length (f_payload f) \<and>
   (\<exists>hb. header_encode (tcf_limits cfg) (f_header f) = Inr hb \<and> bs = hb @ f_payload f)"
  by (auto simp: encode_frame_for_write_def encode_header_for_write_def rbind_eq_Inr Let_def split: if_splits)


lemma read_frame_benign:
  assumes "benign r" "length (content r) \<ge> 40"
    and "header_decode (tcf_limits cfg) (take 40 (content r)) = Inr h"
    and "h_payload_length h \<le> HARD_MAX_PAYLOAD" "unat (h_payload_length h) \<le> um" "alloc (unat (h_payload_length h))"
  shows "\<exists>r'. benign r' \<and> content r' = drop (40 + unat (h_payload_length h)) (content r) \<and>
    read_frame_from um alloc cfg r =
      (let p = take (unat (h_payload_length h)) (drop 40 (content r)) in
       if length p = unat (h_payload_length h) then Inr \<lparr>f_header = h, f_payload = p\<rparr>
       else Inl (TruncatedPayload (unat (h_payload_length h)) (length p)), r')"
proof -
  obtain r1 where r1: "read_exact_counted OpReadHeader 40 r = (Inr (take 40 (content r)), r1)" "benign r1"
      "content r1 = drop 40 (content r)"
    using read_exact_benign[OF assms(1)] by blast
  obtain r2 where r2: "read_exact_counted OpReadPayload (unat (h_payload_length h)) r1 =
      (Inr (take (unat (h_payload_length h)) (content r1)), r2)" "benign r2"
      "content r2 = drop (unat (h_payload_length h)) (content r1)"
    using read_exact_benign[OF r1(2)] by blast
  show ?thesis
    using assms(2-) r1 r2
    by (intro exI[of _ r2])
      (auto simp: read_frame_from_def HEADER_LEN_def Let_def add.commute[of 40] min_def not_le)
qed

definition frame_enc :: "nat \<Rightarrow> (nat \<Rightarrow> bool) \<Rightarrow> transport_config \<Rightarrow> frame \<Rightarrow> transport_error + bytes" where
  "frame_enc um alloc cfg f =
     rbind (ensure (alloc (length (f_payload f))) (PayloadAllocation (length (f_payload f))))
       (\<lambda>_. encode_frame_for_write um cfg f)"

interpretation framing: stream_codec "read_frame_from um alloc cfg" "frame_enc um alloc cfg" content benign
  for um alloc cfg
proof
  fix f bs r rest
  assume e: "frame_enc um alloc cfg f = Inr bs" and b: "benign r" and c: "content r = bs @ rest"
  obtain hb where hb: "header_encode (tcf_limits cfg) (f_header f) = Inr hb" "bs = hb @ f_payload f"
    and len: "h_payload_length (f_header f) \<le> HARD_MAX_PAYLOAD" "unat (h_payload_length (f_header f)) \<le> um"
      "unat (h_payload_length (f_header f)) = length (f_payload f)" "alloc (length (f_payload f))"
    using e by (auto simp: frame_enc_def encode_frame_Inr result_simps)
  note de = header_decode_encode(1)[OF hb(1)] header_decode_encode(2)[OF hb(1), of "[]"]
  have "take 40 (content r) = hb" using c hb(2) de(1) by simp
  then show "\<exists>s'. read_frame_from um alloc cfg r = (Inr f, s') \<and> benign s' \<and> content s' = rest"
    using read_frame_benign[OF b, of cfg "f_header f" um alloc] len de c hb(2) by (auto simp: Let_def)
qed

lemma write_all_as_out:
  assumes "write_all_as operation buf w = (r, w')"
  shows "\<exists>sent rest. wr_out w' = wr_out w @ sent \<and> buf = sent @ rest \<and> (r = Inr () \<longleftrightarrow> rest = [])"
  using assms write_loop_out[of "wr_events w" buf "wr_out w"]
  by (fastforce simp: write_all_as_def write_all_def split: prod.splits)

lemma write_all_as_Inr: "write_all_as operation buf w = (Inr (), w') \<Longrightarrow> wr_out w' = wr_out w @ buf"
  using write_all_as_out by fastforce

lemma write_frame_to_Inr:
  assumes "write_frame_to um cfg f w = (Inr (), w')"
  shows "\<exists>bs. encode_frame_for_write um cfg f = Inr bs \<and> wr_out w' = wr_out w @ bs"
  using assms write_all_as_Inr
  by (fastforce simp: write_frame_to_def encode_frame_for_write_def result_simps)

lemma write_frames_out:
  "exec_all (write_frame_to um cfg) fs w = (Inr (), w') \<Longrightarrow>
   \<exists>bss. list_all2 (\<lambda>f bs. encode_frame_for_write um cfg f = Inr bs) fs bss \<and> wr_out w' = wr_out w @ concat bss"
proof (induction fs arbitrary: w)
  case (Cons f fs)
  then obtain w1 where w1: "write_frame_to um cfg f w = (Inr (), w1)"
    "exec_all (write_frame_to um cfg) fs w1 = (Inr (), w')" by auto
  from write_frame_to_Inr[OF w1(1)] Cons.IH[OF w1(2)] obtain bs bss where
    "encode_frame_for_write um cfg f = Inr bs" "wr_out w1 = wr_out w @ bs"
    "list_all2 (\<lambda>f bs. encode_frame_for_write um cfg f = Inr bs) fs bss" "wr_out w' = wr_out w1 @ concat bss"
    by blast
  then show ?case by (intro exI[of _ "bs # bss"]) simp
qed simp

lemma write_frame_to_willing:
  assumes "willing (wr_events w)" "encode_frame_for_write um cfg f = Inr bs"
  shows "\<exists>w'. write_frame_to um cfg f w = (Inr (), w') \<and> willing (wr_events w')"
proof -
  obtain hb where hb: "encode_header_for_write um cfg f = Inr hb"
    using assms(2) by (auto simp: encode_frame_for_write_def result_simps)
  obtain w1 where w1: "write_all_as OpWriteHeader hb w = (Inr (), w1)" "willing (wr_events w1)"
    using write_loop_willing[OF assms(1), of hb "wr_out w"] by (auto simp: write_all_as_def write_all_def)
  obtain w2 where "write_all_as OpWritePayload (f_payload f) w1 = (Inr (), w2)" "willing (wr_events w2)"
    using write_loop_willing[OF w1(2), of "f_payload f" "wr_out w1"] by (auto simp: write_all_as_def write_all_def)
  then show ?thesis using hb w1(1) by (simp add: write_frame_to_def)
qed

lemma write_frames_willing:
  "willing (wr_events w) \<Longrightarrow> list_all (\<lambda>f. \<exists>bs. encode_frame_for_write um cfg f = Inr bs) fs \<Longrightarrow>
   exec_all (write_frame_to um cfg) fs w = (Inr (), snd (exec_all (write_frame_to um cfg) fs w))"
proof (induction fs arbitrary: w)
  case (Cons f fs)
  obtain bs where "encode_frame_for_write um cfg f = Inr bs" using Cons.prems(2) by auto
  from write_frame_to_willing[OF Cons.prems(1) this] obtain w1 where
    "write_frame_to um cfg f w = (Inr (), w1)" "willing (wr_events w1)" by blast
  then show ?case using Cons.IH[of w1] Cons.prems by (simp add: exec_all.simps(2))
qed simp

text \<open>A call that puts a prefix of the bytes on the stream, and succeeds exactly when that is all of them.\<close>

definition delivers :: "bytes \<Rightarrow> writer \<Rightarrow> (transport_error + unit) \<times> writer \<Rightarrow> bool" where
  "delivers bs w r = (\<exists>sent rest. wr_out (snd r) = wr_out w @ sent \<and> bs = sent @ rest \<and> (fst r = Inr () \<longleftrightarrow> rest = []))"

lemma delivers_write_all: "delivers buf w (write_all_as operation buf w)"
  using write_all_as_out[of operation buf w] by (cases "write_all_as operation buf w") (auto simp: delivers_def)

lemma delivers_contiguous:
  "encode_frame_for_write um cfg f = Inr bs \<Longrightarrow> delivers bs w (write_frame_contiguous um cfg f w)"
  by (simp add: write_frame_contiguous_def delivers_write_all)

lemma delivers_two_part:
  assumes "encode_frame_for_write um cfg f = Inr bs"
  shows "delivers bs w (write_frame_to um cfg f w)"
proof -
  obtain hb where hb: "encode_header_for_write um cfg f = Inr hb" "bs = hb @ f_payload f"
    using assms by (auto simp: encode_frame_for_write_def result_simps)
  obtain r1 w1 where 1: "write_all_as OpWriteHeader hb w = (r1, w1)" by fastforce
  obtain sent rest where s: "wr_out w1 = wr_out w @ sent" "hb = sent @ rest" "r1 = Inr () \<longleftrightarrow> rest = []"
    using write_all_as_out[OF 1] by blast
  show ?thesis
  proof (cases r1)
    case (Inl e)
    then show ?thesis using hb 1 s unfolding delivers_def
      by (intro exI[of _ sent] exI[of _ "rest @ f_payload f"]) (auto simp: write_frame_to_def)
  next
    case (Inr u)
    then show ?thesis using hb 1 s delivers_write_all[of "f_payload f" w1 OpWritePayload]
      by (auto simp: write_frame_to_def delivers_def)
  qed
qed

lemma contiguous_willing:
  assumes "willing (wr_events w)" "encode_frame_for_write um cfg f = Inr bs"
  shows "fst (write_frame_contiguous um cfg f w) = Inr ()"
  using write_loop_willing[OF assms(1), of bs "wr_out w"] assms(2)
  by (auto simp: write_frame_contiguous_def write_all_as_def write_all_def)

lemma read_frame_end: "benign r \<Longrightarrow> content r = [] \<Longrightarrow> fst (read_frame_from um alloc cfg r) = Inl EndOfStream"
  using read_exact_benign[of r OpReadHeader HEADER_LEN] by (auto simp: read_frame_from_def)

lemma read_frame_Inr:
  assumes "read_frame_from um alloc cfg r = (Inr f, r')"
  shows "encode_frame_for_write um cfg f = Inr (take (40 + length (f_payload f)) (content r)) \<and>
    content r = take (40 + length (f_payload f)) (content r) @ content r'"
proof -
  obtain hb r1 h p where 1: "read_exact_counted OpReadHeader HEADER_LEN r = (Inr hb, r1)" "length hb = HEADER_LEN"
      "header_decode (tcf_limits cfg) hb = Inr h" "h_payload_length h \<le> HARD_MAX_PAYLOAD"
      "unat (h_payload_length h) \<le> um"
      "read_exact_counted OpReadPayload (unat (h_payload_length h)) r1 = (Inr p, r')"
      "length p = unat (h_payload_length h)" "f = \<lparr>f_header = h, f_payload = p\<rparr>"
    using assms by (auto simp: read_frame_from_def Let_def result_simps split: if_splits)
  have "content r = hb @ p @ content r'"
    using read_exact_Inr[OF 1(1)] read_exact_Inr[OF 1(6)] by simp
  then show ?thesis
    using 1 header_encode_decode[OF 1(3)] by (auto simp: encode_frame_Inr HEADER_LEN_def)
qed


section \<open>Properties\<close>

text \<open>
  C15: framing is transparent. Frames written one after the other are read back in the same order
  from any stream that delivers the written bytes, however it cuts them into reads and however
  often a read is interrupted; after the last frame the reader reports a clean end of stream.
\<close>

theorem framed_stream_roundtrip:
  assumes "exec_all (write_frame_to um cfg) fs w = (Inr (), w')" "wr_out w = []"
    and "benign r" "content r = wr_out w'" "list_all (\<lambda>f. alloc (length (f_payload f))) fs"
  shows "\<exists>r'. read_many (read_frame_from um alloc cfg) (length fs) r = (Inr fs, r') \<and>
           fst (read_frame_from um alloc cfg r') = Inl EndOfStream"
proof -
  obtain bss where bss: "list_all2 (\<lambda>f bs. encode_frame_for_write um cfg f = Inr bs) fs bss"
      "wr_out w' = concat bss"
    using write_frames_out[OF assms(1)] assms(2) by auto
  then have "list_all2 (\<lambda>f bs. frame_enc um alloc cfg f = Inr bs) fs bss"
    using assms(5) by (auto simp: list_all2_conv_all_nth frame_enc_def list_all_length result_simps)
  from framing.read_many_encoded[OF this assms(3), of "[]"] assms(4) bss(2)
  show ?thesis using read_frame_end by auto
qed

definition demo_ping :: frame where
  "demo_ping = \<lparr>f_header = header_new Ping 0 3, f_payload = []\<rparr>"

definition demo_sink :: writer where
  "demo_sink = \<lparr>wr_events = [Takes 5, WriteFault Interrupted], wr_out = []\<rparr>"

definition demo_bytes :: bytes where
  "demo_bytes =
     (case encode_frame_for_write (2 ^ 64 - 1) default_transport_config demo_ping of Inl e \<Rightarrow> [] | Inr bs \<Rightarrow> bs)"

lemma demo_encode:
  "encode_frame_for_write (2 ^ 64 - 1) default_transport_config demo_ping = Inr demo_bytes"
  by (simp add: demo_bytes_def encode_frame_for_write_def encode_header_for_write_def demo_ping_def header_new_def
      header_encode_def header_validate_def PROTOCOL_MAJOR_def default_transport_config_def
      transport_config_new_def DEFAULT_MAX_PAYLOAD_def HARD_MAX_PAYLOAD_def Let_def)

lemma demo_bytes_length: "length demo_bytes = 40"
  using demo_encode header_decode_encode(1) by (auto simp: encode_frame_Inr demo_ping_def)

lemma demo_read:
  "\<exists>r'. read_frame_from (2 ^ 64 - 1) (\<lambda>n. True) default_transport_config [Chunk (demo_bytes @ [7])] = (Inr demo_ping, r')"
  using framing.rd_enc[of "2 ^ 64 - 1" "\<lambda>n. True" default_transport_config demo_ping demo_bytes
      "[Chunk (demo_bytes @ [7])]" "[7]"] demo_encode
  by (auto simp: frame_enc_def)

lemma demo_write:
  "exec_all (write_frame_to (2 ^ 64 - 1) default_transport_config) [demo_ping, demo_ping] demo_sink =
   (Inr (), snd (exec_all (write_frame_to (2 ^ 64 - 1) default_transport_config) [demo_ping, demo_ping] demo_sink))"
  using demo_encode by (intro write_frames_willing) (simp_all add: demo_sink_def)

theorem framed_stream_roundtrip_witness:
  "let out = wr_out (snd (exec_all (write_frame_to (2 ^ 64 - 1) default_transport_config)
               [demo_ping, demo_ping] demo_sink));
       r = [Chunk (take 1 out), ReadFault Interrupted, Chunk (drop 1 out)] in
   \<exists>r'. read_many (read_frame_from (2 ^ 64 - 1) (\<lambda>n. True) default_transport_config) 2 r =
          (Inr [demo_ping, demo_ping], r')"
proof -
  let ?w = "snd (exec_all (write_frame_to (2 ^ 64 - 1) default_transport_config) [demo_ping, demo_ping] demo_sink)"
  obtain bss where bss: "list_all2 (\<lambda>f bs. encode_frame_for_write (2 ^ 64 - 1) default_transport_config f = Inr bs)
      [demo_ping, demo_ping] bss" "wr_out ?w = concat bss"
    using write_frames_out[OF demo_write] by (auto simp: demo_sink_def)
  then have len: "length (wr_out ?w) = 80"
    using header_decode_encode(1) by (auto simp: list_all2_Cons1 encode_frame_Inr demo_ping_def)
  have "benign [Chunk (take 1 (wr_out ?w)), ReadFault Interrupted, Chunk (drop 1 (wr_out ?w))]"
    using len by auto
  from framed_stream_roundtrip[OF demo_write _ this, of "\<lambda>n. True"]
  show ?thesis by (auto simp: demo_sink_def Let_def numeral_2_eq_2)
qed

text \<open>
  C16: exactness. Whenever a frame is read, from any stream whatever its faults, the bytes consumed
  are the encoding of that frame, so that reading never skips, invents or overruns a byte. Its payload is
  not longer than the configured maximum, nor than the hard limit of 64 MiB.
\<close>

theorem read_frame_exact:
  assumes "read_frame_from um alloc cfg r = (Inr f, r')"
  shows "\<exists>bs. encode_frame_for_write um cfg f = Inr bs \<and> content r = bs @ content r' \<and>
           length bs = 40 + length (f_payload f) \<and> length (f_payload f) \<le> unat (max_payload (tcf_limits cfg)) \<and>
           length (f_payload f) \<le> 64 * 1024 * 1024"
proof -
  note e = read_frame_Inr[OF assms]
  then obtain hb where hb: "header_encode (tcf_limits cfg) (f_header f) = Inr hb"
      "take (40 + length (f_payload f)) (content r) = hb @ f_payload f"
    and le: "h_payload_length (f_header f) \<le> HARD_MAX_PAYLOAD"
      "unat (h_payload_length (f_header f)) = length (f_payload f)"
    by (auto simp: encode_frame_Inr)
  have "header_validate (tcf_limits cfg) (f_header f) = Inr ()" using hb(1) by (auto simp: header_encode_def result_simps)
  then have "h_payload_length (f_header f) \<le> max_payload (tcf_limits cfg)"
    by (auto simp: header_validate_def not_le split: if_splits)
  then have "length (f_payload f) \<le> unat (max_payload (tcf_limits cfg))" using le(2) by (simp add: word_le_nat_alt)
  moreover have "length (f_payload f) \<le> 64 * 1024 * 1024"
    using le by (simp add: HARD_MAX_PAYLOAD_def word_le_nat_alt)
  ultimately show ?thesis using e hb header_decode_encode(1) by fastforce
qed

theorem read_frame_exact_witness:
  "\<exists>r'. read_frame_from (2 ^ 64 - 1) (\<lambda>n. True) default_transport_config [Chunk (demo_bytes @ [7])] =
          (Inr demo_ping, r') \<and> content r' = [7]"
proof -
  obtain r' where "read_frame_from (2 ^ 64 - 1) (\<lambda>n. True) default_transport_config [Chunk (demo_bytes @ [7])] =
      (Inr demo_ping, r')" using demo_read by blast
  with read_frame_exact[OF this] demo_encode show ?thesis by auto
qed

text \<open>
  C17: truncation is reported. When a stream ends inside a frame the reader says so and how far it
  got: nothing at all is a clean end, less than a header a truncated header, the rest a truncated
  payload.
\<close>

theorem truncated_frame_reported:
  assumes "encode_frame_for_write um cfg f = Inr bs" "k < length bs" "benign r" "content r = take k bs"
    and "alloc (length (f_payload f))"
  shows "fst (read_frame_from um alloc cfg r) =
    Inl (if k = 0 then EndOfStream else if k < 40 then TruncatedHeader k
         else TruncatedPayload (length (f_payload f)) (k - 40))"
proof -
  obtain hb where hb: "header_encode (tcf_limits cfg) (f_header f) = Inr hb" "bs = hb @ f_payload f"
    and len: "h_payload_length (f_header f) \<le> HARD_MAX_PAYLOAD" "unat (h_payload_length (f_header f)) \<le> um"
      "unat (h_payload_length (f_header f)) = length (f_payload f)"
    using assms(1) by (auto simp: encode_frame_Inr)
  note de = header_decode_encode(1)[OF hb(1)] header_decode_encode(2)[OF hb(1), of "[]"]
  show ?thesis
  proof (cases "k < 40")
    case True
    then show ?thesis
      using read_exact_benign[OF assms(3), of OpReadHeader HEADER_LEN] assms(2,4)
      by (auto simp: read_frame_from_def HEADER_LEN_def)
  next
    case False
    then have "take 40 (content r) = hb" "drop 40 (content r) = take (k - 40) (f_payload f)"
      using assms(4) hb(2) de(1) by (auto simp: min_def)
    then show ?thesis
      using read_frame_benign[OF assms(3), of cfg "f_header f" um alloc] len de assms(2,4,5) False hb(2)
      by (auto simp: Let_def)
  qed
qed

theorem truncated_frame_reported_witness:
  "fst (read_frame_from (2 ^ 64 - 1) (\<lambda>n. True) default_transport_config [Chunk (take 39 demo_bytes)]) =
     Inl (TruncatedHeader 39)"
proof -
  have "demo_bytes \<noteq> []" using demo_bytes_length by auto
  then show ?thesis
    using truncated_frame_reported[OF demo_encode, of 39 "[Chunk (take 39 demo_bytes)]" "\<lambda>n. True"]
      demo_bytes_length by simp
qed

text \<open>
  C18: a failed write leaves the peer a prefix. Whatever the writer does, what \<open>write_frame\<close> has put
  on the stream is a prefix of the frame's encoding, nothing when the frame is refused, all of it
  exactly when the call succeeds.
\<close>

theorem write_frame_prefix:
  assumes "write_frame_to um cfg f w = (res, w')"
  shows "\<exists>sent rest. wr_out w' = wr_out w @ sent \<and>
           (case encode_frame_for_write um cfg f of
              Inl e \<Rightarrow> res = Inl e \<and> sent = []
            | Inr bs \<Rightarrow> bs = sent @ rest \<and> (res = Inr () \<longleftrightarrow> rest = []))"
proof (cases "encode_header_for_write um cfg f")
  case (Inl e)
  then show ?thesis using assms by (auto simp: write_frame_to_def encode_frame_for_write_def)
next
  case (Inr hb)
  obtain r1 w1 where 1: "write_all_as OpWriteHeader hb w = (r1, w1)" by (cases "write_all_as OpWriteHeader hb w")
  obtain sent1 rest1 where s1: "wr_out w1 = wr_out w @ sent1" "hb = sent1 @ rest1" "r1 = Inr () \<longleftrightarrow> rest1 = []"
    using write_all_as_out[OF 1] by blast
  show ?thesis
  proof (cases r1)
    case (Inl e)
    then show ?thesis
      using assms Inr 1 s1
      by (intro exI[of _ sent1] exI[of _ "rest1 @ f_payload f"]) (auto simp: write_frame_to_def encode_frame_for_write_def)
  next
    case (Inr u)
    then have 2: "write_all_as OpWritePayload (f_payload f) w1 = (res, w')"
      using assms \<open>encode_header_for_write um cfg f = Inr hb\<close> 1 by (simp add: write_frame_to_def)
    then obtain sent2 rest2 where "wr_out w' = wr_out w1 @ sent2" "f_payload f = sent2 @ rest2" "res = Inr () \<longleftrightarrow> rest2 = []"
      using write_all_as_out by blast
    then show ?thesis
      using s1 Inr \<open>encode_header_for_write um cfg f = Inr hb\<close>
      by (intro exI[of _ "sent1 @ sent2"] exI[of _ rest2]) (auto simp: encode_frame_for_write_def)
  qed
qed

theorem write_frame_prefix_witness:
  "\<exists>sent rest. wr_out (snd (write_frame_to (2 ^ 64 - 1) default_transport_config demo_ping
       \<lparr>wr_events = [Takes 5, WriteFault OtherIo], wr_out = [1]\<rparr>)) = 1 # sent \<and> demo_bytes = sent @ rest"
  using write_frame_prefix[OF prod.collapse[symmetric], of "2 ^ 64 - 1" default_transport_config demo_ping
      "\<lparr>wr_events = [Takes 5, WriteFault OtherIo], wr_out = [1]\<rparr>"] demo_encode
  by auto

text \<open>
  C19: the contiguous writer used for FunctionFS and the two-part writer are interchangeable. They refuse the
  same frames with the same error and write nothing then. For any other frame, whatever the endpoint does,
  each of them puts a prefix of the same encoding on the stream and succeeds exactly when that is all of
  it; an endpoint that may take the bytes in any portions and interrupt any call, but does not fail,
  makes both succeed. The calls are cut differently, so an endpoint that fails may stop them at
  different points.
\<close>

theorem contiguous_write_equivalent:
  "case encode_frame_for_write um cfg f of
     Inl e \<Rightarrow> write_frame_contiguous um cfg f w = (Inl e, w) \<and> write_frame_to um cfg f w = (Inl e, w)
   | Inr bs \<Rightarrow> delivers bs w (write_frame_contiguous um cfg f w) \<and> delivers bs w (write_frame_to um cfg f w) \<and>
       (willing (wr_events w) \<longrightarrow>
          fst (write_frame_contiguous um cfg f w) = Inr () \<and> fst (write_frame_to um cfg f w) = Inr () \<and>
          wr_out (snd (write_frame_contiguous um cfg f w)) = wr_out (snd (write_frame_to um cfg f w)))"
proof (cases "encode_frame_for_write um cfg f")
  case (Inl e)
  then have "encode_header_for_write um cfg f = Inl e" by (auto simp: encode_frame_for_write_def result_simps)
  then show ?thesis using Inl by (simp add: write_frame_contiguous_def write_frame_to_def)
next
  case (Inr bs)
  note d = delivers_contiguous[OF Inr, of w] delivers_two_part[OF Inr, of w]
  have "fst (write_frame_contiguous um cfg f w) = Inr () \<and> fst (write_frame_to um cfg f w) = Inr ()"
    if "willing (wr_events w)"
    using contiguous_willing[OF that Inr] write_frame_to_willing[OF that Inr] by auto
  then show ?thesis using Inr d by (auto simp: delivers_def)
qed

theorem contiguous_write_equivalent_witness:
  "let w = \<lparr>wr_events = [Takes 5, WriteFault Interrupted, Takes 1], wr_out = [1]\<rparr> in
   wr_out (snd (write_frame_contiguous (2 ^ 64 - 1) default_transport_config demo_ping w)) = 1 # demo_bytes \<and>
   wr_out (snd (write_frame_to (2 ^ 64 - 1) default_transport_config demo_ping w)) = 1 # demo_bytes"
  using contiguous_write_equivalent[of "2 ^ 64 - 1" default_transport_config demo_ping
      "\<lparr>wr_events = [Takes 5, WriteFault Interrupted, Takes 1], wr_out = [1]\<rparr>"] demo_encode
  by (auto simp: delivers_def)

end
