(* ===== verification/Rust_Text.thy ===== *)
theory Rust_Text
  imports KB_Prelude "HOL-Library.List_Lexorder" "HOL-Library.Product_Lexorder"
begin

text \<open>
  The part of Rust's \<open>str\<close> that the sources use. A \<open>str\<close> is its UTF-8 byte string, as in Rust:
  \<open>len\<close> is the number of bytes, comparison is the lexicographic order of the bytes, and the
  separators of \<open>split\<close>, \<open>rsplit_once\<close> and \<open>join\<close> are ASCII characters, which never occur inside
  a longer UTF-8 sequence. \<open>chars\<close> decodes the bytes with the rules of \<open>std::str::from_utf8\<close>.
\<close>

type_synonym str = bytes

definition lit :: "string \<Rightarrow> str" where
  "lit s = map of_char s"

section \<open>ASCII\<close>

definition is_digit :: "u8 \<Rightarrow> bool" where "is_digit b = (0x30 \<le> b \<and> b \<le> 0x39)"
definition is_lower :: "u8 \<Rightarrow> bool" where "is_lower b = (0x61 \<le> b \<and> b \<le> 0x7a)"
definition is_upper :: "u8 \<Rightarrow> bool" where "is_upper b = (0x41 \<le> b \<and> b \<le> 0x5a)"

definition to_ascii_lowercase :: "str \<Rightarrow> str" where
  "to_ascii_lowercase s = map (\<lambda>b. if is_upper b then b + 32 else b) s"

definition to_ascii_uppercase :: "str \<Rightarrow> str" where
  "to_ascii_uppercase s = map (\<lambda>b. if is_lower b then b - 32 else b) s"

definition is_ascii :: "str \<Rightarrow> bool" where
  "is_ascii s = list_all (\<lambda>b. b < 0x80) s"

section \<open>Splitting and joining\<close>

fun split_on :: "'a \<Rightarrow> 'a list \<Rightarrow> 'a list list" where
  "split_on c [] = [[]]"
| "split_on c (x # xs) = (if x = c then [] # split_on c xs
     else (case split_on c xs of [] \<Rightarrow> [[x]] | y # ys \<Rightarrow> (x # y) # ys))"

fun join_with :: "'a \<Rightarrow> 'a list list \<Rightarrow> 'a list" where
  "join_with c [] = []"
| "join_with c [x] = x"
| "join_with c (x # y # ys) = x @ c # join_with c (y # ys)"

fun rsplit_once :: "'a \<Rightarrow> 'a list \<Rightarrow> ('a list \<times> 'a list) option" where
  "rsplit_once c [] = None"
| "rsplit_once c (x # xs) = (case rsplit_once c xs of
       Some (a, b) \<Rightarrow> Some (x # a, b)
     | None \<Rightarrow> if x = c then Some ([], xs) else None)"

definition starts_with :: "'a list \<Rightarrow> 'a list \<Rightarrow> bool" where
  "starts_with p s = (take (length p) s = p)"

definition ends_with_char :: "'a \<Rightarrow> 'a list \<Rightarrow> bool" where
  "ends_with_char c s = (s \<noteq> [] \<and> last s = c)"

lemma split_on_not_Nil [simp]: "split_on c xs \<noteq> []"
  by (induction xs) (auto split: list.splits)

lemma join_with_Cons: "ys \<noteq> [] \<Longrightarrow> join_with c (x # ys) = x @ c # join_with c ys"
  by (cases ys) auto

lemma join_with_first_Cons: "join_with c ((x # y) # ys) = x # join_with c (y # ys)"
  by (cases ys) auto

lemma join_split [simp]: "join_with c (split_on c xs) = xs"
proof (induction xs)
  case (Cons x xs)
  then show ?case
    by (cases "split_on c xs") (auto simp: join_with_Cons join_with_first_Cons)
qed simp

lemma split_on_no_sep: "y \<in> set (split_on c xs) \<Longrightarrow> c \<notin> set y"
proof (induction xs arbitrary: y)
  case (Cons x xs)
  then show ?case
    by (cases "split_on c xs") (auto split: if_splits)
qed simp

lemma split_on_absent: "c \<notin> set x \<Longrightarrow> split_on c x = [x]"
  by (induction x) auto

lemma split_on_append_sep: "c \<notin> set x \<Longrightarrow> split_on c (x @ c # xs) = x # split_on c xs"
  by (induction x) auto

lemma split_join:
  assumes "xs \<noteq> []" "\<And>x. x \<in> set xs \<Longrightarrow> c \<notin> set x"
  shows "split_on c (join_with c xs) = xs"
  using assms
proof (induction c xs rule: join_with.induct)
  case (3 c x y ys)
  then show ?case by (simp add: split_on_append_sep)
qed (auto simp: split_on_absent)

lemma split_on_append: "split_on c (a @ c # b) = split_on c a @ split_on c b"
proof (induction a)
  case (Cons x a)
  then show ?case by (cases "split_on c a") auto
qed simp

lemma rsplit_once_None: "rsplit_once c s = None \<longleftrightarrow> c \<notin> set s"
  by (induction s) (auto split: option.splits)

lemma last_sep_unique:
  assumes "a @ c # b = a' @ c # b'" "c \<notin> set b" "c \<notin> set b'"
  shows "a = a' \<and> b = b'"
  using assms
proof (induction a arbitrary: a')
  case Nil
  then show ?case by (cases a') auto
next
  case (Cons x a)
  then show ?case by (cases a') auto
qed

lemma rsplit_once_sound: "rsplit_once c s = Some (a, b) \<Longrightarrow> s = a @ c # b \<and> c \<notin> set b"
  by (induction s arbitrary: a) (auto simp: rsplit_once_None split: option.splits if_splits)

lemma rsplit_once_Some: "rsplit_once c s = Some (a, b) \<longleftrightarrow> s = a @ c # b \<and> c \<notin> set b"
proof
  assume *: "s = a @ c # b \<and> c \<notin> set b"
  then obtain p where p: "rsplit_once c s = Some p"
    using rsplit_once_None[of c s] by (cases "rsplit_once c s") auto
  show "rsplit_once c s = Some (a, b)"
    using rsplit_once_sound[of c s "fst p" "snd p"] p * last_sep_unique[of a c b "fst p" "snd p"]
    by simp
qed (rule rsplit_once_sound)

text \<open>In terms of components, \<open>rsplit_once\<close> separates the last component.\<close>

lemma rsplit_once_split:
  "rsplit_once c s = (case butlast (split_on c s) of
     [] \<Rightarrow> None | ps \<Rightarrow> Some (join_with c ps, last (split_on c s)))"
proof (cases "rsplit_once c s")
  case None
  then show ?thesis by (simp add: rsplit_once_None split_on_absent)
next
  case (Some p)
  obtain a b where p: "p = (a, b)" by (cases p)
  then have s: "s = a @ c # b" "c \<notin> set b" using Some by (simp_all add: rsplit_once_Some)
  have sp: "split_on c s = split_on c a @ [b]" using s by (simp add: split_on_append split_on_absent)
  show ?thesis using Some p by (simp add: sp split: list.splits) (metis join_split)
qed

section \<open>UTF-8\<close>

definition is_cont :: "u8 \<Rightarrow> bool" where "is_cont b = (0x80 \<le> b \<and> b \<le> 0xBF)"

definition utf8_char_width :: "u8 \<Rightarrow> nat" where
  "utf8_char_width b =
     (if b < 0x80 then 1 else if 0xC2 \<le> b \<and> b \<le> 0xDF then 2
      else if 0xE0 \<le> b \<and> b \<le> 0xEF then 3 else if 0xF0 \<le> b \<and> b \<le> 0xF4 then 4 else 0)"

text \<open>The second byte excludes overlong forms, surrogates and values above \<open>0x10FFFF\<close>.\<close>

definition utf8_second :: "u8 \<Rightarrow> u8 \<Rightarrow> bool" where
  "utf8_second b0 b1 =
     (is_cont b1 \<and> (b0 = 0xE0 \<longrightarrow> 0xA0 \<le> b1) \<and> (b0 = 0xED \<longrightarrow> b1 \<le> 0x9F)
      \<and> (b0 = 0xF0 \<longrightarrow> 0x90 \<le> b1) \<and> (b0 = 0xF4 \<longrightarrow> b1 \<le> 0x8F))"

fun utf8_next :: "bytes \<Rightarrow> (u32 \<times> bytes) option" where
  "utf8_next [] = None"
| "utf8_next (b0 # r) =
     (if utf8_char_width b0 = 1 then Some (ucast b0, r)
      else if utf8_char_width b0 = 2 then
        (case r of b1 # r' \<Rightarrow>
           if utf8_second b0 b1 then Some ((ucast b0 - 0xC0) * 64 + (ucast b1 - 0x80), r') else None
         | _ \<Rightarrow> None)
      else if utf8_char_width b0 = 3 then
        (case r of b1 # b2 # r' \<Rightarrow>
           if utf8_second b0 b1 \<and> is_cont b2
           then Some (((ucast b0 - 0xE0) * 64 + (ucast b1 - 0x80)) * 64 + (ucast b2 - 0x80), r')
           else None
         | _ \<Rightarrow> None)
      else if utf8_char_width b0 = 4 then
        (case r of b1 # b2 # b3 # r' \<Rightarrow>
           if utf8_second b0 b1 \<and> is_cont b2 \<and> is_cont b3
           then Some ((((ucast b0 - 0xF0) * 64 + (ucast b1 - 0x80)) * 64 + (ucast b2 - 0x80)) * 64
                      + (ucast b3 - 0x80), r')
           else None
         | _ \<Rightarrow> None)
      else None)"

lemma utf8_next_shorter: "utf8_next bs = Some (c, r) \<Longrightarrow> length r < length bs"
  by (cases bs) (auto split: if_splits list.splits)

function utf8_decode :: "bytes \<Rightarrow> u32 list option" where
  "utf8_decode bs = (if bs = [] then Some []
     else (case utf8_next bs of
         None \<Rightarrow> None
       | Some (c, r) \<Rightarrow> map_option ((#) c) (utf8_decode r)))"
  by auto
termination
  by (relation "measure length") (auto dest: utf8_next_shorter)

declare utf8_decode.simps [simp del]

definition is_utf8 :: "bytes \<Rightarrow> bool" where
  "is_utf8 bs = (utf8_decode bs \<noteq> None)"

definition chars :: "str \<Rightarrow> u32 list" where
  "chars s = (case utf8_decode s of Some cs \<Rightarrow> cs | None \<Rightarrow> [])"

definition char_is_control :: "u32 \<Rightarrow> bool" where
  "char_is_control c = (c \<le> 0x1f \<or> (0x7f \<le> c \<and> c \<le> 0x9f))"

end
