(* ===== verification/Shell_Protocol.thy ===== *)
theory Shell_Protocol
  imports Wire_Frame Rust_Text
begin

text \<open>
  The packets of a shell stream, \<open>crates/kindlebridge-schema/src/shell_protocol.rs\<close>, and the session
  and transfer identifiers of \<open>device_protocol.rs\<close>. An \<open>i32\<close> is the 32-bit word of its two's
  complement representation.
\<close>

section \<open>Packets\<close>

definition MAX_SHELL_PACKET_PAYLOAD :: nat where "MAX_SHELL_PACKET_PAYLOAD = 16 * 1024"
definition SHELL_HEADER_LENGTH :: nat where "SHELL_HEADER_LENGTH = 5"
definition USB_ALIGNED_SHELL_PACKET_PAYLOAD :: nat where
  "USB_ALIGNED_SHELL_PACKET_PAYLOAD = 16 * 1024 - HEADER_LEN - SHELL_HEADER_LENGTH"

datatype packet_source = FromHost | FromDevice

datatype shell_mode = Pty | Raw

record terminal_size =
  ts_rows :: u16
  ts_columns :: u16
  ts_pixel_width :: u16
  ts_pixel_height :: u16

definition terminal_size_is_valid :: "terminal_size \<Rightarrow> bool" where
  "terminal_size_is_valid t = (ts_rows t \<noteq> 0 \<and> ts_columns t \<noteq> 0)"

record shell_exit =
  se_exit_code :: u32
  se_signal :: u32

datatype shell_packet =
    Stdin bytes
  | Stdout bytes
  | Stderr bytes
  | Exit shell_exit
  | CloseStdin
  | Resize terminal_size

datatype shell_packet_error =
    ShellHeaderTooShort nat
  | UnknownKind u8
  | InvalidDirection u8
  | ShellLengthMismatch nat nat
  | ShellPayloadTooLarge nat nat
  | InvalidPayloadLength u8 nat nat
  | InvalidTerminalSize

definition validate_direction :: "u8 \<Rightarrow> packet_source \<Rightarrow> shell_packet_error + unit" where
  "validate_direction kind source =
     (let valid = (case source of FromHost \<Rightarrow> kind \<in> {0, 4, 5} | FromDevice \<Rightarrow> kind \<in> {1, 2, 3}) in
      ensure valid (InvalidDirection kind))"

definition validate_payload_length :: "nat \<Rightarrow> shell_packet_error + unit" where
  "validate_payload_length n =
     ensure (n \<le> MAX_SHELL_PACKET_PAYLOAD) (ShellPayloadTooLarge n MAX_SHELL_PACKET_PAYLOAD)"

definition require_length :: "u8 \<Rightarrow> bytes \<Rightarrow> nat \<Rightarrow> shell_packet_error + unit" where
  "require_length kind payload expected =
     ensure (length payload = expected) (InvalidPayloadLength kind expected (length payload))"

definition validate_terminal_size :: "terminal_size \<Rightarrow> shell_packet_error + unit" where
  "validate_terminal_size t = ensure (terminal_size_is_valid t) InvalidTerminalSize"

definition shell_encode :: "shell_packet \<Rightarrow> shell_packet_error + bytes" where
  "shell_encode p =
     rbind
       (case p of
          Stdin d \<Rightarrow> Inr (0 :: u8, d)
        | Stdout d \<Rightarrow> Inr (1, d)
        | Stderr d \<Rightarrow> Inr (2, d)
        | Exit st \<Rightarrow> Inr (3, le_bytes 4 (se_exit_code st) @ le_bytes 4 (se_signal st))
        | CloseStdin \<Rightarrow> Inr (4, [])
        | Resize t \<Rightarrow>
            rbind (validate_terminal_size t) (\<lambda>_.
            Inr (5, le_bytes 2 (ts_rows t) @ le_bytes 2 (ts_columns t) @
                    le_bytes 2 (ts_pixel_width t) @ le_bytes 2 (ts_pixel_height t))))
       (\<lambda>(kind, payload).
          rbind (validate_payload_length (length payload)) (\<lambda>_.
          Inr (kind # le_bytes 4 (of_nat (length payload) :: u32) @ payload)))"

definition shell_decode :: "packet_source \<Rightarrow> bytes \<Rightarrow> shell_packet_error + shell_packet" where
  "shell_decode source encoded =
     (if length encoded < SHELL_HEADER_LENGTH then Inl (ShellHeaderTooShort (length encoded))
      else
        let kind = encoded ! 0 in
        if kind > 5 then Inl (UnknownKind kind)
        else
          rbind (validate_direction kind source) (\<lambda>_.
          let declared = unat (of_le_bytes (sub_slice 1 4 encoded) :: u32) in
          rbind (validate_payload_length declared) (\<lambda>_.
          let payload = drop SHELL_HEADER_LENGTH encoded in
          if declared \<noteq> length payload then Inl (ShellLengthMismatch declared (length payload))
          else if kind = 0 then Inr (Stdin payload)
          else if kind = 1 then Inr (Stdout payload)
          else if kind = 2 then Inr (Stderr payload)
          else if kind = 3 then
            rbind (require_length kind payload 8) (\<lambda>_.
            Inr (Exit \<lparr>se_exit_code = of_le_bytes (sub_slice 0 4 payload),
                       se_signal = of_le_bytes (sub_slice 4 4 payload)\<rparr>))
          else if kind = 4 then rbind (require_length kind payload 0) (\<lambda>_. Inr CloseStdin)
          else
            rbind (require_length kind payload 8) (\<lambda>_.
            let t = \<lparr>ts_rows = of_le_bytes (sub_slice 0 2 payload),
                     ts_columns = of_le_bytes (sub_slice 2 2 payload),
                     ts_pixel_width = of_le_bytes (sub_slice 4 2 payload),
                     ts_pixel_height = of_le_bytes (sub_slice 6 2 payload)\<rparr> in
            rbind (validate_terminal_size t) (\<lambda>_. Inr (Resize t))))))"

section \<open>Ordering rules of a stream\<close>

datatype shell_stream_error = InputClosed | AfterExit | StderrForPty | ResizeForRaw

record shell_stream_state =
  sh_mode :: shell_mode
  sh_input_open :: bool
  sh_exit :: "shell_exit option"

definition shell_stream_new :: "shell_mode \<Rightarrow> shell_stream_state" where
  "shell_stream_new mode = \<lparr>sh_mode = mode, sh_input_open = True, sh_exit = None\<rparr>"

definition shell_accept :: "shell_packet \<Rightarrow> (shell_stream_state, shell_stream_error, unit) mut" where
  "shell_accept p s =
     (if sh_exit s \<noteq> None then (Inl AfterExit, s)
      else
        case p of
          Stdin d \<Rightarrow> if \<not> sh_input_open s then (Inl InputClosed, s) else (Inr (), s)
        | CloseStdin \<Rightarrow>
            if \<not> sh_input_open s then (Inl InputClosed, s)
            else (Inr (), s\<lparr>sh_input_open := False\<rparr>)
        | Stderr d \<Rightarrow> if sh_mode s = Pty then (Inl StderrForPty, s) else (Inr (), s)
        | Resize t \<Rightarrow> if sh_mode s = Raw then (Inl ResizeForRaw, s) else (Inr (), s)
        | Exit st \<Rightarrow> (Inr (), s\<lparr>sh_exit := Some st\<rparr>)
        | Stdout d \<Rightarrow> (Inr (), s))"

section \<open>Identifiers\<close>

definition is_valid_session_id :: "str \<Rightarrow> bool" where
  "is_valid_session_id v = (length v = 32 \<and> list_all (\<lambda>b. is_digit b \<or> (0x61 \<le> b \<and> b \<le> 0x66)) v)"

definition is_valid_transfer_id :: "str \<Rightarrow> bool" where
  "is_valid_transfer_id v =
     (v \<noteq> [] \<and> length v \<le> 128 \<and>
      list_all (\<lambda>b. is_digit b \<or> is_lower b \<or> is_upper b \<or> b = 0x2d \<or> b = 0x5f) v)"

section \<open>The codec\<close>

fun shell_source :: "shell_packet \<Rightarrow> packet_source" where
  "shell_source (Stdin d) = FromHost"
| "shell_source CloseStdin = FromHost"
| "shell_source (Resize t) = FromHost"
| "shell_source (Stdout d) = FromDevice"
| "shell_source (Stderr d) = FromDevice"
| "shell_source (Exit st) = FromDevice"

lemma shell_slices:
  "sub_slice (Suc 0) 4 (k # le_bytes 4 (w::u32) @ p) = le_bytes 4 w"
  "sub_slice (Suc 0) 4 (k # le_bytes 4 w) = le_bytes 4 w" "drop 5 (k # le_bytes 4 w @ p) = p"
  by (simp_all add: sub_slice_def)

lemma slices_8:
  "length a = 4 \<Longrightarrow> sub_slice 0 4 (a @ b) = a" "length a = 4 \<Longrightarrow> length b = 4 \<Longrightarrow> sub_slice 4 4 (a @ b) = b"
  "length c = 2 \<Longrightarrow> sub_slice 0 2 (c @ d) = c"
  "length c = 2 \<Longrightarrow> length d = 2 \<Longrightarrow> sub_slice 2 2 (c @ d @ e) = d"
  "length c = 2 \<Longrightarrow> length d = 2 \<Longrightarrow> length e = 2 \<Longrightarrow> sub_slice 4 2 (c @ d @ e @ f) = e"
  "length c = 2 \<Longrightarrow> length d = 2 \<Longrightarrow> length e = 2 \<Longrightarrow> length f = 2 \<Longrightarrow> sub_slice 6 2 (c @ d @ e @ f) = f"
  by (simp_all add: sub_slice_def)

lemma shell_decode_encode:
  assumes "shell_encode p = Inr bs"
  shows "shell_decode (shell_source p) bs = Inr p"
  using assms
  by (cases p)
    (auto simp: shell_encode_def shell_decode_def result_simps SHELL_HEADER_LENGTH_def validate_payload_length_def
      MAX_SHELL_PACKET_PAYLOAD_def validate_direction_def require_length_def validate_terminal_size_def
      shell_slices slice_all unat_of_nat_u32 slices_8 terminal_size_is_valid_def Let_def)

lemma shell_bytes_split:
  assumes "length bs \<ge> 5" "unat (of_le_bytes (sub_slice 1 4 bs) :: u32) = length (drop 5 bs)"
  shows "bs = bs ! 0 # le_bytes 4 (of_nat (length (drop 5 bs)) :: u32) @ drop 5 bs"
proof -
  have "of_nat (length (drop 5 bs)) = (of_le_bytes (sub_slice 1 4 bs) :: u32)"
    unfolding assms(2)[symmetric] by simp
  then have "le_bytes 4 (of_nat (length (drop 5 bs)) :: u32) = sub_slice 1 4 bs"
    using assms(1) le_bytes_of_le_bytes[of "sub_slice 1 4 bs", where 'a = 32] by simp
  moreover have "bs = take 1 bs @ sub_slice 1 4 bs @ drop 5 bs"
    using assms(1) slice_split[of 1 4 bs] by simp
  ultimately show ?thesis using assms(1) by (cases bs) auto
qed


lemma slices_8_join:
  assumes "length xs = 8"
  shows "sub_slice 0 4 xs @ sub_slice 4 4 xs = xs"
    "sub_slice 0 2 xs @ sub_slice 2 2 xs @ sub_slice 4 2 xs @ sub_slice 6 2 xs = xs"
  using slice_join[of 0 4 xs 4] slice_join[of 0 2 xs 6] slice_join[of 2 2 xs 4] slice_join[of 4 2 xs 2]
    slice_all[of xs 8] assms by (simp_all flip: numeral_2_eq_2)

lemma kind_cases: "\<not> (k :: u8) > 5 \<Longrightarrow> k = 0 \<or> k = 1 \<or> k = 2 \<or> k = 3 \<or> k = 4 \<or> k = 5"
proof -
  assume "\<not> k > 5"
  then have "unat k \<le> 5" by (simp add: word_less_nat_alt)
  then have "unat k \<in> {0, 1, 2, 3, 4, 5}" by auto
  then show ?thesis by (auto simp: word_unat_eq_iff)
qed

lemma shell_encode_decode:
  assumes "shell_decode src bs = Inr p"
  shows "shell_encode p = Inr bs \<and> shell_source p = src"
proof -
  let ?k = "bs ! 0" and ?pl = "drop 5 bs"
  have len: "length bs \<ge> 5" and k: "\<not> ?k > 5"
    and dir: "validate_direction ?k src = Inr ()"
    and dec: "unat (of_le_bytes (sub_slice 1 4 bs) :: u32) = length ?pl" "length ?pl \<le> 16384"
    using assms by (auto simp: shell_decode_def SHELL_HEADER_LENGTH_def validate_payload_length_def
        MAX_SHELL_PACKET_PAYLOAD_def Let_def rbind_eq_Inr split: if_splits)
  have bs: "bs = ?k # le_bytes 4 (of_nat (length ?pl) :: u32) @ ?pl" by (rule shell_bytes_split[OF len dec(1)])
  have enc: "shell_encode q = Inr bs"
    if "(case q of Stdin d \<Rightarrow> Inr (0 :: u8, d) | Stdout d \<Rightarrow> Inr (1, d) | Stderr d \<Rightarrow> Inr (2, d)
        | Exit st \<Rightarrow> Inr (3, le_bytes 4 (se_exit_code st) @ le_bytes 4 (se_signal st))
        | CloseStdin \<Rightarrow> Inr (4, [])
        | Resize t \<Rightarrow> rbind (validate_terminal_size t) (\<lambda>_.
            Inr (5, le_bytes 2 (ts_rows t) @ le_bytes 2 (ts_columns t) @
                    le_bytes 2 (ts_pixel_width t) @ le_bytes 2 (ts_pixel_height t)))) = Inr (?k, ?pl)" for q
    using that dec(2) bs by (simp add: shell_encode_def validate_payload_length_def MAX_SHELL_PACKET_PAYLOAD_def)
  from kind_cases[OF k] show ?thesis
  proof (elim disjE)
    assume "?k = 3"
    then show ?thesis
      using assms len dir dec
      by (auto simp: shell_decode_def SHELL_HEADER_LENGTH_def Let_def rbind_eq_Inr require_length_def
        validate_direction_def le_bytes_slice slices_8_join intro!: enc split: packet_source.splits)
  next
    assume "?k = 5"
    then show ?thesis
      using assms len dir dec
      by (auto simp: shell_decode_def SHELL_HEADER_LENGTH_def Let_def rbind_eq_Inr require_length_def
        validate_direction_def le_bytes_slice slices_8_join intro!: enc split: packet_source.splits)
  qed (use assms len dir dec in \<open>auto simp: shell_decode_def SHELL_HEADER_LENGTH_def Let_def rbind_eq_Inr
        require_length_def validate_direction_def intro!: enc split: packet_source.splits\<close>)
qed


section \<open>The ordering\<close>

fun is_input :: "shell_packet \<Rightarrow> bool" where
  "is_input (Stdin d) = True"
| "is_input CloseStdin = True"
| "is_input _ = False"

fun allowed_in :: "shell_mode \<Rightarrow> shell_packet \<Rightarrow> bool" where
  "allowed_in Pty (Stderr d) = False"
| "allowed_in Raw (Resize t) = False"
| "allowed_in _ _ = True"

fun may_precede :: "shell_packet \<Rightarrow> shell_packet \<Rightarrow> bool" where
  "may_precede (Exit st) q = False"
| "may_precede CloseStdin q = (\<not> is_input q)"
| "may_precede p q = True"

lemma shell_accept_run:
  "fst (exec_all shell_accept ps s) = Inr () \<longleftrightarrow>
     (sh_exit s = None \<or> ps = []) \<and> (sh_input_open s \<or> list_all (\<lambda>p. \<not> is_input p) ps) \<and>
     list_all (allowed_in (sh_mode s)) ps \<and> sorted_wrt may_precede ps"
proof (induction ps arbitrary: s)
  case (Cons p ps)
  show ?case
  proof (cases "sh_exit s")
    case None
    show ?thesis
      using None Cons.IH
      by (cases p; cases "sh_mode s") (auto simp: exec_all.simps(2) shell_accept_def list_all_iff)
  next
    case (Some st)
    then show ?thesis by (simp add: exec_all.simps(2) shell_accept_def)
  qed
qed simp

section \<open>Properties\<close>

text \<open>
  C20: the shell packet codec is exact. Bytes decode to a packet from one side exactly when that
  side may send the packet and the bytes are its encoding: decoding inverts encoding, no two byte
  strings mean the same packet, and each direction has its own packet kinds.
\<close>

theorem shell_codec_exact:
  "shell_decode source bs = Inr p \<longleftrightarrow> shell_encode p = Inr bs \<and> shell_source p = source"
  using shell_decode_encode[of p bs] shell_encode_decode[of source bs p] by auto

text \<open>
  C21: the ordering rules of a shell stream. A sequence of packets is accepted exactly when nothing
  follows an exit, no input follows the end of input, a terminal stream carries no separate error
  output and a raw stream no resize.
\<close>

theorem shell_order_accepted:
  "fst (exec_all shell_accept ps (shell_stream_new mode)) = Inr () \<longleftrightarrow>
     list_all (allowed_in mode) ps \<and> sorted_wrt may_precede ps"
  by (simp add: shell_accept_run shell_stream_new_def)

end
