(* ===== verification/Bundle_Model.thy ===== *)
theory Bundle_Model
  imports Rust_Text
begin

text \<open>
  The data of an application bundle, \<open>crates/kindlebridge-bundle/src/model.rs\<close> and \<open>error.rs\<close>.
  A \<open>Digest\<close> is its 32 bytes. An error is its \<open>ErrorCode\<close>: the message texts are not modelled. The additional code
  \<open>EPanicked\<close> stands for a panic of an \<open>expect\<close> or an index.
  The dependency and migration values are CBOR values of any type, of which the program only
  asks whether there are any, so the envelope has a type parameter for them.
\<close>

section \<open>Errors\<close>

datatype error_code =
    EIo | EHeader | EBounds | ECanonicalCbor | ESchema | EProfilePolicy | EPath | ETree | EBlock
  | ESignature | EPublisher | ETarget | EActivation | EQuota | EConflict | ERecovery | EPanicked

type_synonym 'a bundle_result = "error_code + 'a"

section \<open>Digests\<close>

type_synonym digest = bytes

definition digest_visit_bytes :: "bytes \<Rightarrow> digest option" where
  "digest_visit_bytes v = (if length v = 32 then Some v else None)"

section \<open>Bundle metadata\<close>

datatype bundle_kind = Application | Runtime | Agent | Tool | Daemon | DeviceProfile

fun bundle_kind_as_str :: "bundle_kind \<Rightarrow> str" where
  "bundle_kind_as_str Application = lit ''application''"
| "bundle_kind_as_str Runtime = lit ''runtime''"
| "bundle_kind_as_str Agent = lit ''agent''"
| "bundle_kind_as_str Tool = lit ''tool''"
| "bundle_kind_as_str Daemon = lit ''daemon''"
| "bundle_kind_as_str DeviceProfile = lit ''device-profile''"

record publisher =
  pub_algorithm :: u64
  pub_public_key :: bytes
  pub_key_id :: digest
  pub_name :: "str option"

record variant =
  va_target :: str
  va_os :: str
  va_arch :: str
  va_abi :: str
  va_firmware_min :: "u64 list option"
  va_firmware_max_exclusive :: "u64 list option"
  va_required_features :: "str list"
  va_optional_features :: "str list"
  va_tree :: digest
  va_entrypoints :: "(str \<times> str) list"

datatype file_type = Directory | Regular | SymlinkRelative

fun file_type_code :: "file_type \<Rightarrow> u8" where
  "file_type_code Directory = 1"
| "file_type_code Regular = 2"
| "file_type_code SymlinkRelative = 3"

definition file_type_deserialize :: "u8 \<Rightarrow> file_type option" where
  "file_type_deserialize v =
     (if v = 1 then Some Directory else if v = 2 then Some Regular
      else if v = 3 then Some SymlinkRelative else None)"

type_synonym block_ref = "digest \<times> u64"

record file_entry =
  fe_path :: str
  fe_type :: file_type
  fe_mode :: "u64 option"
  fe_size :: "u64 option"
  fe_file_digest :: "digest option"
  fe_block_refs :: "block_ref list option"
  fe_target :: "str option"

definition file_entry_directory :: "str \<Rightarrow> file_entry" where
  "file_entry_directory p = \<lparr>fe_path = p, fe_type = Directory, fe_mode = Some 0, fe_size = None,
     fe_file_digest = None, fe_block_refs = None, fe_target = None\<rparr>"

record tree =
  tree_root :: digest
  tree_entries :: "file_entry list"

record block_descriptor =
  bd_digest :: digest
  bd_raw_size :: u64
  bd_codec :: u64
  bd_stored_size :: u64
  bd_stored_digest :: digest
  bd_payload_offset :: u64

record permissions =
  pm_requested :: "str list"
  pm_optional :: "str list"

datatype restart_policy = Never | OnFailure

record process_policy =
  pp_restart :: restart_policy
  pp_stop_timeout_ms :: u64
  pp_working_dir :: "str option"
  pp_environment :: "(str \<times> str) list option"

datatype data_policy_kind = Preserve | ReplaceEmpty | Ephemeral

record data_policy =
  dp_policy :: data_policy_kind
  dp_schema :: u64
  dp_quota_bytes :: "u64 option"

definition default_data_policy :: data_policy where
  "default_data_policy = \<lparr>dp_policy = Preserve, dp_schema = 1, dp_quota_bytes = None\<rparr>"

record signature_policy =
  sp_publisher_threshold :: u64
  sp_publisher_algorithms :: "u64 list"
  sp_distributor_required :: bool
  sp_distributor_threshold :: u64
  sp_distributor_key_ids :: "digest list"

definition default_signature_policy :: signature_policy where
  "default_signature_policy = \<lparr>sp_publisher_threshold = 1, sp_publisher_algorithms = [1],
     sp_distributor_required = False, sp_distributor_threshold = 0, sp_distributor_key_ids = []\<rparr>"

record rotation_proof_signed_data =
  rs_schema :: u64
  rs_app_id :: str
  rs_channel :: str
  rs_from_algorithm :: u64
  rs_from_public_key :: bytes
  rs_to_algorithm :: u64
  rs_to_public_key :: bytes
  rs_valid_from_release :: u64
  rs_previous_proof_digest :: digest
  rs_flags :: u64

record rotation_proof =
  rp_signed :: rotation_proof_signed_data
  rp_signature :: bytes

record 'v envelope =
  env_schema :: u64
  env_profile :: str
  env_kind :: bundle_kind
  env_id :: str
  env_version :: str
  env_release :: u64
  env_channel :: str
  env_publisher :: publisher
  env_variants :: "variant list"
  env_trees :: "tree list"
  env_blocks :: "block_descriptor list"
  env_permissions :: permissions
  env_process :: "process_policy option"
  env_data :: data_policy
  env_dependencies :: "'v list"
  env_migrations :: "'v list"
  env_signature_policy :: signature_policy
  env_rotation :: "rotation_proof list"
  env_annotations :: "(str \<times> str) list option"

record signature_entry =
  se_role :: u64
  se_algorithm :: u64
  se_key_id :: digest
  se_signature :: bytes

section \<open>Strictly sorted arrays\<close>

text \<open>\<open>values.windows(2).all(|pair| pair[0] < pair[1])\<close>\<close>

fun strictly_sorted :: "'a::linorder list \<Rightarrow> bool" where
  "strictly_sorted [] = True"
| "strictly_sorted [x] = True"
| "strictly_sorted (x # y # ys) = (x < y \<and> strictly_sorted (y # ys))"

lemma strictly_sorted_iff: "strictly_sorted xs \<longleftrightarrow> sorted_wrt (<) xs"
proof (induction xs rule: strictly_sorted.induct)
  case (3 x y ys)
  show ?case
  proof
    assume "strictly_sorted (x # y # ys)"
    then have "x < y" "sorted_wrt (<) (y # ys)" using 3 by simp_all
    then show "sorted_wrt (<) (x # y # ys)" by fastforce
  qed (use 3 in simp)
qed simp_all

lemma strictly_sorted_distinct: "strictly_sorted xs \<Longrightarrow> distinct xs"
  by (metis strictly_sorted_iff strict_sorted_iff)

end
