(* ===== verification/Bundle_Path.thy ===== *)
theory Bundle_Path
  imports Bundle_Model
begin

text \<open>
  Paths, identifiers, trees and symbolic links of a bundle,
  \<open>crates/kindlebridge-bundle/src/path.rs\<close>. Unicode normalization is a third-party crate: \<open>nfc\<close> is
  the function that maps a sequence of characters to its normal form C.
\<close>

abbreviation slash :: u8 where "slash \<equiv> 0x2f"
abbreviation dot :: u8 where "dot \<equiv> 0x2e"
abbreviation backslash :: u8 where "backslash \<equiv> 0x5c"

type_synonym nfc = "u32 list \<Rightarrow> u32 list"

section \<open>Paths\<close>

definition is_dot :: "str \<Rightarrow> bool" where "is_dot c = (c = [dot])"
definition is_dotdot :: "str \<Rightarrow> bool" where "is_dotdot c = (c = [dot, dot])"

definition numbered_device :: "str \<Rightarrow> bool" where
  "numbered_device upper =
     (length upper = 4 \<and> (starts_with (lit ''COM'') upper \<or> starts_with (lit ''LPT'') upper)
      \<and> 0x31 \<le> upper ! 3 \<and> upper ! 3 \<le> 0x39)"

definition validate_component :: "str \<Rightarrow> bool \<Rightarrow> unit bundle_result" where
  "validate_component component allow_dot =
     (if component = []
         \<or> \<not> allow_dot \<and> (is_dot component \<or> is_dotdot component)
         \<or> 255 < length component
         \<or> ends_with_char 0x20 component
         \<or> ends_with_char dot component \<and> \<not> allow_dot
         \<or> list_ex char_is_control (chars component)
      then Inl EPath
      else if allow_dot \<and> (is_dot component \<or> is_dotdot component) then Inr ()
      else let basename = hd (split_on dot component); upper = to_ascii_uppercase basename in
        if upper \<in> {lit ''CON'', lit ''PRN'', lit ''AUX'', lit ''NUL''} \<or> numbered_device upper
        then Inl EPath else Inr ())"

fun validate_components :: "bool \<Rightarrow> str list \<Rightarrow> unit bundle_result" where
  "validate_components allow_dot [] = Inr ()"
| "validate_components allow_dot (c # cs) =
     rbind (validate_component c allow_dot) (\<lambda>_. validate_components allow_dot cs)"

definition validate_nfc_text :: "nfc \<Rightarrow> str \<Rightarrow> nat \<Rightarrow> nat \<Rightarrow> unit bundle_result" where
  "validate_nfc_text nfc value lo hi =
     (if \<not> (lo \<le> length value \<and> length value \<le> hi) then Inl EPath
      else if nfc (chars value) \<noteq> chars value then Inl EPath
      else Inr ())"

definition validate_bundle_path :: "nfc \<Rightarrow> str \<Rightarrow> unit bundle_result" where
  "validate_bundle_path nfc path =
     rbind (validate_nfc_text nfc path 1 1024) (\<lambda>_.
       if starts_with [slash] path \<or> ends_with_char slash path \<or> backslash \<in> set path
       then Inl EPath
       else validate_components False (split_on slash path))"

definition validate_symlink_target :: "nfc \<Rightarrow> str \<Rightarrow> unit bundle_result" where
  "validate_symlink_target nfc target =
     rbind (validate_nfc_text nfc target 1 1024) (\<lambda>_.
       if starts_with [slash] target \<or> ends_with_char slash target \<or> backslash \<in> set target
       then Inl EPath
       else validate_components True (split_on slash target))"

section \<open>Identifiers\<close>

definition lower_or_digit :: "u8 \<Rightarrow> bool" where
  "lower_or_digit b = (is_lower b \<or> is_digit b)"

definition valid_id_segment :: "str \<Rightarrow> bool" where
  "valid_id_segment s = (\<not> (s = [] \<or> \<not> lower_or_digit (hd s) \<or> \<not> lower_or_digit (last s)
     \<or> \<not> list_all (\<lambda>b. lower_or_digit b \<or> b = 0x2d) s))"

definition validate_logical_id :: "str \<Rightarrow> unit bundle_result" where
  "validate_logical_id ident =
     (if \<not> (3 \<le> length ident \<and> length ident \<le> 255) \<or> \<not> is_ascii ident \<or> dot \<notin> set ident then Inl ESchema
      else if starts_with (lit ''com.amazon.'') ident \<or> starts_with (lit ''com.lab126.'') ident
              \<or> starts_with (lit ''org.kindlebridge.system.'') ident then Inl EPublisher
      else if list_all valid_id_segment (split_on dot ident) then Inr () else Inl ESchema)"

definition validate_channel :: "str \<Rightarrow> unit bundle_result" where
  "validate_channel channel =
     (if channel = [] \<or> 32 < length channel \<or> \<not> lower_or_digit (hd channel)
         \<or> \<not> list_all (\<lambda>b. lower_or_digit b \<or> b \<in> {dot, 0x5f, 0x2d}) channel
      then Inl ESchema else Inr ())"

section \<open>Trees\<close>

text \<open>The loop of \<open>validate_tree_paths\<close> over the entries, with its three local variables.\<close>

fun tree_paths_loop ::
  "nfc \<Rightarrow> str option \<Rightarrow> str set \<Rightarrow> (str \<rightharpoonup> file_type) \<Rightarrow> file_entry list \<Rightarrow> unit bundle_result" where
  "tree_paths_loop nfc previous folded types [] = Inr ()"
| "tree_paths_loop nfc previous folded types (entry # entries) =
     rbind (validate_bundle_path nfc (fe_path entry)) (\<lambda>_.
       if (case previous of Some value \<Rightarrow> fe_path entry \<le> value | None \<Rightarrow> False) then Inl EPath
       else if to_ascii_lowercase (fe_path entry) \<in> folded then Inl EPath
       else rbind (case rsplit_once slash (fe_path entry) of
             Some (parent, _) \<Rightarrow> (case types parent of
                 Some Directory \<Rightarrow> Inr ()
               | Some _ \<Rightarrow> Inl EPath
               | None \<Rightarrow> Inl EPath)
           | None \<Rightarrow> Inr ())
         (\<lambda>_. tree_paths_loop nfc (Some (fe_path entry))
                (insert (to_ascii_lowercase (fe_path entry)) folded)
                (types(fe_path entry \<mapsto> fe_type entry)) entries))"

definition validate_tree_paths :: "nfc \<Rightarrow> file_entry list \<Rightarrow> unit bundle_result" where
  "validate_tree_paths nfc entries = tree_paths_loop nfc None {} Map.empty entries"

section \<open>Symbolic links\<close>

fun resolve_parts :: "str list \<Rightarrow> str list \<Rightarrow> str list bundle_result" where
  "resolve_parts parts [] = Inr parts"
| "resolve_parts parts (component # components) =
     (if is_dot component then resolve_parts parts components
      else if is_dotdot component then
        (if parts = [] then Inl EPath else resolve_parts (butlast parts) components)
      else resolve_parts (parts @ [component]) components)"

definition resolve_target :: "str \<Rightarrow> str \<Rightarrow> str bundle_result" where
  "resolve_target link_path target =
     rbind (resolve_parts (butlast (split_on slash link_path)) (split_on slash target)) (\<lambda>parts.
       if parts = [] then Inl EPath else Inr (join_with slash parts))"

definition entries_by_path :: "file_entry list \<Rightarrow> (str \<rightharpoonup> file_entry)" where
  "entries_by_path entries = map_of (rev (map (\<lambda>e. (fe_path e, e)) entries))"

text \<open>
  The loop that follows a chain of links, with the number of iterations that are left and the
  paths seen so far. The bound of the Rust loop, \<open>0..=16\<close>, is 17 iterations.
\<close>

fun follow_links ::
  "nfc \<Rightarrow> (str \<rightharpoonup> file_entry) \<Rightarrow> nat \<Rightarrow> file_entry \<Rightarrow> str list \<Rightarrow> unit bundle_result" where
  "follow_links nfc by_path 0 current seen = Inr ()"
| "follow_links nfc by_path (Suc n) current seen =
     (if fe_type current \<noteq> SymlinkRelative then Inr ()
      else if fe_path current \<in> set seen then Inl EPath
      else let seen' = fe_path current # seen in
        if 16 < length seen' then Inl EPath
        else rbind (ok_or (fe_target current) ETree) (\<lambda>target.
          rbind (validate_symlink_target nfc target) (\<lambda>_.
          rbind (resolve_target (fe_path current) target) (\<lambda>resolved.
          rbind (ok_or (by_path resolved) EPath) (\<lambda>next.
          follow_links nfc by_path n next seen')))))"

fun symlinks_loop :: "nfc \<Rightarrow> (str \<rightharpoonup> file_entry) \<Rightarrow> file_entry list \<Rightarrow> unit bundle_result" where
  "symlinks_loop nfc by_path [] = Inr ()"
| "symlinks_loop nfc by_path (entry # entries) =
     rbind (if fe_type entry \<noteq> SymlinkRelative then Inr ()
            else follow_links nfc by_path 17 entry []) (\<lambda>_.
       symlinks_loop nfc by_path entries)"

definition validate_symlinks :: "nfc \<Rightarrow> file_entry list \<Rightarrow> unit bundle_result" where
  "validate_symlinks nfc entries = symlinks_loop nfc (entries_by_path entries) entries"

section \<open>What an accepted path is\<close>

definition plain_component :: "str \<Rightarrow> bool" where
  "plain_component c = (c \<noteq> [] \<and> \<not> is_dot c \<and> \<not> is_dotdot c \<and> length c \<le> 255 \<and> slash \<notin> set c)"

lemma validate_components_all:
  "validate_components d cs = Inr () \<longleftrightarrow> (\<forall>c\<in>set cs. validate_component c d = Inr ())"
  by (induction cs) (auto simp: result_simps)

lemma validate_component_plain:
  "validate_component c False = Inr () \<Longrightarrow> c \<noteq> [] \<and> \<not> is_dot c \<and> \<not> is_dotdot c \<and> length c \<le> 255"
  by (auto simp: validate_component_def split: if_splits)

lemma bundle_path_plain:
  "validate_bundle_path nfc p = Inr () \<Longrightarrow> c \<in> set (split_on slash p) \<Longrightarrow> plain_component c"
  by (auto simp: validate_bundle_path_def result_simps validate_components_all plain_component_def
      split_on_no_sep dest: validate_component_plain split: if_splits)

section \<open>Accepted trees\<close>

definition parent_declared :: "file_entry list \<Rightarrow> file_entry \<Rightarrow> bool" where
  "parent_declared es e = (case rsplit_once slash (fe_path e) of
     None \<Rightarrow> True
   | Some (parent, _) \<Rightarrow> \<exists>d\<in>set es. fe_path d = parent \<and> fe_type d = Directory)"

fun last_path :: "file_entry list \<Rightarrow> str option" where
  "last_path [] = None"
| "last_path es = Some (fe_path (last es))"

definition types_of :: "file_entry list \<Rightarrow> (str \<rightharpoonup> file_type)" where
  "types_of es = map_of (rev (map (\<lambda>e. (fe_path e, fe_type e)) es))"

lemma last_path_snoc [simp]: "last_path (es @ [e]) = Some (fe_path e)"
  by (cases es) auto

lemma types_of_snoc [simp]: "types_of (es @ [e]) = (types_of es)(fe_path e \<mapsto> fe_type e)"
  by (simp add: types_of_def)

lemma types_of_Some:
  assumes "distinct (map fe_path es)"
  shows "types_of es p = Some t \<longleftrightarrow> (\<exists>d\<in>set es. fe_path d = p \<and> fe_type d = t)"
proof -
  have "distinct (map fst (rev (map (\<lambda>e. (fe_path e, fe_type e)) es)))"
    using assms by (simp add: rev_map[symmetric] comp_def)
  then show ?thesis by (auto simp: types_of_def)
qed

lemma parent_check:
  assumes "distinct (map fe_path es)"
  shows "(case rsplit_once slash (fe_path e) of
             Some (parent, _) \<Rightarrow> (case types_of es parent of
                 Some Directory \<Rightarrow> Inr ()
               | Some _ \<Rightarrow> Inl EPath
               | None \<Rightarrow> Inl EPath)
           | None \<Rightarrow> Inr ()) = Inr () \<longleftrightarrow> parent_declared es e"
proof (cases "rsplit_once slash (fe_path e)")
  case (Some q)
  obtain a b where q: "q = (a, b)" by (cases q)
  show ?thesis
    using types_of_Some[OF assms, of a Directory] Some q
    by (auto simp: parent_declared_def split: option.splits file_type.splits)
qed (simp add: parent_declared_def)

lemma sorted_snoc_last:
  assumes "sorted_wrt (<) (map fe_path es)"
  shows "(\<not> (case last_path es of Some value \<Rightarrow> fe_path e \<le> value | None \<Rightarrow> False)) \<longleftrightarrow>
     sorted_wrt (<) (map fe_path (es @ [e]))"
proof (cases es rule: rev_cases)
  case (snoc ys y)
  have "\<And>x. x \<in> set ys \<Longrightarrow> fe_path x < fe_path y" using assms snoc by (auto simp: sorted_wrt_append)
  then show ?thesis using assms snoc
    by (auto simp: sorted_wrt_append not_le intro: less_trans)
qed simp

lemma tree_paths_loop_iff:
  assumes "sorted_wrt (<) (map fe_path es)"
  shows "tree_paths_loop nfc (last_path es) ((\<lambda>e. to_ascii_lowercase (fe_path e)) ` set es) (types_of es) ns
      = Inr () \<longleftrightarrow>
     (\<forall>e\<in>set ns. validate_bundle_path nfc (fe_path e) = Inr ()) \<and>
     sorted_wrt (<) (map fe_path (es @ ns)) \<and>
     (\<forall>e\<in>set ns. to_ascii_lowercase (fe_path e) \<notin> (\<lambda>e. to_ascii_lowercase (fe_path e)) ` set es) \<and>
     distinct (map (\<lambda>e. to_ascii_lowercase (fe_path e)) ns) \<and>
     (\<forall>i<length ns. parent_declared (es @ take i ns) (ns ! i))"
  using assms
proof (induction ns arbitrary: es)
  case (Cons e ns)
  let ?f = "\<lambda>e. to_ascii_lowercase (fe_path e)"
  have dist: "distinct (map fe_path es)" using Cons.prems strict_sorted_iff by blast
  have *: "(\<forall>i<length (e # ns). parent_declared (es @ take i (e # ns)) ((e # ns) ! i)) \<longleftrightarrow>
      parent_declared es e \<and> (\<forall>i<length ns. parent_declared ((es @ [e]) @ take i ns) (ns ! i))"
    by (simp add: All_less_Suc2)
  have img: "insert (?f e) (?f ` set es) = ?f ` set (es @ [e])" by simp
  show ?case
  proof (cases "sorted_wrt (<) (map fe_path (es @ [e]))")
    case False
    then have "\<not> sorted_wrt (<) (map fe_path (es @ e # ns))"
      by (auto simp: sorted_wrt_append)
    then show ?thesis using sorted_snoc_last[OF Cons.prems, of e] False
      by (auto simp: result_simps)
  next
    case True
    have IH: "tree_paths_loop nfc (Some (fe_path e)) (insert (?f e) (?f ` set es))
        ((types_of es)(fe_path e \<mapsto> fe_type e)) ns = Inr () \<longleftrightarrow>
     (\<forall>e\<in>set ns. validate_bundle_path nfc (fe_path e) = Inr ()) \<and>
     sorted_wrt (<) (map fe_path ((es @ [e]) @ ns)) \<and>
     (\<forall>e'\<in>set ns. ?f e' \<notin> ?f ` set (es @ [e])) \<and>
     distinct (map ?f ns) \<and>
     (\<forall>i<length ns. parent_declared ((es @ [e]) @ take i ns) (ns ! i))"
      using Cons.IH[OF True] unfolding last_path_snoc types_of_snoc img .
    have prev: "\<not> (case last_path es of Some value \<Rightarrow> fe_path e \<le> value | None \<Rightarrow> False)"
      using sorted_snoc_last[OF Cons.prems, of e] True by simp
    have coll: "(\<forall>e'\<in>set ns. ?f e' \<notin> ?f ` set (es @ [e])) \<longleftrightarrow>
       (\<forall>e'\<in>set ns. ?f e' \<notin> ?f ` set es) \<and> ?f e \<notin> ?f ` set ns"
      by (auto simp: image_iff)
    show ?thesis unfolding * tree_paths_loop.simps
      using IH[unfolded coll] prev parent_check[OF dist, of e] by (auto simp: result_simps)
  qed
qed simp


lemma tree_paths_iff:
  "validate_tree_paths nfc es = Inr () \<longleftrightarrow>
     (\<forall>e\<in>set es. validate_bundle_path nfc (fe_path e) = Inr ()) \<and>
     sorted_wrt (<) (map fe_path es) \<and>
     distinct (map (\<lambda>e. to_ascii_lowercase (fe_path e)) es) \<and>
     (\<forall>i<length es. parent_declared (take i es) (es ! i))"
  using tree_paths_loop_iff[of "[]" nfc es] by (simp add: validate_tree_paths_def types_of_def)

text \<open>In an accepted tree every ancestor of an entry is a declared directory.\<close>

lemma tree_ancestor_declared:
  assumes parents: "\<forall>i<length es. parent_declared (take i es) (es ! i)"
    and "i < length es" "split_on slash (fe_path (es ! i)) = ps @ qs" "ps \<noteq> []" "qs \<noteq> []"
  shows "\<exists>d\<in>set es. fe_path d = join_with slash ps \<and> fe_type d = Directory"
  using assms(2-)
proof (induction i arbitrary: qs rule: less_induct)
  case (less i)
  let ?s = "split_on slash (fe_path (es ! i))"
  have bl: "butlast ?s = ps @ butlast qs" using less.prems by (simp add: butlast_append)
  then have "rsplit_once slash (fe_path (es ! i)) = Some (join_with slash (ps @ butlast qs), last ?s)"
    using less.prems(3) unfolding rsplit_once_split bl by (cases ps) auto
  then obtain d where d: "d \<in> set (take i es)" "fe_path d = join_with slash (ps @ butlast qs)"
      "fe_type d = Directory"
    using parents less.prems(1) unfolding parent_declared_def by fastforce
  obtain j where j: "j < i" "j < length es" "es ! j = d"
    using d(1) by (auto simp: in_set_conv_nth)
  show ?case
  proof (cases "butlast qs = []")
    case True
    then show ?thesis using d j by (metis append_Nil2 nth_mem)
  next
    case False
    have "set (ps @ butlast qs) \<subseteq> set ?s"
      using less.prems(2) in_set_butlastD[of _ qs] by auto
    then have "split_on slash (fe_path d) = ps @ butlast qs"
      using d(2) split_join[of "ps @ butlast qs" slash] less.prems(3) split_on_no_sep[of _ slash] by auto
    then show ?thesis using less.IH[OF j(1)] j less.prems(3) False by simp
  qed
qed

section \<open>Accepted symbolic links\<close>

definition link_hop :: "nfc \<Rightarrow> (str \<rightharpoonup> file_entry) \<Rightarrow> file_entry \<Rightarrow> file_entry option" where
  "link_hop nfc by_path e = (case fe_target e of
     None \<Rightarrow> None
   | Some t \<Rightarrow> if validate_symlink_target nfc t = Inr ()
       then (case resolve_target (fe_path e) t of Inl _ \<Rightarrow> None | Inr r \<Rightarrow> by_path r) else None)"

fun resolves :: "nfc \<Rightarrow> (str \<rightharpoonup> file_entry) \<Rightarrow> nat \<Rightarrow> file_entry \<Rightarrow> file_entry \<Rightarrow> bool" where
  "resolves nfc by_path 0 e f = (e = f \<and> fe_type e \<noteq> SymlinkRelative)"
| "resolves nfc by_path (Suc n) e f =
     (fe_type e = SymlinkRelative \<and>
      (case link_hop nfc by_path e of None \<Rightarrow> False | Some e' \<Rightarrow> resolves nfc by_path n e' f))"

lemma resolves_unique: "resolves nfc by_path j e f \<Longrightarrow> resolves nfc by_path k e f' \<Longrightarrow> j = k"
proof (induction j arbitrary: e k)
  case 0
  then show ?case by (cases k) auto
next
  case (Suc j)
  then show ?case by (cases k) (auto split: option.splits)
qed

lemma link_hop_Some:
  "link_hop nfc by_path e = Some e' \<longleftrightarrow>
   (\<exists>t r. fe_target e = Some t \<and> validate_symlink_target nfc t = Inr () \<and>
          resolve_target (fe_path e) t = Inr r \<and> by_path r = Some e')"
  by (auto simp: link_hop_def split: option.splits sum.splits)

lemma follow_links_step:
  "follow_links nfc by_path (Suc n) e seen = Inr () \<longleftrightarrow>
     fe_type e \<noteq> SymlinkRelative \<or>
     fe_path e \<notin> set seen \<and> length seen < 16 \<and>
     (\<exists>e'. link_hop nfc by_path e = Some e' \<and> follow_links nfc by_path n e' (fe_path e # seen) = Inr ())"
  by (auto simp: result_simps link_hop_Some Let_def)

lemma follow_links_sound:
  "follow_links nfc by_path (Suc n) e seen = Inr () \<Longrightarrow> length seen + n = 16 \<Longrightarrow>
   \<exists>k f. k \<le> n \<and> resolves nfc by_path k e f"
proof (induction n arbitrary: e seen)
  case 0
  then have "fe_type e \<noteq> SymlinkRelative" unfolding follow_links_step by simp
  then show ?case by (intro exI[of _ 0] exI[of _ e]) simp
next
  case (Suc n)
  show ?case
  proof (cases "fe_type e = SymlinkRelative")
    case True
    obtain e' where e': "link_hop nfc by_path e = Some e'"
        "follow_links nfc by_path (Suc n) e' (fe_path e # seen) = Inr ()"
      using Suc.prems(1) True unfolding follow_links_step[of nfc by_path "Suc n"] by blast
    obtain k f where "k \<le> n" "resolves nfc by_path k e' f"
      using Suc.IH[OF e'(2)] Suc.prems(2) by auto
    then show ?thesis using True e'(1) by (intro exI[of _ "Suc k"] exI[of _ f]) simp
  qed (intro exI[of _ 0] exI[of _ e], simp)
qed

lemma follow_links_complete:
  assumes keys: "\<And>p e. by_path p = Some e \<Longrightarrow> fe_path e = p"
  shows "resolves nfc by_path k e f \<Longrightarrow> by_path (fe_path e) = Some e \<Longrightarrow> k < n \<Longrightarrow>
    k + length seen \<le> 16 \<Longrightarrow>
    (\<And>p. p \<in> set seen \<Longrightarrow> \<exists>j>k. \<exists>e' f'. by_path p = Some e' \<and> resolves nfc by_path j e' f') \<Longrightarrow>
    follow_links nfc by_path n e seen = Inr ()"
proof (induction k arbitrary: e n seen)
  case 0
  then show ?case by (cases n) auto
next
  case (Suc k)
  obtain m where n: "n = Suc m" using Suc.prems(3) by (cases n) auto
  obtain e' where e': "link_hop nfc by_path e = Some e'" "resolves nfc by_path k e' f"
    using Suc.prems(1) by (auto split: option.splits)
  have fresh: "fe_path e \<notin> set seen"
  proof
    assume "fe_path e \<in> set seen"
    then obtain j f' where "Suc k < j" "resolves nfc by_path j e f'"
      using Suc.prems(2,5) by fastforce
    then show False using resolves_unique[OF Suc.prems(1)] by blast
  qed
  have key: "by_path (fe_path e') = Some e'" using e'(1) keys by (auto simp: link_hop_Some)
  have "follow_links nfc by_path m e' (fe_path e # seen) = Inr ()"
  proof (rule Suc.IH[OF e'(2) key])
    show "\<exists>j>k. \<exists>e' f'. by_path p = Some e' \<and> resolves nfc by_path j e' f'"
      if "p \<in> set (fe_path e # seen)" for p
    proof (cases "p = fe_path e")
      case True
      then show ?thesis using Suc.prems(1,2) by (intro exI[of _ "Suc k"]) auto
    next
      case False
      then have "p \<in> set seen" using that by simp
      from Suc.prems(5)[OF this] obtain j where "Suc k < j"
        "\<exists>e' f'. by_path p = Some e' \<and> resolves nfc by_path j e' f'" by blast
      then show ?thesis by (intro exI[of _ j]) simp
    qed
  qed (use Suc.prems n in simp_all)
  then show ?case unfolding n follow_links_step using fresh e'(1) Suc.prems(4) by auto
qed

lemma entries_by_path_key: "entries_by_path es p = Some e \<Longrightarrow> fe_path e = p \<and> e \<in> set es"
  by (auto simp: entries_by_path_def dest: map_of_SomeD)

lemma entries_by_path_self:
  assumes "distinct (map fe_path es)" "e \<in> set es"
  shows "entries_by_path es (fe_path e) = Some e"
proof -
  have "distinct (map fst (rev (map (\<lambda>e. (fe_path e, e)) es)))"
    using assms(1) by (simp add: rev_map[symmetric] comp_def)
  then show ?thesis using assms(2) by (auto simp: entries_by_path_def)
qed

lemma symlinks_loop_iff:
  "symlinks_loop nfc by_path es = Inr () \<longleftrightarrow>
   (\<forall>e\<in>set es. fe_type e = SymlinkRelative \<longrightarrow> follow_links nfc by_path 17 e [] = Inr ())"
  by (induction es) (auto simp: result_simps split: if_splits)

lemma tree_paths_distinct: "validate_tree_paths nfc es = Inr () \<Longrightarrow> distinct (map fe_path es)"
  unfolding tree_paths_iff using strict_sorted_iff by blast

lemma symlinks_iff:
  assumes "validate_tree_paths nfc es = Inr ()"
  shows "validate_symlinks nfc es = Inr () \<longleftrightarrow>
    (\<forall>e\<in>set es. fe_type e = SymlinkRelative \<longrightarrow>
       (\<exists>n f. n \<le> 16 \<and> resolves nfc (entries_by_path es) n e f))"
proof -
  have "follow_links nfc (entries_by_path es) 17 e [] = Inr () \<longleftrightarrow>
      (\<exists>n f. n \<le> 16 \<and> resolves nfc (entries_by_path es) n e f)" if "e \<in> set es" for e
  proof
    have s: "17 = Suc (16::nat)" by simp
    assume a: "follow_links nfc (entries_by_path es) 17 e [] = Inr ()"
    from follow_links_sound[OF a[unfolded s]]
    show "\<exists>n f. n \<le> 16 \<and> resolves nfc (entries_by_path es) n e f" by simp
  next
    assume "\<exists>n f. n \<le> 16 \<and> resolves nfc (entries_by_path es) n e f"
    then obtain n f where n: "n \<le> 16" "resolves nfc (entries_by_path es) n e f" by blast
    show "follow_links nfc (entries_by_path es) 17 e [] = Inr ()"
    proof (rule follow_links_complete[OF _ n(2)])
      show "entries_by_path es (fe_path e) = Some e"
        using entries_by_path_self[OF tree_paths_distinct[OF assms] that] .
      show "fe_path e' = p" if "entries_by_path es p = Some e'" for p e'
        using entries_by_path_key[OF that] by simp
      show "n < 17" using n(1) by simp
      show "n + length [] \<le> 16" using n(1) by simp
    qed (simp only: list.set empty_iff)
  qed
  then show ?thesis unfolding validate_symlinks_def symlinks_loop_iff by blast
qed

section \<open>Symbolic links on the device\<close>

text \<open>
  The installer creates the links of a verified bundle with their targets as they are, so the
  kernel resolves them component by component, through the links it meets on the way. \<open>walk\<close> is
  that resolution inside an installed tree, from a directory \<open>d\<close> given by its components below the
  image root: a \<open>..\<close> at the image root leaves the bundle. Its first argument bounds the steps.
\<close>

datatype walk_result = Arrived "str list" | Escaped | NotFound | OutOfSteps

fun walk :: "(str \<rightharpoonup> file_entry) \<Rightarrow> nat \<Rightarrow> str list \<Rightarrow> str list \<Rightarrow> walk_result" where
  "walk by_path 0 d cs = OutOfSteps"
| "walk by_path (Suc n) d [] = Arrived d"
| "walk by_path (Suc n) d (c # cs) =
     (if is_dot c then walk by_path n d cs
      else if is_dotdot c then (if d = [] then Escaped else walk by_path n (butlast d) cs)
      else (case by_path (join_with slash (d @ [c])) of
          None \<Rightarrow> NotFound
        | Some e \<Rightarrow> (case fe_type e of
              Directory \<Rightarrow> walk by_path n (d @ [c]) cs
            | Regular \<Rightarrow> if cs = [] then Arrived (d @ [c]) else NotFound
            | SymlinkRelative \<Rightarrow> (case fe_target e of
                  None \<Rightarrow> NotFound
                | Some t \<Rightarrow> walk by_path n d (split_on slash t @ cs)))))"

text \<open>Every \<open>.\<close> and \<open>..\<close> of a target stands before its first name.\<close>

fun dots_first :: "str list \<Rightarrow> bool" where
  "dots_first [] = True"
| "dots_first (c # cs) = (if is_dot c \<or> is_dotdot c then dots_first cs
     else list_all (\<lambda>c. \<not> is_dot c \<and> \<not> is_dotdot c) cs)"

lemma walk_directories:
  assumes "\<And>qs rs. ps = qs @ rs \<Longrightarrow> qs \<noteq> [] \<Longrightarrow>
      \<exists>e. by_path (join_with slash (d @ qs)) = Some e \<and> fe_type e = Directory"
    and "\<And>c. c \<in> set ps \<Longrightarrow> \<not> is_dot c \<and> \<not> is_dotdot c"
    and "walk by_path n (d @ ps) cs = r"
  shows "\<exists>m. walk by_path m d (ps @ cs) = r"
  using assms
proof (induction ps arbitrary: d)
  case Nil
  then show ?case by auto
next
  case (Cons p ps)
  obtain e where e: "by_path (join_with slash (d @ [p])) = Some e" "fe_type e = Directory"
    using Cons.prems(1)[of "[p]" ps] by auto
  have "\<exists>m. walk by_path m (d @ [p]) (ps @ cs) = r"
  proof (rule Cons.IH)
    show "\<exists>e. by_path (join_with slash ((d @ [p]) @ qs)) = Some e \<and> fe_type e = Directory"
      if "ps = qs @ rs" "qs \<noteq> []" for qs rs
      using Cons.prems(1)[of "p # qs" rs] that by simp
  qed (use Cons.prems in simp_all)
  then obtain m where "walk by_path m (d @ [p]) (ps @ cs) = r" by blast
  then have "walk by_path (Suc m) d ((p # ps) @ cs) = r" using e Cons.prems(2)[of p] by simp
  then show ?case by blast
qed

lemma resolve_parts_names:
  "list_all (\<lambda>c. \<not> is_dot c \<and> \<not> is_dotdot c) cs \<Longrightarrow> resolve_parts d cs = Inr (d @ cs)"
  by (induction cs arbitrary: d) auto

text \<open>A target with its dots first climbs to an ancestor and descends from there.\<close>

lemma walk_dots_first:
  assumes "dots_first ts" "resolve_parts d ts = Inr parts"
  shows "\<exists>k names. parts = take k d @ names \<and> list_all (\<lambda>c. \<not> is_dot c \<and> \<not> is_dotdot c) names \<and>
     (\<forall>n r. walk by_path n (take k d) names = r \<longrightarrow> (\<exists>m. walk by_path m d ts = r))"
  using assms
proof (induction ts arbitrary: d)
  case Nil
  then show ?case by (intro exI[of _ "length d"] exI[of _ "[]"]) auto
next
  case (Cons t ts)
  consider (dot) "is_dot t" | (up) "\<not> is_dot t" "is_dotdot t" | (name) "\<not> is_dot t" "\<not> is_dotdot t"
    by blast
  then show ?case
  proof cases
    case dot
    then have "dots_first ts" "resolve_parts d ts = Inr parts" using Cons.prems by simp_all
    from Cons.IH[OF this] obtain k names where k: "parts = take k d @ names"
        "list_all (\<lambda>c. \<not> is_dot c \<and> \<not> is_dotdot c) names"
        "\<forall>n r. walk by_path n (take k d) names = r \<longrightarrow> (\<exists>m. walk by_path m d ts = r)" by blast
    have "\<exists>m. walk by_path m d (t # ts) = r" if w: "walk by_path n (take k d) names = r" for n r
    proof -
      obtain m where "walk by_path m d ts = r" using k(3) w by blast
      then have "walk by_path (Suc m) d (t # ts) = r" using dot by simp
      then show ?thesis by blast
    qed
    then show ?thesis using k(1,2) by blast
  next
    case up
    then have d: "d \<noteq> []" and "dots_first ts" "resolve_parts (butlast d) ts = Inr parts"
      using Cons.prems by (auto split: if_splits)
    from Cons.IH[OF this(2,3)] obtain k names where k: "parts = take k (butlast d) @ names"
        "list_all (\<lambda>c. \<not> is_dot c \<and> \<not> is_dotdot c) names"
        "\<forall>n r. walk by_path n (take k (butlast d)) names = r \<longrightarrow> (\<exists>m. walk by_path m (butlast d) ts = r)"
      by blast
    have tk: "take k (butlast d) = take (min k (length d - 1)) d"
      by (simp add: butlast_conv_take min.commute)
    have "\<exists>m. walk by_path m d (t # ts) = r" if w: "walk by_path n (take k (butlast d)) names = r" for n r
    proof -
      obtain m where "walk by_path m (butlast d) ts = r" using k(3) w by blast
      then have "walk by_path (Suc m) d (t # ts) = r" using up d by simp
      then show ?thesis by blast
    qed
    then show ?thesis using k(1,2) unfolding tk by blast
  next
    case name
    then have names: "list_all (\<lambda>c. \<not> is_dot c \<and> \<not> is_dotdot c) (t # ts)" using Cons.prems by simp
    then have "parts = d @ t # ts" using Cons.prems(2) resolve_parts_names[OF names, of d] by simp
    then show ?thesis using names by (intro exI[of _ "length d"] exI[of _ "t # ts"]) auto
  qed
qed


lemma tree_path_valid:
  "validate_tree_paths nfc es = Inr () \<Longrightarrow> e \<in> set es \<Longrightarrow> validate_bundle_path nfc (fe_path e) = Inr ()"
  unfolding tree_paths_iff by blast

lemma resolve_parts_set: "resolve_parts d ts = Inr parts \<Longrightarrow> set parts \<subseteq> set d \<union> set ts"
proof (induction ts arbitrary: d)
  case (Cons t ts)
  have "set (butlast d) \<subseteq> set d" by (auto dest: in_set_butlastD)
  then show ?case using Cons.prems Cons.IH[of d] Cons.IH[of "butlast d"] Cons.IH[of "d @ [t]"]
    by (auto split: if_splits)
qed simp

lemma resolve_target_split:
  assumes "resolve_target link t = Inr p"
  shows "\<exists>parts. resolve_parts (butlast (split_on slash link)) (split_on slash t) = Inr parts \<and>
     parts \<noteq> [] \<and> p = join_with slash parts \<and> split_on slash p = parts"
proof -
  obtain parts where parts: "resolve_parts (butlast (split_on slash link)) (split_on slash t) = Inr parts"
      "parts \<noteq> []" "p = join_with slash parts"
    using assms by (auto simp: resolve_target_def result_simps split: if_splits)
  have "slash \<notin> set x" if "x \<in> set parts" for x
    using resolve_parts_set[OF parts(1)] that split_on_no_sep[of x slash]
    by (auto dest: in_set_butlastD)
  then show ?thesis using parts split_join[of parts slash] by auto
qed

lemma ancestor_directory:
  assumes tree: "validate_tree_paths nfc es = Inr ()" and "e \<in> set es"
    and "split_on slash (fe_path e) = ps @ qs" "ps \<noteq> []" "qs \<noteq> []"
  shows "\<exists>d. entries_by_path es (join_with slash ps) = Some d \<and> fe_type d = Directory"
proof -
  have par: "\<forall>i<length es. parent_declared (take i es) (es ! i)" using tree by (simp add: tree_paths_iff)
  obtain i where i: "i < length es" "es ! i = e" using assms(2) by (auto simp: in_set_conv_nth)
  obtain d where "d \<in> set es" "fe_path d = join_with slash ps" "fe_type d = Directory"
    using tree_ancestor_declared[OF par i(1)] i(2) assms(3-) by blast
  then show ?thesis
    using entries_by_path_self[OF tree_paths_distinct[OF tree], of d] by (intro exI[of _ d]) simp
qed

lemma resolves_end:
  "resolves nfc (entries_by_path es) k e f \<Longrightarrow> e \<in> set es \<Longrightarrow> f \<in> set es \<and> fe_type f \<noteq> SymlinkRelative"
proof (induction k arbitrary: e)
  case (Suc k)
  then show ?case using entries_by_path_key[of es] by (fastforce simp: link_hop_Some split: option.splits)
qed simp

text \<open>The resolution of a link is the chain the validation has followed.\<close>

lemma walk_resolves:
  assumes tree: "validate_tree_paths nfc es = Inr ()"
    and first: "\<forall>e\<in>set es. fe_type e = SymlinkRelative \<longrightarrow>
      list_all dots_first (map (split_on slash) (case fe_target e of None \<Rightarrow> [] | Some t \<Rightarrow> [t]))"
    and "e \<in> set es" "resolves nfc (entries_by_path es) k e f"
  shows "\<exists>n. walk (entries_by_path es) n (butlast (split_on slash (fe_path e)))
             [last (split_on slash (fe_path e))] = Arrived (split_on slash (fe_path f))"
  using assms(3,4)
proof (induction k arbitrary: e)
  case 0
  let ?s = "split_on slash (fe_path e)"
  have valid: "validate_bundle_path nfc (fe_path e) = Inr ()" using tree_path_valid[OF tree 0(1)] .
  have pl: "plain_component (last ?s)" using bundle_path_plain[OF valid] by simp
  have key: "entries_by_path es (join_with slash (butlast ?s @ [last ?s])) = Some e"
    using entries_by_path_self[OF tree_paths_distinct[OF tree] 0(1)] by simp
  have "walk (entries_by_path es) (Suc (Suc 0)) (butlast ?s) [last ?s] = Arrived ?s"
    using key pl 0(2) by (auto simp: plain_component_def split: file_type.splits)
  moreover have "f = e" using 0(2) by simp
  ultimately show ?case by blast
next
  case (Suc k)
  let ?s = "split_on slash (fe_path e)"
  let ?b = "entries_by_path es"
  have valid: "validate_bundle_path nfc (fe_path e) = Inr ()" using tree_path_valid[OF tree Suc.prems(1)] .
  have pl: "plain_component (last ?s)" using bundle_path_plain[OF valid] by simp
  have key: "?b (join_with slash (butlast ?s @ [last ?s])) = Some e"
    using entries_by_path_self[OF tree_paths_distinct[OF tree] Suc.prems(1)] by simp
  obtain e' t p where sym: "fe_type e = SymlinkRelative" and t: "fe_target e = Some t"
      and p: "resolve_target (fe_path e) t = Inr p" "?b p = Some e'" and r: "resolves nfc ?b k e' f"
    using Suc.prems(2) by (auto simp: link_hop_Some split: option.splits)
  obtain parts where parts: "resolve_parts (butlast ?s) (split_on slash t) = Inr parts" "parts \<noteq> []"
      "p = join_with slash parts"
      and split: "split_on slash p = parts"
    using resolve_target_split[OF p(1)] by blast
  have e': "e' \<in> set es" "fe_path e' = p" using entries_by_path_key[OF p(2)] by simp_all
  have "dots_first (split_on slash t)" using first Suc.prems(1) sym t by fastforce
  from walk_dots_first[OF this parts(1), of ?b] obtain j names where j:
      "parts = take j (butlast ?s) @ names" "list_all (\<lambda>c. \<not> is_dot c \<and> \<not> is_dotdot c) names"
      "\<forall>n r. walk ?b n (take j (butlast ?s)) names = r \<longrightarrow> (\<exists>m. walk ?b m (butlast ?s) (split_on slash t) = r)"
    by blast
  have "\<exists>n. walk ?b n (take j (butlast ?s)) names = Arrived (split_on slash (fe_path f))"
  proof (cases names rule: rev_cases)
    case Nil
    then have pre: "?s = parts @ drop j (butlast ?s) @ [last ?s]" using j(1)
      by (metis append.assoc append_Nil2 append_butlast_last_id append_take_drop_id split_on_not_Nil)
    then obtain d where "?b p = Some d" "fe_type d = Directory"
      using ancestor_directory[OF tree Suc.prems(1) pre] parts(2,3) by auto
    then have "f = e'" using p(2) r by (cases k) auto
    then have "walk ?b (Suc 0) (take j (butlast ?s)) names = Arrived (split_on slash (fe_path f))"
      using Nil j(1) e'(2) split by simp
    then show ?thesis by blast
  next
    case (snoc ns n)
    have sp: "split_on slash (fe_path e') = (take j (butlast ?s) @ ns) @ [n]"
      using e'(2) split j(1) snoc by simp
    obtain m where m: "walk ?b m (take j (butlast ?s) @ ns) [n] = Arrived (split_on slash (fe_path f))"
      using Suc.IH[OF e'(1) r] unfolding sp butlast_snoc last_snoc by blast
    have dirs: "\<exists>d. ?b (join_with slash (take j (butlast ?s) @ qs)) = Some d \<and> fe_type d = Directory"
      if "ns = qs @ rs" "qs \<noteq> []" for qs rs
      using ancestor_directory[OF tree e'(1), of "take j (butlast ?s) @ qs" "rs @ [n]"] sp that by simp
    show ?thesis using walk_directories[OF dirs _ m] j(2) snoc by (auto simp: list_all_iff)
  qed
  then obtain m where "walk ?b m (butlast ?s) (split_on slash t) = Arrived (split_on slash (fe_path f))"
    using j(3) by blast
  then have "walk ?b (Suc m) (butlast ?s) [last ?s] = Arrived (split_on slash (fe_path f))"
    using key pl sym t by (simp add: plain_component_def)
  then show ?case by blast
qed


lemma walk_stays_inside:
  assumes tree: "validate_tree_paths nfc es = Inr ()"
    and links: "validate_symlinks nfc es = Inr ()"
    and first: "\<forall>e\<in>set es. fe_type e = SymlinkRelative \<longrightarrow>
      (case fe_target e of None \<Rightarrow> True | Some t \<Rightarrow> dots_first (split_on slash t))"
    and e: "e \<in> set es"
  shows "\<exists>n f. f \<in> set es \<and> fe_type f \<noteq> SymlinkRelative \<and>
    walk (entries_by_path es) n [] (split_on slash (fe_path e)) = Arrived (split_on slash (fe_path f))"
proof -
  obtain k f where k: "resolves nfc (entries_by_path es) k e f"
  proof (cases "fe_type e = SymlinkRelative")
    case True
    then show ?thesis using that links e unfolding symlinks_iff[OF tree] by blast
  next
    case False
    then show ?thesis using that[of 0 e] by simp
  qed
  have first': "\<forall>e\<in>set es. fe_type e = SymlinkRelative \<longrightarrow>
      list_all dots_first (map (split_on slash) (case fe_target e of None \<Rightarrow> [] | Some t \<Rightarrow> [t]))"
    using first by (auto split: option.splits)
  let ?s = "split_on slash (fe_path e)"
  obtain n where n: "walk (entries_by_path es) n (butlast ?s) [last ?s] = Arrived (split_on slash (fe_path f))"
    using walk_resolves[OF tree first' e k] by blast
  have valid: "validate_bundle_path nfc (fe_path e) = Inr ()" using tree_path_valid[OF tree e] .
  have "\<exists>m. walk (entries_by_path es) m [] (butlast ?s @ [last ?s]) = Arrived (split_on slash (fe_path f))"
  proof (rule walk_directories)
    show "\<exists>d. entries_by_path es (join_with slash ([] @ qs)) = Some d \<and> fe_type d = Directory"
      if "butlast ?s = qs @ rs" "qs \<noteq> []" for qs rs
      using ancestor_directory[OF tree e, of qs "rs @ [last ?s]"] that
      append_butlast_last_id[of ?s] by simp
    show "\<not> is_dot c \<and> \<not> is_dotdot c" if "c \<in> set (butlast ?s)" for c
      using bundle_path_plain[OF valid in_set_butlastD[OF that]] by (simp add: plain_component_def)
    show "walk (entries_by_path es) n ([] @ butlast ?s) [last ?s] = Arrived (split_on slash (fe_path f))"
      using n by simp
  qed
  then show ?thesis using resolves_end[OF k] e by auto
qed

section \<open>Properties\<close>

definition link_entry :: "str \<Rightarrow> str \<Rightarrow> file_entry" where
  "link_entry p t = \<lparr>fe_path = p, fe_type = SymlinkRelative, fe_mode = None, fe_size = None,
     fe_file_digest = None, fe_block_refs = None, fe_target = Some t\<rparr>"

definition linked_tree :: "file_entry list" where
  "linked_tree = [file_entry_directory (lit ''bin''), file_entry_directory (lit ''lib''),
     link_entry (lit ''lib/a'') (lit ''./b''), link_entry (lit ''lib/b'') (lit ''../bin'')]"

definition escaping_tree :: "file_entry list" where
  "escaping_tree =
     [file_entry_directory (lit ''d''), file_entry_directory (lit ''f''),
      file_entry_directory (lit ''x''), file_entry_directory (lit ''x/y''),
      link_entry (lit ''x/y/dl'') (lit ''../../d''),
      link_entry (lit ''x/y/link'') (lit ''dl/../../../f'')]"

definition ascii_chars :: "u32 list \<Rightarrow> bool" where
  "ascii_chars cs = list_all (\<lambda>c. c < 0x80) cs"

definition ascii_stable :: "nfc \<Rightarrow> bool" where
  "ascii_stable nfc = (\<forall>cs. ascii_chars cs \<longrightarrow> nfc cs = cs)"

definition ascii_entry :: "file_entry \<Rightarrow> bool" where
  "ascii_entry e = (ascii_chars (chars (fe_path e)) \<and>
     (case fe_target e of None \<Rightarrow> True | Some t \<Rightarrow> ascii_chars (chars t)))"

lemma ascii_bundle_path:
  assumes nfc: "ascii_stable nfc" and "ascii_chars (chars p)"
  shows "validate_bundle_path nfc p = validate_bundle_path (\<lambda>cs. cs) p"
  and "validate_symlink_target nfc p = validate_symlink_target (\<lambda>cs. cs) p"
  using assms
  by (simp_all add: validate_bundle_path_def validate_symlink_target_def validate_nfc_text_def ascii_stable_def)

lemma ascii_tree_paths_loop:
  assumes nfc: "ascii_stable nfc"
  shows "list_all ascii_entry es \<Longrightarrow>
    tree_paths_loop nfc previous folded types es = tree_paths_loop (\<lambda>cs. cs) previous folded types es"
  by (induction es arbitrary: previous folded types)
    (simp_all add: ascii_entry_def ascii_bundle_path(1)[OF nfc] cong: if_cong)

lemma ascii_follow_links:
  assumes nfc: "ascii_stable nfc"
    and by_path: "\<And>p e. by_path p = Some e \<Longrightarrow> ascii_entry e"
  shows "ascii_entry e \<Longrightarrow> follow_links nfc by_path n e seen = follow_links (\<lambda>cs. cs) by_path n e seen"
proof (induction n arbitrary: e seen)
  case (Suc n)
  have "rbind (ok_or (by_path r) EPath) (\<lambda>next. follow_links nfc by_path n next seen') =
        rbind (ok_or (by_path r) EPath) (\<lambda>next. follow_links (\<lambda>cs. cs) by_path n next seen')" for r seen'
    using Suc.IH by_path by (cases "by_path r") simp_all
  then show ?case
    using Suc.prems by (cases "fe_target e") (simp_all add: ascii_entry_def ascii_bundle_path(2)[OF nfc])
qed simp

lemma ascii_tree:
  assumes nfc: "ascii_stable nfc" and es: "list_all ascii_entry es"
  shows "validate_tree_paths nfc es = validate_tree_paths (\<lambda>cs. cs) es"
    and "validate_symlinks nfc es = validate_symlinks (\<lambda>cs. cs) es"
proof -
  have by_path: "ascii_entry e" if "entries_by_path es p = Some e" for p e
    using entries_by_path_key[OF that] es by (simp add: list_all_iff)
  have follow: "follow_links nfc (entries_by_path es) n e seen = follow_links (\<lambda>cs. cs) (entries_by_path es) n e seen"
    if "ascii_entry e" for n e seen
    using ascii_follow_links[OF nfc _ that] by_path by blast
  have "symlinks_loop nfc (entries_by_path es) ns = symlinks_loop (\<lambda>cs. cs) (entries_by_path es) ns"
    if "list_all ascii_entry ns" for ns
    using that by (induction ns) (simp_all add: follow)
  then show "validate_symlinks nfc es = validate_symlinks (\<lambda>cs. cs) es"
    using es by (simp add: validate_symlinks_def)
qed (simp add: validate_tree_paths_def ascii_tree_paths_loop[OF nfc es])

text \<open>
  C28: A tree is accepted by \<open>validate_tree_paths\<close> exactly when every path is acceptable, the paths
  are in strictly increasing byte order, no two of them are equal up to ASCII case, and the parent
  of every entry is a directory that an earlier entry declares.
\<close>

theorem tree_paths_exact:
  "validate_tree_paths nfc es = Inr () \<longleftrightarrow>
     (\<forall>e\<in>set es. validate_bundle_path nfc (fe_path e) = Inr ()) \<and>
     sorted_wrt (<) (map fe_path es) \<and>
     distinct (map (\<lambda>e. to_ascii_lowercase (fe_path e)) es) \<and>
     (\<forall>i<length es. parent_declared (take i es) (es ! i))"
  by (rule tree_paths_iff)

lemma linked_tree_accepted: "validate_tree_paths (\<lambda>cs. cs) linked_tree = Inr ()"
  by code_simp

theorem tree_paths_exact_witness:
  "sorted_wrt (<) (map fe_path linked_tree) \<and>
   distinct (map (\<lambda>e. to_ascii_lowercase (fe_path e)) linked_tree) \<and>
   parent_declared (take 2 linked_tree) (linked_tree ! 2)"
proof -
  have "2 < length linked_tree" by (simp add: linked_tree_def)
  then show ?thesis
    using tree_paths_exact[of "\<lambda>cs. cs" linked_tree] linked_tree_accepted by blast
qed

text \<open>
  C29: In an accepted tree \<open>validate_symlinks\<close> accepts exactly when every link leads, in at most 16
  hops over acceptable targets, to a declared entry that is not a link. In particular there is no
  dangling link and no cycle.
\<close>

theorem symlinks_exact:
  assumes "validate_tree_paths nfc es = Inr ()"
  shows "validate_symlinks nfc es = Inr () \<longleftrightarrow>
    (\<forall>e\<in>set es. fe_type e = SymlinkRelative \<longrightarrow>
       (\<exists>n f. n \<le> 16 \<and> resolves nfc (entries_by_path es) n e f))"
  by (rule symlinks_iff[OF assms])

lemma linked_tree_links: "validate_symlinks (\<lambda>cs. cs) linked_tree = Inr ()"
  by code_simp

theorem symlinks_exact_witness:
  "\<exists>n f. n \<le> 16 \<and> resolves (\<lambda>cs. cs) (entries_by_path linked_tree) n (linked_tree ! 2) f"
proof -
  have "linked_tree ! 2 \<in> set linked_tree" "fe_type (linked_tree ! 2) = SymlinkRelative"
    by (simp_all add: linked_tree_def link_entry_def)
  then show ?thesis
    using symlinks_exact[OF linked_tree_accepted] linked_tree_links by blast
qed

text \<open>
  C30: In an accepted tree whose targets have their \<open>.\<close> and \<open>..\<close> components before the first name,
  the kernel's resolution of every entry stays inside the bundle and ends at a declared entry that
  is not a link.
\<close>

theorem symlinks_confined:
  assumes tree: "validate_tree_paths nfc es = Inr ()"
    and links: "validate_symlinks nfc es = Inr ()"
    and first: "\<forall>e\<in>set es. fe_type e = SymlinkRelative \<longrightarrow>
      (case fe_target e of None \<Rightarrow> True | Some t \<Rightarrow> dots_first (split_on slash t))"
    and e: "e \<in> set es"
  shows "\<exists>n f. f \<in> set es \<and> fe_type f \<noteq> SymlinkRelative \<and>
    walk (entries_by_path es) n [] (split_on slash (fe_path e)) = Arrived (split_on slash (fe_path f))"
  by (rule walk_stays_inside[OF assms])

theorem symlinks_confined_witness:
  "\<exists>n f. f \<in> set linked_tree \<and> fe_type f \<noteq> SymlinkRelative \<and>
    walk (entries_by_path linked_tree) n [] (split_on slash (lit ''lib/a'')) = Arrived (split_on slash (fe_path f))"
proof -
  have "linked_tree ! 2 \<in> set linked_tree" "fe_path (linked_tree ! 2) = lit ''lib/a''"
    by (simp_all add: linked_tree_def link_entry_def)
  moreover have "\<forall>e\<in>set linked_tree. fe_type e = SymlinkRelative \<longrightarrow>
      (case fe_target e of None \<Rightarrow> True | Some t \<Rightarrow> dots_first (split_on slash t))"
    by code_simp
  ultimately show ?thesis
    using symlinks_confined[OF linked_tree_accepted linked_tree_links, of "linked_tree ! 2"] by simp
qed

text \<open>
  C31: Without that restriction the validation does not confine the links: it resolves \<open>..\<close> on the
  names of a target, so a \<open>..\<close> behind a component that is itself a link climbs out of the directory
  that link points to. There is a tree both validations accept in which the kernel's resolution of a
  link leaves the bundle. Normalization is only assumed to keep ASCII text.
\<close>

theorem symlink_escape:
  assumes "ascii_stable nfc"
  shows "validate_tree_paths nfc escaping_tree = Inr () \<and> validate_symlinks nfc escaping_tree = Inr () \<and>
    lit ''x/y/link'' \<in> set (map fe_path escaping_tree) \<and>
    walk (entries_by_path escaping_tree) 20 [] (split_on slash (lit ''x/y/link'')) = Escaped"
proof -
  have "list_all ascii_entry escaping_tree" by code_simp
  note eq = ascii_tree[OF assms this]
  have "validate_tree_paths (\<lambda>x. x) escaping_tree = Inr ()"
    "validate_symlinks (\<lambda>x. x) escaping_tree = Inr ()"
    "walk (entries_by_path escaping_tree) 20 [] (split_on slash (lit ''x/y/link'')) = Escaped"
    by code_simp+
  moreover have "lit ''x/y/link'' \<in> set (map fe_path escaping_tree)"
    by (simp add: escaping_tree_def link_entry_def)
  ultimately show ?thesis unfolding eq by blast
qed

theorem symlink_escape_witness:
  "validate_tree_paths (\<lambda>cs. cs) escaping_tree = Inr () \<and>
   walk (entries_by_path escaping_tree) 20 [] (split_on slash (lit ''x/y/link'')) = Escaped"
  using symlink_escape[of "\<lambda>cs. cs"] by (simp add: ascii_stable_def)

end
