(* ===== verification/Sync_Path.thy ===== *)
theory Sync_Path
  imports Bundle_Path
begin

text \<open>
  Logical paths below the sync root, \<open>crates/kindlebridge-schema/src/sync_path.rs\<close>. A
  \<open>LogicalSyncPath\<close> is the string it wraps.
\<close>

type_synonym logical_sync_path = str

definition MAX_PATH_BYTES :: nat where "MAX_PATH_BYTES = 1024"
definition MAX_COMPONENT_BYTES :: nat where "MAX_COMPONENT_BYTES = 255"

datatype logical_sync_path_error =
  NotRelative | TooLong | ComponentTooLong | InvalidComponent | ControlCharacter | NotNfc

fun check_sync_components :: "str list \<Rightarrow> logical_sync_path_error + unit" where
  "check_sync_components [] = Inr ()"
| "check_sync_components (component # components) =
     (if component = [] \<or> is_dot component \<or> is_dotdot component then Inl InvalidComponent
      else if MAX_COMPONENT_BYTES < length component then Inl ComponentTooLong
      else check_sync_components components)"

definition sync_path_parse :: "nfc \<Rightarrow> str \<Rightarrow> logical_sync_path_error + logical_sync_path" where
  "sync_path_parse nfc value =
     (if value = [] \<or> starts_with [slash] value \<or> backslash \<in> set value then Inl NotRelative
      else if MAX_PATH_BYTES < length value then Inl TooLong
      else if list_ex char_is_control (chars value) then Inl ControlCharacter
      else if nfc (chars value) \<noteq> chars value then Inl NotNfc
      else rbind (check_sync_components (split_on slash value)) (\<lambda>_. Inr value))"

definition ascii_case_fold_key :: "logical_sync_path \<Rightarrow> str" where
  "ascii_case_fold_key p = to_ascii_lowercase p"

lemma check_sync_components_iff:
  "check_sync_components cs = Inr () \<longleftrightarrow>
     (\<forall>c\<in>set cs. c \<noteq> [] \<and> \<not> is_dot c \<and> \<not> is_dotdot c \<and> length c \<le> MAX_COMPONENT_BYTES)"
  by (induction cs) auto

lemma sync_path_parse_iff:
  "sync_path_parse nfc v = Inr p \<longleftrightarrow> p = v \<and> v \<noteq> [] \<and> backslash \<notin> set v \<and> length v \<le> MAX_PATH_BYTES \<and>
     \<not> list_ex char_is_control (chars v) \<and> nfc (chars v) = chars v \<and>
     (\<forall>c\<in>set (split_on slash v). plain_component c)"
proof -
  have "\<not> starts_with [slash] v" if "\<forall>c\<in>set (split_on slash v). c \<noteq> []"
    using that by (cases v) (auto simp: starts_with_def)
  then show ?thesis
    by (auto simp: sync_path_parse_def result_simps check_sync_components_iff plain_component_def
        MAX_COMPONENT_BYTES_def split_on_no_sep)
qed

text \<open>
  C32: A parsed sync path is the given string, of 1 to 1024 bytes, and resolving it below any
  directory descends by exactly its components: it contains no empty, \<open>.\<close> or \<open>..\<close> component, so no
  suffix of it leaves the directory.
\<close>

theorem sync_path_confined:
  assumes "sync_path_parse nfc v = Inr p"
  shows "p = v \<and> 1 \<le> length p \<and> length p \<le> 1024 \<and>
    resolve_parts root (split_on slash p) = Inr (root @ split_on slash p) \<and>
    join_with slash (split_on slash p) = p \<and>
    (\<forall>c\<in>set (split_on slash p). plain_component c) \<and> sync_path_parse nfc p = Inr p"
proof -
  have p: "p = v" "v \<noteq> []" "length v \<le> 1024" "\<forall>c\<in>set (split_on slash v). plain_component c"
    using assms unfolding sync_path_parse_iff by (simp_all add: MAX_PATH_BYTES_def)
  have "list_all (\<lambda>c. \<not> is_dot c \<and> \<not> is_dotdot c) (split_on slash v)"
    using p(4) by (simp add: list_all_iff plain_component_def)
  then show ?thesis using p assms resolve_parts_names by (simp add: Suc_le_eq)
qed

theorem sync_path_confined_witness:
  "resolve_parts [lit ''sync''] (split_on slash (lit ''a/b'')) = Inr [lit ''sync'', lit ''a'', lit ''b'']"
proof -
  have "sync_path_parse (\<lambda>cs. cs) (lit ''a/b'') = Inr (lit ''a/b'')" by code_simp
  from sync_path_confined[OF this, of "[lit ''sync'']"]
  have "resolve_parts [lit ''sync''] (split_on slash (lit ''a/b'')) =
      Inr ([lit ''sync''] @ split_on slash (lit ''a/b''))" by blast
  moreover have "split_on slash (lit ''a/b'') = [lit ''a'', lit ''b'']" by code_simp
  ultimately show ?thesis by simp
qed

section \<open>Bundle paths are sync paths\<close>

lemma utf8_next_append: "utf8_next a = Some (c, r) \<Longrightarrow> utf8_next (a @ s) = Some (c, r @ s)"
  by (cases a) (auto split: if_splits list.splits)

lemma slash_not_cont [simp]: "is_cont slash = False" "utf8_second b slash = False"
  by (simp_all add: is_cont_def utf8_second_def)

lemma slash_width [simp]: "utf8_char_width slash = 1"
  by (simp add: utf8_char_width_def)

lemma utf8_next_sep:
  assumes "utf8_next a = None" "a \<noteq> []"
  shows "utf8_next (a @ slash # b) = None"
proof -
  obtain b0 r where a: "a = b0 # r" using assms(2) by (cases a) auto
  consider "r = []" | b1 where "r = [b1]" | b1 b2 where "r = [b1, b2]" | b1 b2 b3 r' where "r = b1 # b2 # b3 # r'"
    by (metis list.exhaust)
  then show ?thesis
    using assms(1) unfolding a by cases (auto split: if_split_asm list.split)
qed

lemma utf8_decode_sep:
  "utf8_decode (a @ slash # b) = (case utf8_decode a of
     None \<Rightarrow> None | Some x \<Rightarrow> map_option (\<lambda>y. x @ 0x2f # y) (utf8_decode b))"
proof (induction a rule: utf8_decode.induct)
  case (1 a)
  show ?case
  proof (cases "a = []")
    case True
    then show ?thesis by (simp add: utf8_decode.simps[of "slash # b"] utf8_decode.simps[of "[]"])
  next
    case False
    show ?thesis
    proof (cases "utf8_next a")
      case None
      then show ?thesis using utf8_next_sep[OF None False, of b] False
        by (simp add: utf8_decode.simps[of a] utf8_decode.simps[of "a @ slash # b"])
    next
      case (Some q)
      obtain c r where q: "q = (c, r)" by (cases q)
      have n: "utf8_next a = Some (c, r)" using Some q by simp
      show ?thesis using utf8_next_append[OF n, of "slash # b"] False 1[OF False n] n
        by (simp add: utf8_decode.simps[of a] utf8_decode.simps[of "a @ slash # b"] option.map_comp comp_def split: option.splits)
    qed
  qed
qed

lemma chars_components:
  "is_utf8 p \<Longrightarrow> c \<in> set (chars p) \<Longrightarrow> c = 0x2f \<or> (\<exists>s\<in>set (split_on slash p). c \<in> set (chars s))"
proof (induction "length p" arbitrary: p rule: less_induct)
  case less
  show ?case
  proof (cases "slash \<in> set p")
    case False
    then show ?thesis using less.prems by (simp add: split_on_absent)
  next
    case True
    then obtain a b where p: "p = a @ slash # b" by (auto simp: in_set_conv_decomp)
    then obtain x y where xy: "utf8_decode a = Some x" "utf8_decode b = Some y"
      using less.prems(1) by (auto simp: is_utf8_def utf8_decode_sep split: option.splits)
    then have "chars p = x @ 0x2f # y" "chars a = x" "chars b = y"
      by (simp_all add: chars_def p utf8_decode_sep)
    then show ?thesis
      using less.hyps[of a] less.hyps[of b] less.prems(2) xy
      by (auto simp: p split_on_append is_utf8_def)
  qed
qed

text \<open>
  Every path that a bundle may contain is a path that can be synchronized: the rules for
  bundle paths imply those for sync paths.
\<close>

theorem bundle_path_is_sync_path:
  assumes "validate_bundle_path nfc p = Inr ()" "is_utf8 p"
  shows "sync_path_parse nfc p = Inr p"
proof -
  have len: "1 \<le> length p" "length p \<le> 1024" "nfc (chars p) = chars p" "backslash \<notin> set p"
    and comps: "validate_components False (split_on slash p) = Inr ()"
    using assms(1) by (auto simp: validate_bundle_path_def validate_nfc_text_def split: if_splits)
  have "\<not> char_is_control c" if c: "c \<in> set (chars p)" for c
  proof -
    consider "c = 0x2f" | s where "s \<in> set (split_on slash p)" "c \<in> set (chars s)"
      using chars_components[OF assms(2) c] by blast
    then show ?thesis
    proof cases
      case 2
      then have "validate_component s False = Inr ()" using comps by (simp add: validate_components_all)
      then show ?thesis using 2 by (auto simp: validate_component_def list_ex_iff split: if_splits)
    qed (simp add: char_is_control_def)
  qed
  then show ?thesis
    using len bundle_path_plain[OF assms(1)]
    by (auto simp: sync_path_parse_iff MAX_PATH_BYTES_def list_ex_iff)
qed

theorem bundle_path_is_sync_path_witness:
  "sync_path_parse (\<lambda>cs. cs) (lit ''bin/reader'') = Inr (lit ''bin/reader'')"
proof -
  have "validate_bundle_path (\<lambda>cs. cs) (lit ''bin/reader'') = Inr ()" "is_utf8 (lit ''bin/reader'')"
    by code_simp+
  then show ?thesis by (rule bundle_path_is_sync_path)
qed

end
