(* ===== verification/Bundle_Header.thy ===== *)
theory Bundle_Header
  imports Bundle_Model
begin

text \<open>
  The fixed header of a bundle file, \<open>crates/kindlebridge-bundle/src/header.rs\<close>. The checksum is the
  function \<open>crc32c\<close> of the crate of that name, a parameter \<open>crc\<close> of the model.
\<close>

definition KBB_HEADER_SIZE :: nat where "KBB_HEADER_SIZE = 128"
definition KBB_MAGIC :: bytes where
  "KBB_MAGIC = [0x4b, 0x42, 0x42, 0x31, 0x0d, 0x0a, 0x1a, 0x0a]"
definition FORMAT_MAJOR :: u16 where "FORMAT_MAJOR = 1"
definition FORMAT_MINOR :: u16 where "FORMAT_MINOR = 0"
definition MAX_ENVELOPE_LENGTH :: u64 where "MAX_ENVELOPE_LENGTH = 16 * 1024 * 1024"
definition MAX_SIGNATURE_LENGTH :: u64 where "MAX_SIGNATURE_LENGTH = 1024 * 1024"
definition MAX_PAYLOAD_LENGTH :: u64 where "MAX_PAYLOAD_LENGTH = 8 * 1024 * 1024 * 1024"

record kbb_header =
  kh_envelope_length :: u64
  kh_signature_offset :: u64
  kh_signature_length :: u64
  kh_payload_offset :: u64
  kh_payload_length :: u64
  kh_bundle_root :: digest

definition checked_add_u64 :: "u64 \<Rightarrow> u64 \<Rightarrow> u64 option" where
  "checked_add_u64 a b = (if unat a + unat b < 2 ^ 64 then Some (a + b) else None)"

definition align8 :: "u64 \<Rightarrow> u64 bundle_result" where
  "align8 value = ok_or (map_option (\<lambda>rounded. rounded AND NOT 7) (checked_add_u64 value 7)) EBounds"

definition kbb_read_u16 :: "bytes \<Rightarrow> nat \<Rightarrow> u16" where
  "kbb_read_u16 bs off = of_le_bytes (sub_slice off 2 bs)"
definition kbb_read_u32 :: "bytes \<Rightarrow> nat \<Rightarrow> u32" where
  "kbb_read_u32 bs off = of_le_bytes (sub_slice off 4 bs)"
definition kbb_read_u64 :: "bytes \<Rightarrow> nat \<Rightarrow> u64" where
  "kbb_read_u64 bs off = of_le_bytes (sub_slice off 8 bs)"
definition kbb_put_u16 :: "bytes \<Rightarrow> nat \<Rightarrow> u16 \<Rightarrow> bytes" where
  "kbb_put_u16 bs off v = put_at off (le_bytes 2 v) bs"
definition kbb_put_u32 :: "bytes \<Rightarrow> nat \<Rightarrow> u32 \<Rightarrow> bytes" where
  "kbb_put_u32 bs off v = put_at off (le_bytes 4 v) bs"
definition kbb_put_u64 :: "bytes \<Rightarrow> nat \<Rightarrow> u64 \<Rightarrow> bytes" where
  "kbb_put_u64 bs off v = put_at off (le_bytes 8 v) bs"

definition kbb_decode :: "(bytes \<Rightarrow> u32) \<Rightarrow> bytes \<Rightarrow> u64 \<Rightarrow> kbb_header bundle_result" where
  "kbb_decode crc bs file_length =
     (if sub_slice 0 8 bs \<noteq> KBB_MAGIC then Inl EHeader
      else if kbb_read_u16 bs 8 \<noteq> FORMAT_MAJOR \<or> kbb_read_u16 bs 10 \<noteq> FORMAT_MINOR
         \<or> kbb_read_u16 bs 12 \<noteq> of_nat KBB_HEADER_SIZE \<or> kbb_read_u16 bs 14 \<noteq> 0
         \<or> kbb_read_u64 bs 16 \<noteq> of_nat KBB_HEADER_SIZE
      then Inl EHeader
      else if list_ex (\<lambda>b. b \<noteq> 0) (drop 100 bs) then Inl EHeader
      else
        let envelope_length = kbb_read_u64 bs 24;
            signature_offset = kbb_read_u64 bs 32;
            signature_length = kbb_read_u64 bs 40;
            payload_offset = kbb_read_u64 bs 48;
            payload_length = kbb_read_u64 bs 56 in
        if \<not> (1 \<le> envelope_length \<and> envelope_length \<le> MAX_ENVELOPE_LENGTH)
           \<or> \<not> (1 \<le> signature_length \<and> signature_length \<le> MAX_SIGNATURE_LENGTH)
           \<or> MAX_PAYLOAD_LENGTH < payload_length
        then Inl EBounds
        else
          rbind (ok_or (checked_add_u64 (of_nat KBB_HEADER_SIZE) envelope_length) EBounds) (\<lambda>envelope_end.
          rbind (align8 envelope_end) (\<lambda>canonical_signature.
          rbind (ok_or (checked_add_u64 signature_offset signature_length) EBounds) (\<lambda>signature_end.
          rbind (align8 signature_end) (\<lambda>canonical_payload.
          rbind (ok_or (checked_add_u64 payload_offset payload_length) EBounds) (\<lambda>canonical_file_length.
            if signature_offset \<noteq> canonical_signature \<or> payload_offset \<noteq> canonical_payload
               \<or> file_length \<noteq> canonical_file_length
            then Inl EHeader
            else if crc (put_at 96 [0, 0, 0, 0] bs) \<noteq> kbb_read_u32 bs 96 then Inl EHeader
            else Inr \<lparr>kh_envelope_length = envelope_length, kh_signature_offset = signature_offset,
                      kh_signature_length = signature_length, kh_payload_offset = payload_offset,
                      kh_payload_length = payload_length, kh_bundle_root = sub_slice 64 32 bs\<rparr>))))))"

definition kbb_fields :: "kbb_header \<Rightarrow> bytes" where
  "kbb_fields h =
     (let b = put_at 0 KBB_MAGIC (replicate KBB_HEADER_SIZE 0);
          b = kbb_put_u16 b 8 FORMAT_MAJOR;
          b = kbb_put_u16 b 10 FORMAT_MINOR;
          b = kbb_put_u16 b 12 (of_nat KBB_HEADER_SIZE);
          b = kbb_put_u64 b 16 (of_nat KBB_HEADER_SIZE);
          b = kbb_put_u64 b 24 (kh_envelope_length h);
          b = kbb_put_u64 b 32 (kh_signature_offset h);
          b = kbb_put_u64 b 40 (kh_signature_length h);
          b = kbb_put_u64 b 48 (kh_payload_offset h);
          b = kbb_put_u64 b 56 (kh_payload_length h)
      in put_at 64 (kh_bundle_root h) b)"

definition kbb_encode :: "(bytes \<Rightarrow> u32) \<Rightarrow> kbb_header \<Rightarrow> bytes bundle_result" where
  "kbb_encode crc h = (let b = kbb_fields h in Inr (kbb_put_u32 b 96 (crc b)))"

section \<open>Alignment\<close>

definition align_up8 :: "nat \<Rightarrow> nat" where
  "align_up8 n = (n + 7) div 8 * 8"

lemma align_up8_bounds: "n \<le> align_up8 n" "align_up8 n < n + 8" "8 dvd align_up8 n"
  unfolding align_up8_def by (presburger | simp)+

lemma and_minus_8: "(x :: u64) AND - 8 = push_bit 3 (drop_bit 3 x)"
proof -
  have m: "(- 8 :: u64) = NOT (mask 3)" by (simp add: mask_eq_exp_minus_1)
  show ?thesis unfolding m
  proof (rule bit_word_eqI)
    fix i assume "i < LENGTH(64)"
    then show "bit (x AND NOT (mask 3)) i = bit (push_bit 3 (drop_bit 3 x)) i"
      using bit_imp_le_length[of x i]
      by (auto simp only: bit_and_iff bit_not_iff bit_push_bit_iff bit_drop_bit_eq bit_mask_iff comp_def
          possible_bit_word le_add_diff_inverse not_less not_le conj_commute)
  qed
qed

lemma unat_and_minus_8: "unat ((x :: u64) AND - 8) = unat x div 8 * 8"
proof -
  have d: "unat (drop_bit 3 x) = unat x div 8"
    using unsigned_drop_bit_eq[of 3 x, where 'a = nat] unsigned_less[of x, where 'a = nat]
    by (simp only: drop_bit_eq_div) (simp add: take_bit_eq_mod)
  have "unat (push_bit 3 (drop_bit 3 x)) = take_bit 64 (push_bit 3 (unat x div 8))"
    using unsigned_push_bit_eq[of 3 "drop_bit 3 x", where 'a = nat] unfolding d by simp
  moreover have "push_bit 3 (unat x div 8) = unat x div 8 * 8" by (simp only: push_bit_eq_mult) simp
  ultimately show ?thesis using unsigned_less[of x, where 'a = nat]
    unfolding and_minus_8 by (simp add: take_bit_eq_mod)
qed

lemma checked_add_u64_Some:
  "checked_add_u64 a b = Some c \<longleftrightarrow> unat a + unat b < 2 ^ 64 \<and> unat c = unat a + unat b"
  by (auto simp: checked_add_u64_def unat_word_ariths word_unat_eq_iff)

lemma align8_Inr: "align8 v = Inr r \<longleftrightarrow> unat v + 7 < 2 ^ 64 \<and> unat r = align_up8 (unat v)"
proof (cases "checked_add_u64 v 7")
  case None
  then show ?thesis by (simp add: align8_def checked_add_u64_def split: if_splits)
next
  case (Some z)
  then have "unat v + 7 < 2 ^ 64" "unat z = unat v + 7" by (simp_all add: checked_add_u64_Some)
  then show ?thesis
    using Some by (auto simp: align8_def align_up8_def unat_and_minus_8 word_unat_eq_iff)
qed

text \<open>Two arrays are equal when they agree on consecutive slices that cover them.\<close>

fun slices_agree :: "nat \<Rightarrow> nat list \<Rightarrow> 'a list \<Rightarrow> 'a list \<Rightarrow> bool" where
  "slices_agree off [] xs ys = True"
| "slices_agree off (n # ns) xs ys =
     (sub_slice off n xs = sub_slice off n ys \<and> slices_agree (off + n) ns xs ys)"

lemma slices_agree_drop:
  "slices_agree off ns xs ys \<Longrightarrow> length xs = off + sum_list ns \<Longrightarrow> length ys = off + sum_list ns \<Longrightarrow>
   drop off xs = drop off ys"
proof (induction ns arbitrary: off)
  case (Cons n ns)
  have "drop (off + n) xs = drop (off + n) ys" using Cons by simp
  then show ?case
    using Cons.prems(1) append_take_drop_id[of n "drop off xs"] append_take_drop_id[of n "drop off ys"]
    by (simp add: sub_slice_def add.commute)
qed simp

lemma slices_agree_eq:
  "slices_agree 0 ns xs ys \<Longrightarrow> length xs = sum_list ns \<Longrightarrow> length ys = sum_list ns \<Longrightarrow> xs = ys"
  using slices_agree_drop[of 0 ns xs ys] by simp

section \<open>The layout of a header\<close>

lemma put_at_build_gap:
  "length pre + 2 = off \<Longrightarrow> 2 + length v \<le> k \<Longrightarrow>
   put_at off v (pre @ replicate k z) = ((pre @ replicate 2 z) @ v) @ replicate (k - (2 + length v)) z"
  by (auto simp: put_at_def min_def)

lemma kbb_fields_concat:
  assumes "length (kh_bundle_root h) = 32"
  shows "kbb_fields h = KBB_MAGIC @ le_bytes 2 FORMAT_MAJOR @ le_bytes 2 FORMAT_MINOR @
     le_bytes 2 (128 :: u16) @ replicate 2 0 @ le_bytes 8 (128 :: u64) @ le_bytes 8 (kh_envelope_length h) @
     le_bytes 8 (kh_signature_offset h) @ le_bytes 8 (kh_signature_length h) @
     le_bytes 8 (kh_payload_offset h) @ le_bytes 8 (kh_payload_length h) @ kh_bundle_root h @
     replicate 32 0"
proof -
  have m: "length KBB_MAGIC = 8" by (simp add: KBB_MAGIC_def)
  have z: "put_at 0 KBB_MAGIC (replicate 128 0) = KBB_MAGIC @ replicate 120 0"
    using put_at_build[of "[]" 0 KBB_MAGIC 128 0] m by simp
  show ?thesis
    by (simp add: kbb_fields_def kbb_put_u16_def kbb_put_u64_def KBB_HEADER_SIZE_def Let_def z m assms
        put_at_build put_at_build_gap del: append_assoc)
qed

lemma length_kbb_fields: "length (kh_bundle_root h) = 32 \<Longrightarrow> length (kbb_fields h) = 128"
  by (simp add: kbb_fields_concat KBB_MAGIC_def)

lemma le_bytes_zero: "le_bytes n 0 = replicate n 0"
  by (simp add: le_bytes_def map_replicate_const)

lemma kbb_fields_slices:
  assumes "length (kh_bundle_root h) = 32"
  shows "sub_slice 0 8 (kbb_fields h) = KBB_MAGIC"
    "sub_slice 8 2 (kbb_fields h) = le_bytes 2 FORMAT_MAJOR"
    "sub_slice 10 2 (kbb_fields h) = le_bytes 2 FORMAT_MINOR"
    "sub_slice 12 2 (kbb_fields h) = le_bytes 2 (128 :: u16)"
    "sub_slice 14 2 (kbb_fields h) = le_bytes 2 (0 :: u16)"
    "sub_slice 16 8 (kbb_fields h) = le_bytes 8 (128 :: u64)"
    "sub_slice 24 8 (kbb_fields h) = le_bytes 8 (kh_envelope_length h)"
    "sub_slice 32 8 (kbb_fields h) = le_bytes 8 (kh_signature_offset h)"
    "sub_slice 40 8 (kbb_fields h) = le_bytes 8 (kh_signature_length h)"
    "sub_slice 48 8 (kbb_fields h) = le_bytes 8 (kh_payload_offset h)"
    "sub_slice 56 8 (kbb_fields h) = le_bytes 8 (kh_payload_length h)"
    "sub_slice 64 32 (kbb_fields h) = kh_bundle_root h"
    "sub_slice 96 4 (kbb_fields h) = le_bytes 4 (0 :: u32)"
    "sub_slice 100 28 (kbb_fields h) = replicate 28 0"
  using assms
  by (simp_all add: kbb_fields_concat[OF assms] sub_slice_def KBB_MAGIC_def le_bytes_zero)

lemma kbb_eqI:
  assumes "length xs = 128" "length ys = 128" "slices_agree 0 [8, 2, 2, 2, 2, 8, 8, 8, 8, 8, 8, 32, 4, 28] xs ys"
  shows "xs = ys"
  using slices_agree_eq[OF assms(3)] assms(1,2) by simp

section \<open>Decoding and encoding\<close>

text \<open>The sections of a canonical file, as natural numbers.\<close>

definition kbb_canonical :: "kbb_header \<Rightarrow> u64 \<Rightarrow> bool" where
  "kbb_canonical h file_length =
     (1 \<le> unat (kh_envelope_length h) \<and> unat (kh_envelope_length h) \<le> 16777216 \<and>
      1 \<le> unat (kh_signature_length h) \<and> unat (kh_signature_length h) \<le> 1048576 \<and>
      unat (kh_payload_length h) \<le> 8589934592 \<and>
      unat (kh_signature_offset h) = align_up8 (128 + unat (kh_envelope_length h)) \<and>
      unat (kh_payload_offset h) = align_up8 (unat (kh_signature_offset h) + unat (kh_signature_length h)) \<and>
      unat file_length = unat (kh_payload_offset h) + unat (kh_payload_length h))"

lemma kbb_limits:
  "(1 \<le> envelope_length \<and> envelope_length \<le> MAX_ENVELOPE_LENGTH) \<longleftrightarrow>
     1 \<le> unat envelope_length \<and> unat envelope_length \<le> 16777216"
  "(1 \<le> signature_length \<and> signature_length \<le> MAX_SIGNATURE_LENGTH) \<longleftrightarrow>
     1 \<le> unat signature_length \<and> unat signature_length \<le> 1048576"
  "MAX_PAYLOAD_LENGTH < payload_length \<longleftrightarrow> 8589934592 < unat payload_length"
  by (simp_all add: MAX_ENVELOPE_LENGTH_def MAX_SIGNATURE_LENGTH_def MAX_PAYLOAD_LENGTH_def
      word_le_nat_alt word_less_nat_alt)

text \<open>The chain of checked additions and comparisons is the canonical layout.\<close>

lemma kbb_layout_check:
  assumes limits: "1 \<le> unat (e :: u64)" "unat e \<le> 16777216" "1 \<le> unat (sl :: u64)" "unat sl \<le> 1048576"
    "unat (pl :: u64) \<le> 8589934592"
  shows "rbind (ok_or (checked_add_u64 (of_nat KBB_HEADER_SIZE) e) EBounds) (\<lambda>envelope_end.
          rbind (align8 envelope_end) (\<lambda>canonical_signature.
          rbind (ok_or (checked_add_u64 so sl) EBounds) (\<lambda>signature_end.
          rbind (align8 signature_end) (\<lambda>canonical_payload.
          rbind (ok_or (checked_add_u64 po pl) EBounds) (\<lambda>canonical_file_length.
            if so \<noteq> canonical_signature \<or> po \<noteq> canonical_payload \<or> fl \<noteq> canonical_file_length
            then Inl EHeader else r))))) = Inr h \<longleftrightarrow>
     (unat so = align_up8 (128 + unat e) \<and> unat po = align_up8 (unat so + unat sl) \<and>
     unat fl = unat po + unat pl) \<and> r = Inr h"
  (is "?l = Inr h \<longleftrightarrow> ?c \<and> r = Inr h")
proof
  assume "?l = Inr h"
  then obtain a b c d f where
      "checked_add_u64 (of_nat KBB_HEADER_SIZE) e = Some a" "align8 a = Inr b" "checked_add_u64 so sl = Some c"
      "align8 c = Inr d" "checked_add_u64 po pl = Some f" "so = b" "po = d" "fl = f" "r = Inr h"
    by (auto simp: result_simps split: if_splits)
  then show "?c \<and> r = Inr h"
    by (auto simp: checked_add_u64_Some align8_Inr KBB_HEADER_SIZE_def)
next
  assume c: "?c \<and> r = Inr h"
  have so: "unat so < 16777353" using c limits align_up8_bounds(2)[of "128 + unat e"] by simp
  have po: "unat po < 17825937" using c limits so align_up8_bounds(2)[of "unat so + unat sl"] by simp
  let ?a = "of_nat KBB_HEADER_SIZE + e" and ?b = "so + sl"
  have 1: "checked_add_u64 (of_nat KBB_HEADER_SIZE) e = Some ?a" "unat ?a = 128 + unat e"
    using limits by (simp_all add: checked_add_u64_def KBB_HEADER_SIZE_def unat_word_ariths)
  have 2: "align8 ?a = Inr so" using c 1(2) limits by (simp add: align8_Inr)
  have 3: "checked_add_u64 so sl = Some ?b" "unat ?b = unat so + unat sl"
    using limits so by (simp_all add: checked_add_u64_def unat_word_ariths)
  have 4: "align8 ?b = Inr po" using c 3(2) limits so by (simp add: align8_Inr)
  have 5: "checked_add_u64 po pl = Some fl" using c limits po by (simp add: checked_add_u64_Some)
  show "?l = Inr h" using c by (simp add: 1(1) 2 3(1) 4 5)
qed

lemma kbb_decode_Inr:
  assumes "length bs = 128"
  shows "kbb_decode crc bs fl = Inr h \<longleftrightarrow>
    sub_slice 0 8 bs = KBB_MAGIC \<and> sub_slice 8 2 bs = le_bytes 2 FORMAT_MAJOR \<and>
    sub_slice 10 2 bs = le_bytes 2 FORMAT_MINOR \<and> sub_slice 12 2 bs = le_bytes 2 (128 :: u16) \<and>
    sub_slice 14 2 bs = le_bytes 2 (0 :: u16) \<and> sub_slice 16 8 bs = le_bytes 8 (128 :: u64) \<and>
    sub_slice 24 8 bs = le_bytes 8 (kh_envelope_length h) \<and>
    sub_slice 32 8 bs = le_bytes 8 (kh_signature_offset h) \<and>
    sub_slice 40 8 bs = le_bytes 8 (kh_signature_length h) \<and>
    sub_slice 48 8 bs = le_bytes 8 (kh_payload_offset h) \<and>
    sub_slice 56 8 bs = le_bytes 8 (kh_payload_length h) \<and>
    sub_slice 64 32 bs = kh_bundle_root h \<and>
    sub_slice 96 4 bs = le_bytes 4 (crc (put_at 96 [0, 0, 0, 0] bs)) \<and>
    sub_slice 100 28 bs = replicate 28 0 \<and> kbb_canonical h fl"
proof -
  have w16: "kbb_read_u16 bs off = v \<longleftrightarrow> sub_slice off 2 bs = le_bytes 2 v" if "off + 2 \<le> 128" for off v
    using le_bytes_slice[of off 2 bs, where 'a = 16] that assms
    by (auto simp: kbb_read_u16_def)
  have w32: "crc x = kbb_read_u32 bs off \<longleftrightarrow> sub_slice off 4 bs = le_bytes 4 (crc x)" if "off + 4 \<le> 128" for off x
    using le_bytes_slice[of off 4 bs, where 'a = 32] that assms
    by (auto simp: kbb_read_u32_def)
  have w64: "kbb_read_u64 bs off = v \<longleftrightarrow> sub_slice off 8 bs = le_bytes 8 v" if "off + 8 \<le> 128" for off v
    using le_bytes_slice[of off 8 bs, where 'a = 64] that assms
    by (auto simp: kbb_read_u64_def)
  have zeros: "\<not> list_ex (\<lambda>b. b \<noteq> 0) (drop 100 bs) \<longleftrightarrow> sub_slice 100 28 bs = replicate 28 0"
    using assms replicate_length_same[of "drop 100 bs" 0] by (auto simp: sub_slice_def list_ex_iff)
  let ?e = "kbb_read_u64 bs 24" and ?so = "kbb_read_u64 bs 32" and ?sl = "kbb_read_u64 bs 40"
    and ?po = "kbb_read_u64 bs 48" and ?pl = "kbb_read_u64 bs 56"
  let ?h = "\<lparr>kh_envelope_length = ?e, kh_signature_offset = ?so, kh_signature_length = ?sl,
     kh_payload_offset = ?po, kh_payload_length = ?pl, kh_bundle_root = sub_slice 64 32 bs\<rparr>"
  let ?limits = "(1 \<le> unat ?e \<and> unat ?e \<le> 16777216) \<and> (1 \<le> unat ?sl \<and> unat ?sl \<le> 1048576) \<and>
     unat ?pl \<le> 8589934592"
  let ?fixed = "sub_slice 0 8 bs = KBB_MAGIC \<and> sub_slice 8 2 bs = le_bytes 2 FORMAT_MAJOR \<and>
    sub_slice 10 2 bs = le_bytes 2 FORMAT_MINOR \<and> sub_slice 12 2 bs = le_bytes 2 (128 :: u16) \<and>
    sub_slice 14 2 bs = le_bytes 2 (0 :: u16) \<and> sub_slice 16 8 bs = le_bytes 8 (128 :: u64) \<and>
    sub_slice 100 28 bs = replicate 28 0"
  let ?crc = "sub_slice 96 4 bs = le_bytes 4 (crc (put_at 96 [0, 0, 0, 0] bs))"
  have size: "of_nat KBB_HEADER_SIZE = (128 :: u16)" "of_nat KBB_HEADER_SIZE = (128 :: u64)"
    by (simp_all add: KBB_HEADER_SIZE_def)
  have "kbb_decode crc bs fl = Inr h \<longleftrightarrow> ?fixed \<and> kbb_canonical ?h fl \<and> ?crc \<and> h = ?h"
  proof (cases "?fixed \<and> ?limits")
    case True
    have fin: "(if crc (put_at 96 [0, 0, 0, 0] bs) \<noteq> kbb_read_u32 bs 96 then Inl EHeader else Inr ?h) = Inr h
        \<longleftrightarrow> ?crc \<and> h = ?h"
      using w32[of 96] by auto
    show ?thesis
      using True zeros kbb_layout_check[of ?e ?sl ?pl ?so ?po fl
          "if crc (put_at 96 [0, 0, 0, 0] bs) \<noteq> kbb_read_u32 bs 96 then Inl EHeader else Inr ?h" h]
      unfolding fin kbb_decode_def Let_def kbb_limits
      by (simp add: w16 w64 size kbb_canonical_def)
  next
    case False
    then show ?thesis using zeros
      unfolding kbb_decode_def Let_def kbb_limits by (auto simp: w16 w64 size kbb_canonical_def)
  qed
  also have "\<dots> \<longleftrightarrow> ?fixed \<and> kbb_canonical h fl \<and> ?crc \<and> ?e = kh_envelope_length h \<and>
      ?so = kh_signature_offset h \<and> ?sl = kh_signature_length h \<and> ?po = kh_payload_offset h \<and>
      ?pl = kh_payload_length h \<and> sub_slice 64 32 bs = kh_bundle_root h"
    by (cases h) auto
  finally show ?thesis by (simp add: w64) blast
qed

lemma four_zeros: "[0, 0, 0, 0] = le_bytes 4 (0 :: u32)"
  by (simp add: le_bytes_expand)

lemma kbb_decode_encode:
  "length bs = 128 \<and> kbb_decode crc bs file_length = Inr h \<longleftrightarrow>
   kbb_encode crc h = Inr bs \<and> length (kh_bundle_root h) = 32 \<and> kbb_canonical h file_length"
proof
  assume a: "length bs = 128 \<and> kbb_decode crc bs file_length = Inr h"
  then have len: "length bs = 128" by simp
  note d = a[THEN conjunct2, unfolded kbb_decode_Inr[OF len]]
  have root: "length (kh_bundle_root h) = 32" using d len length_sub_slice[of 64 32 bs] by simp
  have "kbb_fields h = put_at 96 [0, 0, 0, 0] bs"
    unfolding four_zeros
    by (rule kbb_eqI) (use d len root in \<open>simp_all add: length_kbb_fields kbb_fields_slices\<close>)
  then have "kbb_put_u32 (kbb_fields h) 96 (crc (kbb_fields h)) = bs"
    using d len put_at_slice_same[of 96 4 bs] by (simp add: kbb_put_u32_def)
  then show "kbb_encode crc h = Inr bs \<and> length (kh_bundle_root h) = 32 \<and> kbb_canonical h file_length"
    using root d by (simp add: kbb_encode_def)
next
  assume a: "kbb_encode crc h = Inr bs \<and> length (kh_bundle_root h) = 32 \<and> kbb_canonical h file_length"
  then have root: "length (kh_bundle_root h) = 32"
    and bs: "bs = put_at 96 (le_bytes 4 (crc (kbb_fields h))) (kbb_fields h)"
    by (auto simp: kbb_encode_def kbb_put_u32_def Let_def)
  have len: "length bs = 128" using bs root by (simp add: length_kbb_fields)
  have clear: "put_at 96 [0, 0, 0, 0] bs = kbb_fields h"
    using root bs put_at_slice_same[of 96 4 "kbb_fields h"] unfolding four_zeros
    by (simp add: length_kbb_fields kbb_fields_slices)
  show "length bs = 128 \<and> kbb_decode crc bs file_length = Inr h"
    using a root len unfolding kbb_decode_Inr[OF len] clear
    by (simp add: bs length_kbb_fields kbb_fields_slices)
qed

section \<open>Properties\<close>

text \<open>
  C33: \<open>Header::encode\<close> and \<open>Header::decode\<close> are inverse to each other, whatever the checksum
  function: a 128-byte string decodes to a header for a file of the given length exactly when it is
  the encoding of that header and the header describes the canonical layout of such a file.
\<close>

theorem kbb_header_codec:
  "length bs = 128 \<and> kbb_decode crc bs file_length = Inr h \<longleftrightarrow>
   kbb_encode crc h = Inr bs \<and> length (kh_bundle_root h) = 32 \<and> kbb_canonical h file_length"
  by (rule kbb_decode_encode)

text \<open>
  C34: The sections of an accepted header lie one behind the other in the file, each on a multiple of
  8 with less than 8 bytes of padding before it, and end exactly at the end of the file; none of
  the sums the reader forms of them wraps around.
\<close>

theorem kbb_sections_disjoint:
  assumes "length bs = 128" "kbb_decode crc bs file_length = Inr h"
  shows "128 + unat (kh_envelope_length h) \<le> unat (kh_signature_offset h) \<and>
    unat (kh_signature_offset h) < 128 + unat (kh_envelope_length h) + 8 \<and>
    8 dvd unat (kh_signature_offset h) \<and>
    unat (kh_signature_offset h) + unat (kh_signature_length h) \<le> unat (kh_payload_offset h) \<and>
    unat (kh_payload_offset h) < unat (kh_signature_offset h) + unat (kh_signature_length h) + 8 \<and>
    8 dvd unat (kh_payload_offset h) \<and>
    unat (kh_payload_offset h) + unat (kh_payload_length h) = unat file_length \<and>
    unat (128 + kh_envelope_length h) = 128 + unat (kh_envelope_length h) \<and>
    unat (kh_signature_offset h + kh_signature_length h) =
      unat (kh_signature_offset h) + unat (kh_signature_length h) \<and>
    kh_payload_offset h + kh_payload_length h = file_length"
proof -
  have c: "kbb_canonical h file_length" using assms(2) unfolding kbb_decode_Inr[OF assms(1)] by blast
  let ?e = "unat (kh_envelope_length h)" and ?so = "unat (kh_signature_offset h)"
    and ?sl = "unat (kh_signature_length h)"
  have e: "?e \<le> 16777216" "?sl \<le> 1048576" "?so = align_up8 (128 + ?e)"
      "unat (kh_payload_offset h) = align_up8 (?so + ?sl)"
      "unat file_length = unat (kh_payload_offset h) + unat (kh_payload_length h)"
    using c by (simp_all add: kbb_canonical_def)
  have so: "?so < 16777353" using e align_up8_bounds(2)[of "128 + ?e"] by simp
  have "unat (128 + kh_envelope_length h) = 128 + ?e"
    "unat (kh_signature_offset h + kh_signature_length h) = ?so + ?sl"
    using e so by (simp_all add: unat_word_ariths)
  moreover have "kh_payload_offset h + kh_payload_length h = file_length"
    using e(5) unsigned_less[of file_length, where 'a = nat] by (simp add: word_unat_eq_iff unat_word_ariths)
  ultimately show ?thesis
    using e align_up8_bounds[of "128 + ?e"] align_up8_bounds[of "?so + ?sl"] by simp
qed

definition sample_kbb_header :: kbb_header where
  "sample_kbb_header = \<lparr>kh_envelope_length = 13, kh_signature_offset = 144, kh_signature_length = 9,
     kh_payload_offset = 160, kh_payload_length = 8, kh_bundle_root = replicate 32 7\<rparr>"

theorem kbb_sections_disjoint_witness:
  "\<exists>bs. kbb_encode (\<lambda>_. 0) sample_kbb_header = Inr bs \<and>
     unat (kh_payload_offset sample_kbb_header) + unat (kh_payload_length sample_kbb_header) = 168"
proof -
  obtain bs where bs: "kbb_encode (\<lambda>_. 0) sample_kbb_header = Inr bs"
    by (simp add: kbb_encode_def Let_def)
  have "length (kh_bundle_root sample_kbb_header) = 32" "kbb_canonical sample_kbb_header 168"
    by (simp_all add: sample_kbb_header_def kbb_canonical_def align_up8_def)
  then have "length bs = 128" "kbb_decode (\<lambda>_. 0) bs 168 = Inr sample_kbb_header"
    using bs kbb_decode_encode by blast+
  then show ?thesis using kbb_sections_disjoint[of bs "\<lambda>_. 0" 168 sample_kbb_header] bs by simp
qed

end
