(* ===== verification/Cbor.thy ===== *)
theory Cbor
  imports Bundle_Model
begin

text \<open>
  The canonical CBOR of bundles and activation records, \<open>crates/kindlebridge-bundle/src/cbor.rs\<close>.
  \<open>cbor\<close> is the type \<open>serde_cbor::Value\<close> of the third-party crate, with the entries of a map in the
  order of its \<open>BTreeMap\<close>. The conversions between program types and values are derived by that
  crate: \<open>to_value\<close> and \<open>from_slice\<close> are parameters of the two entry points. \<open>um\<close> is \<open>usize::MAX\<close>.
\<close>

datatype cbor =
    CNull | CBool bool | CInteger int | CFloat u64 | CBytes bytes | CText str
  | CArray "cbor list" | CMap "(cbor \<times> cbor) list" | CTag u64 cbor | CHidden

definition MAX_DEPTH :: nat where "MAX_DEPTH = 32"

section \<open>Encoding\<close>

definition usize_u64 :: "nat \<Rightarrow> u64 bundle_result" where
  "usize_u64 n = (if n < 2 ^ 64 then Inr (of_nat n) else Inl EBounds)"

definition encode_argument :: "u8 \<Rightarrow> u64 \<Rightarrow> bytes" where
  "encode_argument major argument =
     (let prefix = push_bit 5 major in
      if argument \<le> 23 then [prefix OR ucast argument]
      else if argument \<le> 0xff then [prefix OR 24, ucast argument]
      else if argument \<le> 0xffff then (prefix OR 25) # be_bytes 2 (ucast argument :: u16)
      else if argument \<le> 0xffffffff then (prefix OR 26) # be_bytes 4 (ucast argument :: u32)
      else (prefix OR 27) # be_bytes 8 argument)"

definition encode_integer :: "int \<Rightarrow> bytes bundle_result" where
  "encode_integer i =
     (if 0 \<le> i then (if i < 2 ^ 64 then Inr (encode_argument 0 (of_int i)) else Inl ESchema)
      else (if - 1 - i < 2 ^ 64 then Inr (encode_argument 1 (of_int (- 1 - i))) else Inl ESchema))"

fun emit_items :: "bytes bundle_result list \<Rightarrow> bytes bundle_result" where
  "emit_items [] = Inr []"
| "emit_items (r # rs) = rbind r (\<lambda>b. rbind (emit_items rs) (\<lambda>bs. Inr (b @ bs)))"

text \<open>
  The encoder of a map first encodes the keys in order, then sorts the entries by the length and
  the bytes of the encoded key, then writes every key with its encoded value.
\<close>

fun encode_keys :: "(bytes bundle_result \<times> 'v) list \<Rightarrow> (bytes \<times> 'v) list bundle_result" where
  "encode_keys [] = Inr []"
| "encode_keys ((r, v) # es) = rbind r (\<lambda>k. rbind (encode_keys es) (\<lambda>ks. Inr ((k, v) # ks)))"

definition key_order :: "bytes \<times> 'v \<Rightarrow> nat \<times> bytes" where
  "key_order e = (length (fst e), fst e)"

fun emit_entries :: "(bytes \<times> bytes bundle_result) list \<Rightarrow> bytes bundle_result" where
  "emit_entries [] = Inr []"
| "emit_entries ((k, r) # es) = rbind r (\<lambda>b. rbind (emit_entries es) (\<lambda>bs. Inr (k @ b @ bs)))"

fun encode_value :: "cbor \<Rightarrow> bytes bundle_result" where
  "encode_value CNull = Inr [0xf6]"
| "encode_value (CBool b) = Inr [if b then 0xf5 else 0xf4]"
| "encode_value (CInteger i) = encode_integer i"
| "encode_value (CBytes bs) = rbind (usize_u64 (length bs)) (\<lambda>n. Inr (encode_argument 2 n @ bs))"
| "encode_value (CText t) = rbind (usize_u64 (length t)) (\<lambda>n. Inr (encode_argument 3 n @ t))"
| "encode_value (CArray items) =
     rbind (usize_u64 (length items)) (\<lambda>n.
     rbind (emit_items (map encode_value items)) (\<lambda>body. Inr (encode_argument 4 n @ body)))"
| "encode_value (CMap m) =
     rbind (encode_keys (map (\<lambda>(k, v). (encode_value k, encode_value v)) m)) (\<lambda>entries.
     rbind (usize_u64 (length entries)) (\<lambda>n.
     rbind (emit_entries (sort_key key_order entries)) (\<lambda>body. Inr (encode_argument 5 n @ body))))"
| "encode_value (CTag t v) = Inl ESchema"
| "encode_value (CFloat f) = Inl ESchema"
| "encode_value CHidden = Inl ESchema"

definition to_canonical_vec :: "('a \<Rightarrow> cbor option) \<Rightarrow> 'a \<Rightarrow> bytes bundle_result" where
  "to_canonical_vec to_value x = rbind (ok_or (to_value x) ESchema) encode_value"

section \<open>Scanning\<close>

definition read_array :: "nat \<Rightarrow> bytes \<Rightarrow> nat \<Rightarrow> bytes bundle_result" where
  "read_array n input offset =
     (if offset + n \<le> length input then Inr (sub_slice offset n input) else Inl ECanonicalCbor)"

definition decode_argument :: "bytes \<Rightarrow> nat \<Rightarrow> u8 \<Rightarrow> (u64 \<times> nat) bundle_result" where
  "decode_argument input offset additional =
     (if additional \<le> 23 then Inr (ucast additional, 0)
      else if additional = 24 then
        (if offset < length input then
           let value = ucast (input ! offset) in
           if value < 24 then Inl ECanonicalCbor else Inr (value, 1)
         else Inl ECanonicalCbor)
      else if additional = 25 then
        rbind (read_array 2 input offset) (\<lambda>bs.
          let value = ucast (of_be_bytes bs :: u16) in
          if value \<le> 0xff then Inl ECanonicalCbor else Inr (value, 2))
      else if additional = 26 then
        rbind (read_array 4 input offset) (\<lambda>bs.
          let value = ucast (of_be_bytes bs :: u32) in
          if value \<le> 0xffff then Inl ECanonicalCbor else Inr (value, 4))
      else if additional = 27 then
        rbind (read_array 8 input offset) (\<lambda>bs.
          let value = of_be_bytes bs in
          if value \<le> 0xffffffff then Inl ECanonicalCbor else Inr (value, 8))
      else Inl ECanonicalCbor)"

definition scan_string :: "nat \<Rightarrow> bytes \<Rightarrow> u8 \<Rightarrow> u64 \<Rightarrow> nat \<Rightarrow> nat bundle_result" where
  "scan_string um input major argument position =
     (if um < unat argument then Inl EBounds
      else let end = position + unat argument in
        if um < end then Inl EBounds
        else if length input < end then Inl ECanonicalCbor
        else if major = 3 \<and> \<not> is_utf8 (sub_slice position (unat argument) input)
        then Inl ECanonicalCbor
        else Inr end)"

text \<open>
  The \<open>argument\<close> iterations over an array scan one item each and those over a map two:
  \<open>scan_items\<close> scans a number of consecutive items.
\<close>

function scan_item :: "nat \<Rightarrow> bytes \<Rightarrow> nat \<Rightarrow> nat \<Rightarrow> nat bundle_result"
  and scan_items :: "nat \<Rightarrow> bytes \<Rightarrow> nat \<Rightarrow> nat \<Rightarrow> nat \<Rightarrow> nat bundle_result" where
  "scan_item um input offset depth =
     (if MAX_DEPTH \<le> depth then Inl ECanonicalCbor
      else if length input \<le> offset then Inl ECanonicalCbor
      else let initial = input ! offset; major = drop_bit 5 initial; additional = initial AND 0x1f in
        rbind (decode_argument input (offset + 1) additional) (\<lambda>(argument, argument_bytes).
          let position = offset + (1 + argument_bytes) in
          if um < position then Inl EBounds
          else if major = 0 \<or> major = 1 then Inr position
          else if major = 2 \<or> major = 3 then scan_string um input major argument position
          else if major = 4 then scan_items um input (unat argument) position (depth + 1)
          else if major = 5 then scan_items um input (2 * unat argument) position (depth + 1)
          else if major = 6 then Inl ECanonicalCbor
          else if initial \<in> {0xf4, 0xf5, 0xf6} then Inr position
          else Inl ECanonicalCbor))"
| "scan_items um input n position depth =
     (if n = 0 then Inr position
      else rbind (scan_item um input position depth) (\<lambda>p. scan_items um input (n - 1) p depth))"
  by pat_completeness auto
termination
  by (relation "inv_image (less_than <*lex*> less_than) (\<lambda>x. case x of
        Inl (um, input, offset, depth) \<Rightarrow> (33 - depth, 0)
      | Inr (um, input, n, position, depth) \<Rightarrow> (33 - depth, Suc n))")
    (auto simp: MAX_DEPTH_def)

declare scan_item.simps [simp del] scan_items.simps [simp del]

definition from_canonical_slice ::
  "nat \<Rightarrow> ('a \<Rightarrow> cbor option) \<Rightarrow> (bytes \<Rightarrow> 'a option) \<Rightarrow> bytes \<Rightarrow> 'a bundle_result" where
  "from_canonical_slice um to_value from_slice bs =
     rbind (scan_item um bs 0 0) (\<lambda>consumed.
     if consumed \<noteq> length bs then Inl ECanonicalCbor
     else rbind (ok_or (from_slice bs) ESchema) (\<lambda>value.
     rbind (to_canonical_vec to_value value) (\<lambda>canonical.
     if canonical \<noteq> bs then Inl ECanonicalCbor else Inr value)))"

section \<open>The initial byte\<close>

lemma u8_high_bit: "(x :: u8) < 32 \<Longrightarrow> \<not> bit x (5 + n)"
proof
  assume x: "x < 32" and b: "bit x (5 + n)"
  have "take_bit 5 x = x"
    using x by (simp add: word_unat_eq_iff take_bit_eq_mod word_less_nat_alt unat_mod)
  then show False using b bit_take_bit_iff[of 5 x "5 + n"] by simp
qed

lemma u8_low_bit: "(m :: u8) < 8 \<Longrightarrow> bit m n \<Longrightarrow> n < 3"
proof -
  assume m: "m < 8" and b: "bit m n"
  have "take_bit 3 m = m"
    using m by (simp add: word_unat_eq_iff take_bit_eq_mod word_less_nat_alt unat_mod)
  then show "n < 3" using b bit_take_bit_iff[of 3 m n] by simp
qed

lemma and_31_take_bit: "(b :: u8) AND 31 = take_bit 5 b"
  by (simp add: take_bit_eq_mask mask_eq_exp_minus_1)

lemma initial_split: "push_bit 5 (drop_bit 5 b) OR (b AND 31) = (b :: u8)"
  unfolding and_31_take_bit
  by (rule bit_word_eqI) (auto simp: bit_or_iff bit_push_bit_iff bit_drop_bit_eq bit_take_bit_iff)

lemma initial_parts:
  assumes "m < 8" "x < 32"
  shows "drop_bit 5 (push_bit 5 m OR x) = (m :: u8)" "(push_bit 5 m OR x) AND 31 = x"
proof -
  show "drop_bit 5 (push_bit 5 m OR x) = m"
    using u8_high_bit[OF assms(2)] u8_low_bit[OF assms(1)]
    by (intro bit_word_eqI) (auto simp: bit_or_iff bit_push_bit_iff bit_drop_bit_eq)
  have "\<not> bit x n" if "\<not> n < 5" for n
    using u8_high_bit[OF assms(2), of "n - 5"] that by simp
  then show "(push_bit 5 m OR x) AND 31 = x"
    unfolding and_31_take_bit
    by (intro bit_word_eqI) (auto simp: bit_or_iff bit_push_bit_iff bit_take_bit_iff)
qed


section \<open>Arguments\<close>

lemma ucast_u8_u64: "unat (ucast (v :: u8) :: u64) = unat v"
  and ucast_u16_u64: "unat (ucast (v' :: u16) :: u64) = unat v'"
  and ucast_u32_u64: "unat (ucast (v'' :: u32) :: u64) = unat v''"
  using unsigned_less[of v, where 'a = nat] unsigned_less[of v', where 'a = nat] unsigned_less[of v'', where 'a = nat]
  by (simp_all add: unsigned_ucast_eq take_bit_eq_mod)

lemma ucast_u64_small:
  "a \<le> 0xff \<Longrightarrow> unat (ucast (a :: u64) :: u8) = unat a"
  "a \<le> 0xffff \<Longrightarrow> unat (ucast (a :: u64) :: u16) = unat a"
  "a \<le> 0xffffffff \<Longrightarrow> unat (ucast (a :: u64) :: u32) = unat a"
  by (simp_all add: unsigned_ucast_eq take_bit_eq_mod word_le_nat_alt)

lemmas ucast_nat = ucast_u8_u64 ucast_u16_u64 ucast_u32_u64 ucast_u64_small

lemma ucast_back [simp]:
  "ucast (ucast (v :: u8) :: u64) = v" "ucast (ucast (v' :: u16) :: u64) = v'" "ucast (ucast (v'' :: u32) :: u64) = v''"
  by (rule bit_word_eqI, simp add: bit_ucast_iff)+

lemma u8_bound: "unat (v :: u8) \<le> 255" and u16_bound: "unat (v' :: u16) \<le> 65535"
  and u32_bound: "unat (v'' :: u32) \<le> 4294967295"
  using unsigned_less[of v, where 'a = nat] unsigned_less[of v', where 'a = nat] unsigned_less[of v'', where 'a = nat]
  by simp_all

lemma slice_0 [simp]: "sub_slice off 0 xs = []"
  by (simp add: sub_slice_def)

lemma slice_1: "off < length xs \<Longrightarrow> sub_slice off (Suc 0) xs = [xs ! off]"
  by (simp add: sub_slice_def take_Suc_conv_app_nth)

lemma slice_Suc: "off < length xs \<Longrightarrow> sub_slice off (Suc n) xs = xs ! off # sub_slice (Suc off) n xs"
  by (simp add: sub_slice_def Cons_nth_drop_Suc[symmetric])

text \<open>The argument the scanner reads is the one whose encoding stands there.\<close>

lemma decode_argument_sound:
  assumes off: "off < length inp" and d: "decode_argument inp (Suc off) (inp ! off AND 31) = Inr (a, k)"
  shows "Suc off + k \<le> length inp" "sub_slice off (Suc k) inp = encode_argument (drop_bit 5 (inp ! off)) a"
proof -
  let ?b = "inp ! off" and ?x = "inp ! off AND 31"
  have b: "push_bit 5 (drop_bit 5 ?b) OR ?x = ?b" by (rule initial_split)
  have sl: "sub_slice off (Suc k) inp = ?b # sub_slice (Suc off) k inp" by (rule slice_Suc[OF off])
  consider (0) "?x \<le> 23" | (1) "?x = 24" | (2) "?x = 25" | (4) "?x = 26" | (8) "?x = 27"
    using d by (auto simp: decode_argument_def split: if_splits)
  then have "Suc off + k \<le> length inp \<and> sub_slice off (Suc k) inp = encode_argument (drop_bit 5 ?b) a"
  proof cases
    case 0
    then have "a = ucast ?x" "k = 0" using d by (simp_all add: decode_argument_def)
    moreover have "ucast ?x \<le> (23 :: u64)" using 0 by (simp add: word_le_nat_alt ucast_nat)
    moreover have "ucast (ucast ?x :: u64) = ?x" by simp
    ultimately show ?thesis unfolding sl using off b by (simp add: encode_argument_def)
  next
    case 1
    let ?v = "inp ! Suc off"
    have v: "Suc off < length inp" "a = ucast ?v" "k = 1" "\<not> a < 24"
      using d 1 by (auto simp: decode_argument_def Let_def split: if_splits)
    have "\<not> a \<le> 23" "a \<le> 0xff" "ucast a = ?v"
      using v(2,4) u8_bound[of ?v]
      by (simp_all add: word_le_nat_alt word_less_nat_alt ucast_nat)
    then show ?thesis unfolding sl using b v 1 by (simp add: slice_1 encode_argument_def)
  next
    case 2
    let ?v = "of_be_bytes (sub_slice (Suc off) 2 inp) :: u16"
    have v: "Suc off + 2 \<le> length inp" "a = ucast ?v" "k = 2" "\<not> a \<le> 0xff"
      using d 2 by (auto simp: decode_argument_def read_array_def Let_def split: if_splits)
    have "\<not> a \<le> 23" "a \<le> 0xffff" "ucast a = ?v"
      using v(2,4) u16_bound[of ?v]
      by (simp_all add: word_le_nat_alt word_less_nat_alt ucast_nat)
    moreover have "be_bytes 2 ?v = sub_slice (Suc off) 2 inp"
      using be_bytes_of_be_bytes[of "sub_slice (Suc off) 2 inp", where 'a = 16] v(1) by simp
    ultimately show ?thesis unfolding sl using b v 2 by (simp add: encode_argument_def)
  next
    case 4
    let ?v = "of_be_bytes (sub_slice (Suc off) 4 inp) :: u32"
    have v: "Suc off + 4 \<le> length inp" "a = ucast ?v" "k = 4" "\<not> a \<le> 0xffff"
      using d 4 by (auto simp: decode_argument_def read_array_def Let_def split: if_splits)
    have "\<not> a \<le> 23" "\<not> a \<le> 0xff" "a \<le> 0xffffffff" "ucast a = ?v"
      using v(2,4) u32_bound[of ?v]
      by (simp_all add: word_le_nat_alt word_less_nat_alt ucast_nat)
    moreover have "be_bytes 4 ?v = sub_slice (Suc off) 4 inp"
      using be_bytes_of_be_bytes[of "sub_slice (Suc off) 4 inp", where 'a = 32] v(1) by simp
    ultimately show ?thesis unfolding sl using b v 4 by (simp add: encode_argument_def)
  next
    case 8
    let ?v = "of_be_bytes (sub_slice (Suc off) 8 inp) :: u64"
    have v: "Suc off + 8 \<le> length inp" "a = ?v" "k = 8" "\<not> a \<le> 0xffffffff"
      using d 8 by (auto simp: decode_argument_def read_array_def Let_def split: if_splits)
    have "\<not> a \<le> 23" "\<not> a \<le> 0xff" "\<not> a \<le> 0xffff"
      using v(4) by (simp_all add: word_le_nat_alt)
    moreover have "be_bytes 8 ?v = sub_slice (Suc off) 8 inp"
      using be_bytes_of_be_bytes[of "sub_slice (Suc off) 8 inp", where 'a = 64] v(1) by simp
    ultimately show ?thesis unfolding sl using b v 8 by (simp add: encode_argument_def)
  qed
  then show "Suc off + k \<le> length inp" "sub_slice off (Suc k) inp = encode_argument (drop_bit 5 (inp ! off)) a"
    by simp_all
qed


lemma decode_argument_complete:
  assumes m: "m < 8" and len: "off + length (encode_argument m a) \<le> length inp"
    and s: "sub_slice off (length (encode_argument m a)) inp = encode_argument m a"
  shows "drop_bit 5 (inp ! off) = m"
    "decode_argument inp (Suc off) (inp ! off AND 31) = Inr (a, length (encode_argument m a) - 1)"
proof -
  obtain x r where x: "x < 32" and e: "encode_argument m a = (push_bit 5 m OR x) # r"
      and x_r: "(a \<le> 23 \<and> x = ucast a \<and> r = [] \<or>
        \<not> a \<le> 23 \<and> a \<le> 0xff \<and> x = 24 \<and> r = [ucast a] \<or>
        \<not> a \<le> 0xff \<and> a \<le> 0xffff \<and> x = 25 \<and> r = be_bytes 2 (ucast a :: u16) \<or>
        \<not> a \<le> 0xffff \<and> a \<le> 0xffffffff \<and> x = 26 \<and> r = be_bytes 4 (ucast a :: u32) \<or>
        \<not> a \<le> 0xffffffff \<and> x = 27 \<and> r = be_bytes 8 a)"
  proof -
    consider "a \<le> 23" | "\<not> a \<le> 23" "a \<le> 0xff" | "\<not> a \<le> 23" "\<not> a \<le> 0xff" "a \<le> 0xffff"
      | "\<not> a \<le> 23" "\<not> a \<le> 0xff" "\<not> a \<le> 0xffff" "a \<le> 0xffffffff"
      | "\<not> a \<le> 23" "\<not> a \<le> 0xff" "\<not> a \<le> 0xffff" "\<not> a \<le> 0xffffffff" by blast
    then show thesis
    proof cases
      case 1
      have "a \<le> 0xff" using 1 by (simp add: word_le_nat_alt)
      then have "ucast a < (32 :: u8)" using 1 by (simp add: word_less_nat_alt word_le_nat_alt ucast_nat)
      then show thesis using that[of "ucast a" "[]"] 1 by (simp add: encode_argument_def)
    next
      case 2
      then show thesis using that[of 24 "[ucast a]"] by (simp add: encode_argument_def)
    next
      case 3
      then show thesis using that[of 25 "be_bytes 2 (ucast a :: u16)"] by (simp add: encode_argument_def)
    next
      case 4
      then show thesis using that[of 26 "be_bytes 4 (ucast a :: u32)"] by (simp add: encode_argument_def)
    next
      case 5
      then show thesis using that[of 27 "be_bytes 8 a"] by (simp add: encode_argument_def)
    qed
  qed
  have off: "off < length inp" using len e by simp
  have hd: "inp ! off = push_bit 5 m OR x" and r: "sub_slice (Suc off) (length r) inp = r"
    using s unfolding e by (simp_all add: slice_Suc off)
  show "drop_bit 5 (inp ! off) = m" using initial_parts[OF m x] hd by simp
  have add: "inp ! off AND 31 = x" using initial_parts[OF m x] hd by simp
  have lr: "Suc off + length r \<le> length inp" using len e by simp
  have "decode_argument inp (Suc off) x = Inr (a, length r)"
    using x_r
  proof (elim disjE conjE)
    assume *: "a \<le> 23" "x = ucast a" "r = []"
    have "a \<le> 0xff" using * by (simp add: word_le_nat_alt)
    then have "ucast a \<le> (23 :: u8)" "ucast (ucast a :: u8) = a"
      using * by (simp_all add: word_le_nat_alt word_unat_eq_iff ucast_nat)
    then show ?thesis using * by (simp add: decode_argument_def)
  next
    assume *: "\<not> a \<le> 23" "a \<le> 0xff" "x = 24" "r = [ucast a]"
    have "inp ! Suc off = ucast a" using r lr * by (simp add: slice_1)
    moreover have "ucast (ucast a :: u8) = a" "\<not> a < 24"
      using * by (simp_all add: word_le_nat_alt word_less_nat_alt word_unat_eq_iff ucast_nat)
    ultimately show ?thesis using * lr by (simp add: decode_argument_def)
  next
    assume *: "\<not> a \<le> 0xff" "a \<le> 0xffff" "x = 25" "r = be_bytes 2 (ucast a :: u16)"
    have "ucast (ucast a :: u16) = a" using * by (simp add: word_unat_eq_iff ucast_nat)
    then show ?thesis using * lr r by (simp add: decode_argument_def read_array_def)
  next
    assume *: "\<not> a \<le> 0xffff" "a \<le> 0xffffffff" "x = 26" "r = be_bytes 4 (ucast a :: u32)"
    have "ucast (ucast a :: u32) = a" using * by (simp add: word_unat_eq_iff ucast_nat)
    then show ?thesis using * lr r by (simp add: decode_argument_def read_array_def)
  next
    assume *: "\<not> a \<le> 0xffffffff" "x = 27" "r = be_bytes 8 a"
    then show ?thesis using lr r by (simp add: decode_argument_def read_array_def)
  qed
  then show "decode_argument inp (Suc off) (inp ! off AND 31) = Inr (a, length (encode_argument m a) - 1)"
    unfolding add e by simp
qed

lemma encode_argument_not_Nil [simp]: "encode_argument m a \<noteq> []"
  by (simp add: encode_argument_def Let_def)

text \<open>Arguments are self-delimiting.\<close>

lemma encode_argument_cancel:
  assumes "m < 8" "m' < 8" "encode_argument m a @ r = encode_argument m' a' @ s"
  shows "m = m' \<and> a = a' \<and> r = s"
proof -
  let ?i = "encode_argument m a @ r"
  have 1: "drop_bit 5 (?i ! 0) = m"
    "decode_argument ?i (Suc 0) (?i ! 0 AND 31) = Inr (a, length (encode_argument m a) - 1)"
    using decode_argument_complete[OF assms(1), of 0 a ?i] by (simp_all add: sub_slice_def)
  have 2: "drop_bit 5 (?i ! 0) = m'"
    "decode_argument ?i (Suc 0) (?i ! 0 AND 31) = Inr (a', length (encode_argument m' a') - 1)"
    unfolding assms(3)
    using decode_argument_complete[OF assms(2), of 0 a' "encode_argument m' a' @ s"] by (simp_all add: sub_slice_def)
  show ?thesis using 1 2 assms(3) by simp
qed

section \<open>The language of the scanner\<close>

text \<open>
  \<open>plain\<close> is the definite-length encoding of a value with minimal arguments and the entries of
  every map in the order they have. \<open>scannable\<close> values are those that have such an encoding with
  valid text, and \<open>nesting\<close> counts their levels.
\<close>

fun plain :: "cbor \<Rightarrow> bytes" where
  "plain CNull = [0xf6]"
| "plain (CBool b) = [if b then 0xf5 else 0xf4]"
| "plain (CInteger i) = (if 0 \<le> i then encode_argument 0 (of_int i) else encode_argument 1 (of_int (- 1 - i)))"
| "plain (CBytes bs) = encode_argument 2 (of_nat (length bs)) @ bs"
| "plain (CText t) = encode_argument 3 (of_nat (length t)) @ t"
| "plain (CArray vs) = encode_argument 4 (of_nat (length vs)) @ concat (map plain vs)"
| "plain (CMap m) = encode_argument 5 (of_nat (length m)) @ concat (map (\<lambda>(k, v). plain k @ plain v) m)"
| "plain (CTag t v) = []"
| "plain (CFloat f) = []"
| "plain CHidden = []"

fun scannable :: "cbor \<Rightarrow> bool" where
  "scannable CNull = True"
| "scannable (CBool b) = True"
| "scannable (CInteger i) = (- (2 ^ 64) \<le> i \<and> i < 2 ^ 64)"
| "scannable (CBytes bs) = (length bs < 2 ^ 64)"
| "scannable (CText t) = (length t < 2 ^ 64 \<and> is_utf8 t)"
| "scannable (CArray vs) = (length vs < 2 ^ 64 \<and> list_all scannable vs)"
| "scannable (CMap m) = (length m < 2 ^ 64 \<and> list_all (\<lambda>(k, v). scannable k \<and> scannable v) m)"
| "scannable (CTag t v) = False"
| "scannable (CFloat f) = False"
| "scannable CHidden = False"

fun nesting :: "cbor \<Rightarrow> nat" where
  "nesting (CArray vs) = Suc (fold max (map nesting vs) 0)"
| "nesting (CMap m) = Suc (fold max (map (\<lambda>(k, v). max (nesting k) (nesting v)) m) 0)"
| "nesting v = 1"

lemma fold_max_le: "fold max ns (a::nat) \<le> b \<longleftrightarrow> a \<le> b \<and> (\<forall>n\<in>set ns. n \<le> b)"
  by (induction ns arbitrary: a) auto

text \<open>An item stands at an offset of the input.\<close>

definition stands_at :: "bytes \<Rightarrow> nat \<Rightarrow> bytes \<Rightarrow> bool" where
  "stands_at inp off bs = (off + length bs \<le> length inp \<and> sub_slice off (length bs) inp = bs)"

lemma stands_at_append:
  "stands_at inp off (a @ b) \<longleftrightarrow> stands_at inp off a \<and> stands_at inp (off + length a) b"
proof
  assume s: "stands_at inp off (a @ b)"
  then have len: "off + length a + length b \<le> length inp"
    and sl: "sub_slice off (length a + length b) inp = a @ b" by (simp_all add: stands_at_def)
  have "sub_slice off (length a) inp @ sub_slice (off + length a) (length b) inp = a @ b"
    using sl slice_join[of off "length a" inp "length b"] by simp
  then have "sub_slice off (length a) inp = a \<and> sub_slice (off + length a) (length b) inp = b"
    using len by (subst (asm) append_eq_append_conv) simp_all
  then show "stands_at inp off a \<and> stands_at inp (off + length a) b"
    using len by (simp add: stands_at_def)
next
  assume "stands_at inp off a \<and> stands_at inp (off + length a) b"
  then show "stands_at inp off (a @ b)"
    using slice_join[of off "length a" inp "length b"] by (simp add: stands_at_def)
qed

lemma stands_at_Nil [simp]: "stands_at inp off [] \<longleftrightarrow> off \<le> length inp"
  by (simp add: stands_at_def)

text \<open>Consecutive values, and a map as the sequence of its keys and values.\<close>

fun pair_up :: "'a list \<Rightarrow> ('a \<times> 'a) list" where
  "pair_up (x # y # zs) = (x, y) # pair_up zs"
| "pair_up _ = []"

lemma pair_up_props:
  "length vs = 2 * n \<Longrightarrow> length (pair_up vs) = n \<and>
     concat (map (\<lambda>(k, v). plain k @ plain v) (pair_up vs)) = concat (map plain vs) \<and>
     (\<forall>(k, v)\<in>set (pair_up vs). k \<in> set vs \<and> v \<in> set vs)"
proof (induction vs arbitrary: n rule: pair_up.induct)
  case (1 x y zs)
  then obtain m where "n = Suc m" by (cases n) auto
  then show ?case using 1 by fastforce
qed auto

lemma concat_pairs:
  "concat (map (\<lambda>(k, v). plain k @ plain v) m) = concat (map plain (concat (map (\<lambda>(k, v). [k, v]) m)))"
  by (induction m) auto

lemma length_pairs: "length (concat (map (\<lambda>(k, v). [k, v]) m)) = 2 * length m"
  by (induction m) auto

definition item_at :: "bytes \<Rightarrow> nat \<Rightarrow> nat \<Rightarrow> cbor \<Rightarrow> nat \<Rightarrow> bool" where
  "item_at inp off depth v pos =
     (scannable v \<and> depth + nesting v \<le> 32 \<and> stands_at inp off (plain v) \<and> pos = off + length (plain v))"

definition items_at :: "bytes \<Rightarrow> nat \<Rightarrow> nat \<Rightarrow> cbor list \<Rightarrow> nat \<Rightarrow> bool" where
  "items_at inp off depth vs pos =
     ((\<forall>v\<in>set vs. scannable v \<and> depth + nesting v \<le> 32) \<and> stands_at inp off (concat (map plain vs)) \<and>
      pos = off + length (concat (map plain vs)))"

lemma items_at_Cons:
  "items_at inp off depth (v # vs) pos \<longleftrightarrow>
     (\<exists>p. item_at inp off depth v p \<and> items_at inp p depth vs pos)"
  by (auto simp: items_at_def item_at_def stands_at_append)

lemma of_nat_u64: "of_nat (unat (a :: u64)) = a" "n < 2 ^ 64 \<Longrightarrow> unat (of_nat n :: u64) = n"
  by (simp_all add: unat_of_nat)


lemma scan_item_step:
  assumes "depth < 32" "off < length inp" "decode_argument inp (Suc off) (inp ! off AND 31) = Inr (a, k)"
    and "Suc off + k \<le> um" and "drop_bit 5 (inp ! off) = m"
  shows "scan_item um inp off depth =
     (if m = 0 \<or> m = 1 then Inr (Suc off + k)
      else if m = 2 \<or> m = 3 then scan_string um inp m a (Suc off + k)
      else if m = 4 then scan_items um inp (unat a) (Suc off + k) (depth + 1)
      else if m = 5 then scan_items um inp (2 * unat a) (Suc off + k) (depth + 1)
      else if m = 6 then Inl ECanonicalCbor
      else if inp ! off \<in> {0xf4, 0xf5, 0xf6} then Inr (Suc off + k)
      else Inl ECanonicalCbor)"
  using assms(1-4) unfolding assms(5)[symmetric]
  by (simp add: scan_item.simps[of um inp off] Let_def MAX_DEPTH_def not_le not_less)

lemma scan_items_sound:
  assumes item: "\<And>off pos. scan_item um inp off depth = Inr pos \<Longrightarrow> \<exists>v. item_at inp off depth v pos"
  shows "off \<le> length inp \<Longrightarrow> scan_items um inp n off depth = Inr pos \<Longrightarrow>
     \<exists>vs. length vs = n \<and> items_at inp off depth vs pos"
proof (induction n arbitrary: off)
  case 0
  then show ?case by (simp add: scan_items.simps[of um inp 0] items_at_def)
next
  case (Suc n)
  obtain p where p: "scan_item um inp off depth = Inr p" "scan_items um inp n p depth = Inr pos"
    using Suc.prems(2) by (auto simp: scan_items.simps[of um inp "Suc n"] result_simps)
  obtain v where v: "item_at inp off depth v p" using item[OF p(1)] by blast
  then have "p \<le> length inp" by (simp add: item_at_def stands_at_def)
  then obtain vs where "length vs = n" "items_at inp p depth vs pos" using Suc.IH p(2) by blast
  then have "length (v # vs) = Suc n \<and> items_at inp off depth (v # vs) pos"
    using v unfolding items_at_Cons by auto
  then show ?case by blast
qed

lemma nesting_bound:
  "depth + Suc (fold max ns 0) \<le> 32 \<longleftrightarrow> depth < 32 \<and> (\<forall>n\<in>set ns. Suc depth + n \<le> 32)"
proof -
  have "depth + Suc (fold max ns 0) \<le> 32 \<longleftrightarrow> depth < 32 \<and> fold max ns 0 \<le> 31 - depth" by auto
  also have "\<dots> \<longleftrightarrow> depth < 32 \<and> (\<forall>n\<in>set ns. n \<le> 31 - depth)" by (simp add: fold_max_le)
  also have "\<dots> \<longleftrightarrow> depth < 32 \<and> (\<forall>n\<in>set ns. Suc depth + n \<le> 32)" by auto
  finally show ?thesis .
qed

lemma array_at:
  assumes "stands_at inp off (encode_argument 4 a)" "length vs = unat a" "depth < 32"
    "items_at inp (off + length (encode_argument 4 a)) (Suc depth) vs pos"
  shows "item_at inp off depth (CArray vs) pos"
proof -
  have vs: "\<forall>v\<in>set vs. scannable v \<and> Suc depth + nesting v \<le> 32"
      "stands_at inp (off + length (encode_argument 4 a)) (concat (map plain vs))"
      "pos = off + length (encode_argument 4 a) + length (concat (map plain vs))"
    using assms(4) by (simp_all add: items_at_def)
  have "depth + nesting (CArray vs) \<le> 32"
    unfolding nesting.simps nesting_bound using assms(3) vs(1) by simp
  then show ?thesis
    using assms vs unsigned_less[of a, where 'a = nat]
    by (simp add: item_at_def stands_at_append of_nat_u64 list_all_iff)
qed

lemma map_at:
  assumes "stands_at inp off (encode_argument 5 a)" "length vs = 2 * unat a" "depth < 32"
    "items_at inp (off + length (encode_argument 5 a)) (Suc depth) vs pos"
  shows "item_at inp off depth (CMap (pair_up vs)) pos"
proof -
  note pairs = pair_up_props[OF assms(2)]
  have vs: "\<forall>v\<in>set vs. scannable v \<and> Suc depth + nesting v \<le> 32"
      "stands_at inp (off + length (encode_argument 5 a)) (concat (map plain vs))"
      "pos = off + length (encode_argument 5 a) + length (concat (map plain vs))"
    using assms(4) by (simp_all add: items_at_def)
  have p: "scannable k" "scannable v" "Suc depth + nesting k \<le> 32" "Suc depth + nesting v \<le> 32"
    if "(k, v) \<in> set (pair_up vs)" for k v
    using vs(1) pairs that by auto
  have "depth + nesting (CMap (pair_up vs)) \<le> 32"
    unfolding nesting.simps nesting_bound using assms(3) p(3,4) by (auto simp: max_def)
  moreover have "scannable (CMap (pair_up vs))"
    using pairs p(1,2) unsigned_less[of a, where 'a = nat] by (auto simp: list_all_iff)
  moreover have "plain (CMap (pair_up vs)) = encode_argument 5 a @ concat (map plain vs)"
    using pairs by (simp add: of_nat_u64)
  ultimately show ?thesis
    using assms vs by (simp add: item_at_def stands_at_append)
qed

lemma string_at:
  assumes "stands_at inp off (encode_argument m a)" "m \<in> {2, 3}"
    "scan_string um inp m a (off + length (encode_argument m a)) = Inr pos" "depth < 32"
  shows "\<exists>v. item_at inp off depth v pos"
proof -
  let ?p = "off + length (encode_argument m a)"
  let ?s = "sub_slice ?p (unat a) inp"
  have s: "?p + unat a \<le> length inp" "m = 3 \<Longrightarrow> is_utf8 ?s" "pos = ?p + unat a"
    using assms(3) by (auto simp: scan_string_def Let_def split: if_splits)
  have len: "length ?s = unat a" using s(1) by simp
  have "stands_at inp ?p ?s" unfolding stands_at_def len using s(1) by simp
  then have at: "stands_at inp off (encode_argument m a @ ?s)" using assms(1) by (simp add: stands_at_append)
  consider "m = 2" | "m = 3" using assms(2) by blast
  then show ?thesis
  proof cases
    case 1
    then have "item_at inp off depth (CBytes ?s) pos"
      using at s len assms(4) unsigned_less[of a, where 'a = nat] by (simp add: item_at_def of_nat_u64)
    then show ?thesis by blast
  next
    case 2
    then have "item_at inp off depth (CText ?s) pos"
      using at s len assms(4) unsigned_less[of a, where 'a = nat] by (simp add: item_at_def of_nat_u64)
    then show ?thesis by blast
  qed
qed

lemma integer_at:
  assumes "stands_at inp off (encode_argument m a)" "m = 0 \<or> m = 1" "depth < 32"
  shows "\<exists>v. item_at inp off depth v (off + length (encode_argument m a))"
proof -
  have nn: "0 \<le> uint a" "uint a < 2 ^ 64" using unsigned_less[of a, where 'a = int] by simp_all
  have neg1: "\<not> 0 \<le> - 1 - uint a" using nn(1) by linarith
  have neg2: "- (2 ^ 64) \<le> - 1 - uint a" using nn(2) by linarith
  have "(0 :: int) < 2 ^ 64" by simp
  with nn(1) have neg3: "- 1 - uint a < 2 ^ 64" and pos: "- (2 ^ 64) \<le> uint a" by linarith+
  from assms(2) show ?thesis
  proof
    assume "m = 0"
    then have "item_at inp off depth (CInteger (uint a)) (off + length (encode_argument m a))"
      using assms(1,3) nn pos by (simp only: item_at_def plain.simps scannable.simps nesting.simps) simp
    then show ?thesis by blast
  next
    assume "m = 1"
    then have "item_at inp off depth (CInteger (- 1 - uint a)) (off + length (encode_argument m a))"
      using assms(1,3) neg1 neg2 neg3 by (simp only: item_at_def plain.simps scannable.simps nesting.simps) simp
    then show ?thesis by blast
  qed
qed

lemma simple_at:
  assumes "off < length inp" "inp ! off \<in> {0xf4, 0xf5, 0xf6}" "depth < 32"
  shows "\<exists>v. item_at inp off depth v (Suc off)"
proof -
  have "item_at inp off depth (if inp ! off = 0xf6 then CNull else CBool (inp ! off = 0xf5)) (Suc off)"
    using assms by (auto simp: item_at_def stands_at_def slice_1)
  then show ?thesis by blast
qed

lemma scan_item_sound:
  assumes um: "length inp \<le> um"
  shows "scan_item um inp off depth = Inr pos \<Longrightarrow> \<exists>v. item_at inp off depth v pos"
proof (induction "32 - depth" arbitrary: off depth pos rule: less_induct)
  case less
  let ?b = "inp ! off"
  have d: "depth < 32" and off: "off < length inp"
    using less.prems by (simp_all add: scan_item.simps[of um inp off] MAX_DEPTH_def not_le split: if_splits)
  obtain a k where ak: "decode_argument inp (Suc off) (?b AND 31) = Inr (a, k)"
    using less.prems d off by (auto simp: scan_item.simps[of um inp off] Let_def result_simps split: if_splits)
  note arg = decode_argument_sound[OF off ak]
  let ?m = "drop_bit 5 ?b"
  have alen: "length (encode_argument ?m a) = Suc k"
    using arg off length_sub_slice[of off "Suc k" inp] by simp
  have at: "stands_at inp off (encode_argument ?m a)"
    unfolding stands_at_def alen using arg by simp
  have p: "Suc off + k = off + length (encode_argument ?m a)" using alen by simp
  have um': "Suc off + k \<le> um" using arg(1) um by simp
  note res = less.prems[unfolded scan_item_step[OF d off ak um' refl]]
  have items: "\<exists>vs. length vs = n \<and> items_at inp (Suc off + k) (Suc depth) vs pos"
    if "scan_items um inp n (Suc off + k) (depth + 1) = Inr pos" for n
    using scan_items_sound[of um inp "Suc depth" "Suc off + k" n pos] less.hyps[of "Suc depth"] arg(1) d that by simp
  consider (int) "?m = 0 \<or> ?m = 1" "pos = Suc off + k"
    | (str) "?m \<in> {2, 3}" "scan_string um inp ?m a (Suc off + k) = Inr pos"
    | (arr) "?m = 4" "scan_items um inp (unat a) (Suc off + k) (depth + 1) = Inr pos"
    | (map) "?m = 5" "scan_items um inp (2 * unat a) (Suc off + k) (depth + 1) = Inr pos"
    | (simple) "?b \<in> {0xf4, 0xf5, 0xf6}" "pos = Suc off + k"
    using res by (auto split: if_split_asm)
  then show ?case
  proof cases
    case int
    then show ?thesis using integer_at[OF at _ d] unfolding int(2) p by blast
  next
    case str
    then show ?thesis using string_at[OF at _ _ d] unfolding p by blast
  next
    case arr
    then obtain vs where "length vs = unat a" "items_at inp (off + length (encode_argument ?m a)) (Suc depth) vs pos"
      using items[OF arr(2)] unfolding p by blast
    then show ?thesis using array_at[of inp off a vs depth pos] at arr(1) d by auto
  next
    case map
    then obtain vs where "length vs = 2 * unat a" "items_at inp (off + length (encode_argument ?m a)) (Suc depth) vs pos"
      using items[OF map(2)] unfolding p by blast
    then show ?thesis using map_at[of inp off a vs depth pos] at map(1) d by auto
  next
    case simple
    have "?b AND 31 \<le> 23" using simple(1) by auto
    then have "k = 0" using ak by (simp add: decode_argument_def)
    then show ?thesis using simple_at[OF off simple(1) d] simple(2) by simp
  qed
qed

lemma scan_items_complete:
  assumes "\<And>v off pos. v \<in> set vs \<Longrightarrow> item_at inp off depth v pos \<Longrightarrow> scan_item um inp off depth = Inr pos"
  shows "items_at inp off depth vs pos \<Longrightarrow> scan_items um inp (length vs) off depth = Inr pos"
  using assms
proof (induction vs arbitrary: off)
  case Nil
  then show ?case by (simp add: scan_items.simps[of um inp 0] items_at_def)
next
  case (Cons v vs)
  obtain p where p: "item_at inp off depth v p" "items_at inp p depth vs pos"
    using Cons.prems(1) unfolding items_at_Cons by blast
  have "scan_item um inp off depth = Inr p" using Cons.prems(2)[of v off p] p(1) by simp
  moreover have "scan_items um inp (length vs) p depth = Inr pos"
  proof (rule Cons.IH[OF p(2)])
    fix w o' q
    assume "w \<in> set vs" "item_at inp o' depth w q"
    then show "scan_item um inp o' depth = Inr q" using Cons.prems(2)[of w o' q] by simp
  qed
  ultimately show ?case by (simp add: scan_items.simps[of um inp "Suc (length vs)"])
qed

lemma head_at:
  assumes "stands_at inp off (encode_argument m a @ r)" "m < 8" "length inp \<le> um" "depth < 32"
  shows "scan_item um inp off depth =
     (let p = off + length (encode_argument m a) in
      if m = 0 \<or> m = 1 then Inr p
      else if m = 2 \<or> m = 3 then scan_string um inp m a p
      else if m = 4 then scan_items um inp (unat a) p (depth + 1)
      else if m = 5 then scan_items um inp (2 * unat a) p (depth + 1)
      else if m = 6 then Inl ECanonicalCbor
      else if inp ! off \<in> {0xf4, 0xf5, 0xf6} then Inr p
      else Inl ECanonicalCbor)"
proof -
  have at: "off + length (encode_argument m a) \<le> length inp"
    "sub_slice off (length (encode_argument m a)) inp = encode_argument m a"
    using assms(1) unfolding stands_at_append by (simp_all add: stands_at_def)
  note d = decode_argument_complete[OF assms(2) at]
  obtain k where k: "length (encode_argument m a) = Suc k" by (cases "encode_argument m a") auto
  have o: "off < length inp" and u: "Suc off + k \<le> um" using at(1) k assms(3) by simp_all
  have a: "decode_argument inp (Suc off) (inp ! off AND 31) = Inr (a, k)" using d(2) k by simp
  have e: "off + length (encode_argument m a) = Suc off + k" using k by simp
  show ?thesis unfolding Let_def e by (rule scan_item_step[OF assms(4) o a u d(1)])
qed

lemma simple_step:
  assumes "stands_at inp off [b]" "b \<in> {0xf4, 0xf5, 0xf6}" "length inp \<le> um" "depth < 32"
  shows "scan_item um inp off depth = Inr (Suc off)"
proof -
  have b: "off < length inp" "inp ! off = b" using assms(1) by (auto simp: stands_at_def slice_1)
  have x: "inp ! off AND 31 \<le> 23" "drop_bit 5 (inp ! off) = 7" using b(2) assms(2) by auto
  have "decode_argument inp (Suc off) (inp ! off AND 31) = Inr (ucast (inp ! off AND 31), 0)"
    using x(1) by (simp add: decode_argument_def)
  then show ?thesis
    using scan_item_step[OF assms(4) b(1) _ _ x(2), of _ 0 um] b assms(2,3) by simp
qed

lemma scan_item_complete:
  assumes um: "length inp \<le> um"
  shows "item_at inp off depth v pos \<Longrightarrow> scan_item um inp off depth = Inr pos"
proof (induction v arbitrary: off depth pos)
  case CNull
  then show ?case using simple_step[of inp off "0xf6" um depth] um by (simp add: item_at_def)
next
  case (CBool b)
  then show ?case using simple_step[of inp off "if b then 0xf5 else 0xf4" um depth] um
    by (cases b) (simp_all add: item_at_def)
next
  case (CInteger i)
  then show ?case
    using head_at[of inp off 0 "of_int i" "[]" um depth] head_at[of inp off 1 "of_int (- 1 - i)" "[]" um depth] um
    by (auto simp: item_at_def Let_def split: if_splits)
next
  case (CBytes bs)
  let ?h = "encode_argument 2 (of_nat (length bs))"
  have at: "stands_at inp off (?h @ bs)" "length bs < 2 ^ 64" "depth < 32" "pos = off + length ?h + length bs"
    using CBytes by (auto simp: item_at_def)
  have "scan_string um inp 2 (of_nat (length bs)) (off + length ?h) = Inr pos"
    using at um unfolding stands_at_append by (auto simp: stands_at_def scan_string_def of_nat_u64 Let_def)
  then show ?case using head_at[OF at(1) _ um at(3)] by simp
next
  case (CText bs)
  let ?h = "encode_argument 3 (of_nat (length bs))"
  have at: "stands_at inp off (?h @ bs)" "length bs < 2 ^ 64" "depth < 32" "pos = off + length ?h + length bs"
    and utf8: "is_utf8 bs"
    using CText by (auto simp: item_at_def)
  have "scan_string um inp 3 (of_nat (length bs)) (off + length ?h) = Inr pos"
    using at utf8 um unfolding stands_at_append by (auto simp: stands_at_def scan_string_def of_nat_u64 Let_def)
  then show ?case using head_at[OF at(1) _ um at(3)] by simp
next
  case (CArray vs)
  let ?h = "encode_argument 4 (of_nat (length vs))"
  have at: "stands_at inp off (?h @ concat (map plain vs))" "length vs < 2 ^ 64" "depth + nesting (CArray vs) \<le> 32"
      "list_all scannable vs" "pos = off + length ?h + length (concat (map plain vs))"
    using CArray.prems by (simp_all add: item_at_def)
  have d: "depth < 32" "\<forall>v\<in>set vs. Suc depth + nesting v \<le> 32"
    using at(3) unfolding nesting.simps nesting_bound by simp_all
  have "items_at inp (off + length ?h) (Suc depth) vs pos"
    using at d(2) by (simp add: items_at_def stands_at_append list_all_iff)
  then have "scan_items um inp (length vs) (off + length ?h) (Suc depth) = Inr pos"
    using scan_items_complete[of vs inp "Suc depth" um] CArray.IH by blast
  then show ?case using head_at[OF at(1) _ um d(1)] at(2) by (simp add: of_nat_u64)
next
  case (CMap m)
  let ?h = "encode_argument 5 (of_nat (length m))"
  let ?vs = "concat (map (\<lambda>(k, v). [k, v]) m)"
  have at: "stands_at inp off (?h @ concat (map plain ?vs))" "length m < 2 ^ 64" "depth + nesting (CMap m) \<le> 32"
      "list_all (\<lambda>(k, v). scannable k \<and> scannable v) m" "pos = off + length ?h + length (concat (map plain ?vs))"
    using CMap.prems by (simp_all add: item_at_def concat_pairs)
  have d: "depth < 32" "\<forall>(k, v)\<in>set m. Suc depth + nesting k \<le> 32 \<and> Suc depth + nesting v \<le> 32"
    using at(3) unfolding nesting.simps nesting_bound by auto
  have "\<forall>v\<in>set ?vs. scannable v \<and> Suc depth + nesting v \<le> 32"
    using at(4) d(2) by (fastforce simp: list_all_iff)
  then have items: "items_at inp (off + length ?h) (Suc depth) ?vs pos"
    using at by (simp add: items_at_def stands_at_append)
  have IH: "scan_item um inp off' (Suc depth) = Inr pos'"
    if "v \<in> set ?vs" "item_at inp off' (Suc depth) v pos'" for v off' pos'
    using that CMap.IH by fastforce
  have "scan_items um inp (length ?vs) (off + length ?h) (Suc depth) = Inr pos"
    using scan_items_complete[OF IH items] by simp
  then show ?case using head_at[OF at(1) _ um d(1)] at(2) by (simp add: of_nat_u64 length_pairs)
qed (simp_all add: item_at_def)

section \<open>The encoder writes the deterministic encoding\<close>

text \<open>
  \<open>norm_cbor\<close> brings the entries of every map into the order of the deterministic encoding:
  shorter encoded keys first, equally long ones in byte order.
\<close>

fun norm_cbor :: "cbor \<Rightarrow> cbor" where
  "norm_cbor (CArray vs) = CArray (map norm_cbor vs)"
| "norm_cbor (CMap m) = CMap (sort_key (\<lambda>(k, v). (length (plain k), plain k))
     (map (\<lambda>(k, v). (norm_cbor k, norm_cbor v)) m))"
| "norm_cbor v = v"

fun encodable :: "cbor \<Rightarrow> bool" where
  "encodable CNull = True"
| "encodable (CBool b) = True"
| "encodable (CInteger i) = (- (2 ^ 64) \<le> i \<and> i < 2 ^ 64)"
| "encodable (CBytes bs) = (length bs < 2 ^ 64)"
| "encodable (CText t) = (length t < 2 ^ 64)"
| "encodable (CArray vs) = (length vs < 2 ^ 64 \<and> list_all encodable vs)"
| "encodable (CMap m) = (length m < 2 ^ 64 \<and> list_all (\<lambda>(k, v). encodable k \<and> encodable v) m)"
| "encodable (CTag t v) = False"
| "encodable (CFloat f) = False"
| "encodable CHidden = False"

lemma insort_key_map: "insort_key f (g x) (map g xs) = map g (insort_key (\<lambda>x. f (g x)) x xs)"
  by (induction xs) auto

lemma sort_key_map: "sort_key f (map g xs) = map g (sort_key (\<lambda>x. f (g x)) xs)"
  by (induction xs) (simp_all add: insort_key_map)

lemma usize_u64_Inr: "usize_u64 n = Inr w \<longleftrightarrow> n < 2 ^ 64 \<and> w = of_nat n"
  by (auto simp: usize_u64_def)

lemma emit_items_Inr:
  assumes "\<And>v b. v \<in> set vs \<Longrightarrow> f v = Inr b \<longleftrightarrow> P v \<and> b = g v"
  shows "emit_items (map f vs) = Inr bs \<longleftrightarrow> list_all P vs \<and> bs = concat (map g vs)"
  using assms
proof (induction vs arbitrary: bs)
  case (Cons v vs)
  then have IH: "\<And>bs. emit_items (map f vs) = Inr bs \<longleftrightarrow> list_all P vs \<and> bs = concat (map g vs)" by simp
  have v: "\<And>b. f v = Inr b \<longleftrightarrow> P v \<and> b = g v" using Cons.prems by simp
  show ?case by (auto simp: result_simps IH v)
qed auto

lemma emit_entries_Inr:
  assumes "\<And>k v b. (k, v) \<in> set es \<Longrightarrow> f v = Inr b \<longleftrightarrow> P v \<and> b = g v"
  shows "emit_entries (map (\<lambda>(k, v). (h k, f v)) es) = Inr bs \<longleftrightarrow>
    list_all (\<lambda>(k, v). P v) es \<and> bs = concat (map (\<lambda>(k, v). h k @ g v) es)"
  using assms
proof (induction es arbitrary: bs)
  case (Cons e es)
  obtain k v where e: "e = (k, v)" by (cases e)
  have IH: "\<And>bs. emit_entries (map (\<lambda>(k, v). (h k, f v)) es) = Inr bs \<longleftrightarrow>
      list_all (\<lambda>(k, v). P v) es \<and> bs = concat (map (\<lambda>(k, v). h k @ g v) es)"
    by (rule Cons.IH) (use Cons.prems in auto)
  have v: "\<And>b. f v = Inr b \<longleftrightarrow> P v \<and> b = g v" by (rule Cons.prems[of k]) (simp add: e)
  show ?case by (auto simp: result_simps IH v e)
qed auto

lemma encode_keys_Inr:
  assumes "\<And>k v b. (k, v) \<in> set m \<Longrightarrow> f k = Inr b \<longleftrightarrow> P k \<and> b = g k"
  shows "encode_keys (map (\<lambda>(k, v). (f k, w v)) m) = Inr es \<longleftrightarrow>
    list_all (\<lambda>(k, v). P k) m \<and> es = map (\<lambda>(k, v). (g k, w v)) m"
  using assms
proof (induction m arbitrary: es)
  case (Cons e m)
  obtain k v where e: "e = (k, v)" by (cases e)
  have IH: "\<And>es. encode_keys (map (\<lambda>(k, v). (f k, w v)) m) = Inr es \<longleftrightarrow>
      list_all (\<lambda>(k, v). P k) m \<and> es = map (\<lambda>(k, v). (g k, w v)) m"
    by (rule Cons.IH) (use Cons.prems in auto)
  have k: "\<And>b. f k = Inr b \<longleftrightarrow> P k \<and> b = g k" by (rule Cons.prems[of _ v]) (simp add: e)
  show ?case by (auto simp: result_simps IH k e)
qed auto

lemma encode_value_Inr: "encode_value v = Inr bs \<longleftrightarrow> encodable v \<and> bs = plain (norm_cbor v)"
proof (induction v arbitrary: bs)
  case (CInteger i)
  show ?case by (auto simp: encode_integer_def)
next
  case (CArray vs)
  have "emit_items (map encode_value vs) = Inr b \<longleftrightarrow> list_all encodable vs \<and> b = concat (map (\<lambda>v. plain (norm_cbor v)) vs)" for b
    by (rule emit_items_Inr) (rule CArray.IH)
  then show ?case by (auto simp: result_simps usize_u64_Inr comp_def)
next
  case (CMap m)
  let ?key = "\<lambda>k. plain (norm_cbor k)"
  have keys: "encode_keys (map (\<lambda>(k, v). (encode_value k, encode_value v)) m) = Inr es \<longleftrightarrow>
      list_all (\<lambda>(k, v). encodable k) m \<and> es = map (\<lambda>(k, v). (?key k, encode_value v)) m" for es
    by (rule encode_keys_Inr) (use CMap.IH in fastforce)
  let ?s = "sort_key (\<lambda>(k, v). (length (?key k), ?key k)) m"
  have sorted: "sort_key key_order (map (\<lambda>(k, v). (?key k, encode_value v)) m) =
      map (\<lambda>(k, v). (?key k, encode_value v)) ?s"
    unfolding sort_key_map by (simp add: key_order_def case_prod_beta')
  have vals: "emit_entries (map (\<lambda>(k, v). (?key k, encode_value v)) ?s) = Inr b \<longleftrightarrow>
      list_all (\<lambda>(k, v). encodable v) ?s \<and> b = concat (map (\<lambda>(k, v). ?key k @ plain (norm_cbor v)) ?s)" for b
    by (rule emit_entries_Inr) (use CMap.IH in fastforce)
  have norm: "plain (norm_cbor (CMap m)) =
      encode_argument 5 (of_nat (length m)) @ concat (map (\<lambda>(k, v). ?key k @ plain (norm_cbor v)) ?s)"
    by (simp add: sort_key_map case_prod_beta' comp_def)
  show ?case
    unfolding norm
    by (auto simp: result_simps keys usize_u64_Inr sorted vals list_all_iff)
qed (auto simp: result_simps usize_u64_Inr)

section \<open>Encodings determine values\<close>

lemma hd_encode_argument: "m < 8 \<Longrightarrow> drop_bit 5 (hd (encode_argument m a)) = m"
  using decode_argument_complete(1)[of m 0 a "encode_argument m a"]
  by (simp add: sub_slice_def hd_conv_nth)

fun lead :: "cbor \<Rightarrow> u8" where
  "lead (CInteger i) = (if 0 \<le> i then 0 else 1)"
| "lead (CBytes b) = 2"
| "lead (CText t) = 3"
| "lead (CArray vs) = 4"
| "lead (CMap m) = 5"
| "lead v = 7"

lemma lead_plain: "encodable v \<Longrightarrow> drop_bit 5 (hd (plain v @ r)) = lead v"
  by (cases v) (simp_all add: hd_encode_argument)

lemma plain_cancel_list:
  assumes "\<And>v w r s. v \<in> set vs \<Longrightarrow> encodable w \<Longrightarrow> plain v @ r = plain w @ s \<Longrightarrow> v = w \<and> r = s"
    and "length vs = length ws" "list_all encodable ws"
    and "concat (map plain vs) @ r = concat (map plain ws) @ s"
  shows "vs = ws \<and> r = s"
  using assms
proof (induction vs arbitrary: ws)
  case (Cons v vs)
  then obtain w ws' where ws: "ws = w # ws'" by (cases ws) auto
  have "v = w \<and> concat (map plain vs) @ r = concat (map plain ws') @ s"
    using Cons.prems(1)[of v w "concat (map plain vs) @ r" "concat (map plain ws') @ s"] Cons.prems(3,4) ws by simp
  moreover have "vs = ws' \<and> r = s"
  proof (rule Cons.IH)
    fix v' w' r' s'
    assume "v' \<in> set vs" "encodable w'" "plain v' @ r' = plain w' @ s'"
    then show "v' = w' \<and> r' = s'" using Cons.prems(1)[of v' w' r' s'] by simp
  qed (use Cons.prems ws calculation in simp_all)
  ultimately show ?case using ws by simp
qed simp

lemma pairs_inject: "concat (map (\<lambda>(k, v). [k, v]) m) = concat (map (\<lambda>(k, v). [k, v]) m') \<Longrightarrow> m = m'"
proof (induction m arbitrary: m')
  case Nil
  then show ?case by (cases m') auto
next
  case (Cons e m)
  then show ?case by (cases m'; cases e) auto
qed

lemma lead_eq: "encodable v \<Longrightarrow> encodable w \<Longrightarrow> plain v @ r = plain w @ s \<Longrightarrow> lead v = lead w"
  by (metis lead_plain)

lemma of_int_u64_inj:
  assumes "(of_int x :: u64) = of_int y" "0 \<le> x" "x < 2 ^ 64" "0 \<le> y" "y < 2 ^ 64"
  shows "x = y"
  using assms by (simp add: word_of_int_eq_iff take_bit_int_eq_self)

lemma plain_cancel:
  "encodable v \<Longrightarrow> encodable w \<Longrightarrow> plain v @ r = plain w @ s \<Longrightarrow> v = w \<and> r = s"
proof (induction v arbitrary: w r s)
  case CNull
  then have "lead w = 7" using lead_eq[of CNull w r s] by simp
  then show ?case using CNull by (cases w) (auto split: if_splits)
next
  case (CBool b)
  then have "lead w = 7" using lead_eq[of "CBool b" w r s] by simp
  then show ?case using CBool by (cases w) (auto split: if_splits)
next
  case (CInteger i)
  then have "lead w = lead (CInteger i)" using lead_eq[of "CInteger i" w r s] by simp
  then obtain j where w: "w = CInteger j" "(0 \<le> i) = (0 \<le> j)" by (cases w) (auto split: if_splits)
  have ij: "- (2 ^ 64) \<le> i" "i < 2 ^ 64" "- (2 ^ 64) \<le> j" "j < 2 ^ 64"
    using CInteger.prems(1,2) w(1) by simp_all
  show ?case
  proof (cases "0 \<le> i")
    case True
    then have e: "encode_argument 0 (of_int i) @ r = encode_argument 0 (of_int j) @ s"
      using CInteger.prems(3) w by simp
    then have "(of_int i :: u64) = of_int j" "r = s" using encode_argument_cancel[OF _ _ e] by simp_all
    then show ?thesis using of_int_u64_inj[of i j] True w ij by simp
  next
    case False
    then have e: "encode_argument 1 (of_int (- 1 - i)) @ r = encode_argument 1 (of_int (- 1 - j)) @ s"
      using CInteger.prems(3) w by simp
    then have "(of_int (- 1 - i) :: u64) = of_int (- 1 - j)" and rs: "r = s"
      using encode_argument_cancel[OF _ _ e] by simp_all
    moreover have "0 \<le> - 1 - i" "0 \<le> - 1 - j" using False w(2) by linarith+
    moreover have "- 1 - i < 2 ^ 64" "- 1 - j < 2 ^ 64" using ij by linarith+
    ultimately have "- 1 - i = - 1 - j" using of_int_u64_inj by blast
    then show ?thesis using w rs by simp
  qed
next
  case (CBytes bs)
  then have "lead w = lead (CBytes bs)" using lead_eq[of "CBytes bs" w r s] by simp
  then obtain cs where w: "w = CBytes cs" by (cases w) (auto split: if_splits)
  have e: "encode_argument 2 (of_nat (length bs)) @ bs @ r = encode_argument 2 (of_nat (length cs)) @ cs @ s"
    using CBytes.prems(3) w by simp
  have "of_nat (length bs) = (of_nat (length cs) :: u64)" "bs @ r = cs @ s"
    using encode_argument_cancel[OF _ _ e] by simp_all
  moreover from this(1) have "length bs = length cs" using CBytes.prems(1,2) w of_nat_u64(2) by (metis encodable.simps(4))
  ultimately show ?case using w by simp
next
  case (CText bs)
  then have "lead w = lead (CText bs)" using lead_eq[of "CText bs" w r s] by simp
  then obtain cs where w: "w = CText cs" by (cases w) (auto split: if_splits)
  have e: "encode_argument 3 (of_nat (length bs)) @ bs @ r = encode_argument 3 (of_nat (length cs)) @ cs @ s"
    using CText.prems(3) w by simp
  have "of_nat (length bs) = (of_nat (length cs) :: u64)" "bs @ r = cs @ s"
    using encode_argument_cancel[OF _ _ e] by simp_all
  moreover from this(1) have "length bs = length cs" using CText.prems(1,2) w of_nat_u64(2) by (metis encodable.simps(5))
  ultimately show ?case using w by simp
next
  case (CArray vs)
  then have "lead w = lead (CArray vs)" using lead_eq[of "CArray vs" w r s] by simp
  then obtain ws where w: "w = CArray ws" by (cases w) (auto split: if_splits)
  have e: "encode_argument 4 (of_nat (length vs)) @ concat (map plain vs) @ r =
      encode_argument 4 (of_nat (length ws)) @ concat (map plain ws) @ s"
    using CArray.prems(3) w by simp
  have "of_nat (length vs) = (of_nat (length ws) :: u64)" and c: "concat (map plain vs) @ r = concat (map plain ws) @ s"
    using encode_argument_cancel[OF _ _ e] by simp_all
  then have len: "length vs = length ws" using CArray.prems(1,2) w of_nat_u64(2) by (metis encodable.simps(6))
  have IH: "v = w' \<and> r' = s'" if "v \<in> set vs" "encodable w'" "plain v @ r' = plain w' @ s'" for v w' r' s'
    using CArray.IH[OF that(1) _ that(2,3)] CArray.prems(1) that(1) by (simp add: list_all_iff)
  have "vs = ws \<and> r = s"
    by (rule plain_cancel_list[OF IH len _ c]) (use CArray.prems(2) w in simp_all)
  then show ?case using w by simp
next
  case (CMap m)
  then have "lead w = lead (CMap m)" using lead_eq[of "CMap m" w r s] by simp
  then obtain m' where w: "w = CMap m'" by (cases w) (auto split: if_splits)
  let ?f = "\<lambda>m. concat (map (\<lambda>(k, v). [k, v :: cbor]) m)"
  have e: "encode_argument 5 (of_nat (length m)) @ concat (map plain (?f m)) @ r =
      encode_argument 5 (of_nat (length m')) @ concat (map plain (?f m')) @ s"
    using CMap.prems(3) w by (simp add: concat_pairs)
  have "of_nat (length m) = (of_nat (length m') :: u64)" and c: "concat (map plain (?f m)) @ r = concat (map plain (?f m')) @ s"
    using encode_argument_cancel[OF _ _ e] by simp_all
  then have "length m = length m'" using CMap.prems(1,2) w of_nat_u64(2) by (metis encodable.simps(7))
  then have len: "length (?f m) = length (?f m')" by (simp add: length_pairs)
  have IH: "v = w' \<and> r' = s'" if v: "v \<in> set (?f m)" and w': "encodable w'" "plain v @ r' = plain w' @ s'" for v w' r' s'
  proof -
    obtain p where p: "p \<in> set m" "v = fst p \<or> v = snd p" using v by auto
    moreover have "encodable v" using p CMap.prems(1) by (cases p) (auto simp: list_all_iff)
    ultimately show ?thesis
      using CMap.IH(1)[of p v w' r' s'] CMap.IH(2)[of p v w' r' s'] w' by (auto simp: prod_set_defs)
  qed
  have "?f m = ?f m' \<and> r = s"
    by (rule plain_cancel_list[OF IH len _ c]) (use CMap.prems(2) w in \<open>auto simp: list_all_iff\<close>)
  then show ?case using w pairs_inject by blast
qed simp_all

lemma norm_cbor_encodable: "encodable v \<Longrightarrow> encodable (norm_cbor v)"
proof (induction v)
  case (CMap m)
  then show ?case by (auto simp: list_all_iff prod_set_defs)
qed (auto simp: list_all_iff)

lemma norm_cbor_scannable: "scannable v \<Longrightarrow> scannable (norm_cbor v)"
proof (induction v)
  case (CMap m)
  then show ?case by (auto simp: list_all_iff prod_set_defs)
qed (auto simp: list_all_iff)

lemma scannable_encodable: "scannable v \<Longrightarrow> encodable v"
proof (induction v)
  case (CMap m)
  then show ?case by (auto simp: list_all_iff prod_set_defs)
qed (auto simp: list_all_iff)

lemma nesting_norm: "nesting (norm_cbor v) \<le> n \<longleftrightarrow> nesting v \<le> n"
proof (induction v arbitrary: n)
  case (CArray vs)
  show ?case
  proof (cases n)
    case (Suc k)
    then show ?thesis by (auto simp: fold_max_le CArray.IH)
  qed simp
next
  case (CMap m)
  show ?case
  proof (cases n)
    case (Suc k)
    have "max (nesting (norm_cbor (fst p))) (nesting (norm_cbor (snd p))) \<le> k \<longleftrightarrow>
        max (nesting (fst p)) (nesting (snd p)) \<le> k" if "p \<in> set m" for p
      using CMap.IH[OF that] by (simp add: prod_set_defs)
    then show ?thesis using Suc by (simp add: fold_max_le case_prod_beta')
  qed simp
qed simp_all

lemma canonical_scans:
  assumes "encode_value v = Inr bs" "scannable v" "nesting v \<le> 32" "length bs \<le> um"
  shows "scan_item um bs 0 0 = Inr (length bs)"
proof -
  have bs: "bs = plain (norm_cbor v)" using assms(1) by (simp add: encode_value_Inr)
  have "item_at bs 0 0 (norm_cbor v) (length bs)"
    using norm_cbor_scannable[OF assms(2)] assms(3) nesting_norm[of v 32]
    by (simp add: item_at_def stands_at_def bs slice_all)
  then show ?thesis by (rule scan_item_complete[OF assms(4)])
qed

lemma norm_cbor_scannable_rev: "scannable (norm_cbor v) \<Longrightarrow> scannable v"
proof (induction v)
  case (CMap m)
  then show ?case by (auto simp: list_all_iff prod_set_defs) 
qed (auto simp: list_all_iff)

lemma scans_canonical:
  assumes "encode_value v = Inr bs" "scan_item um bs 0 0 = Inr (length bs)" "length bs \<le> um"
  shows "scannable v \<and> nesting v \<le> 32"
proof -
  have e: "encodable v" "bs = plain (norm_cbor v)" using assms(1) by (simp_all add: encode_value_Inr)
  obtain w where w: "scannable w" "nesting w \<le> 32" "plain w = bs"
    using scan_item_sound[OF assms(3,2)] by (auto simp: item_at_def stands_at_def slice_all)
  have "w = norm_cbor v"
    using plain_cancel[OF scannable_encodable[OF w(1)] norm_cbor_encodable[OF e(1)], of "[]" "[]"] w(3) e(2) by simp
  then show ?thesis using w nesting_norm[of v 32] norm_cbor_scannable_rev by blast
qed

section \<open>Properties\<close>

text \<open>
  C35: The scanner accepts exactly the deterministic items. \<open>scan_item\<close> succeeds at an offset and
  depth if and only if a value with minimal arguments, definite lengths, valid text and without tags
  or floating point numbers stands there and nests at most to level 32, and it returns the offset
  behind that value.
\<close>

theorem cbor_scan_exact:
  assumes "length inp \<le> um"
  shows "scan_item um inp off depth = Inr pos \<longleftrightarrow> (\<exists>v. item_at inp off depth v pos)"
  using scan_item_sound[OF assms] scan_item_complete[OF assms] by blast

theorem cbor_scan_exact_witness:
  "scan_item 100 [0x82, 0x01, 0xf6] 0 0 = Inr 3 \<and> \<not> (\<exists>v pos. item_at [0x18, 0x01] 0 0 v pos)"
proof -
  have "item_at [0x82, 0x01, 0xf6] 0 0 (CArray [CInteger 1, CNull]) 3"
    by (simp add: item_at_def stands_at_def sub_slice_def encode_argument_def)
  moreover have "\<And>pos. scan_item 100 [0x18, 0x01] 0 0 \<noteq> Inr pos"
    by (simp add: scan_item.simps MAX_DEPTH_def decode_argument_def)
  ultimately show ?thesis
    using cbor_scan_exact[of "[0x82, 0x01, 0xf6]" 100 0 0 3] cbor_scan_exact[of "[0x18, 0x01]" 100 0 0] by auto
qed

text \<open>
  C36: Two values with the same canonical encoding are equal up to the order of the entries of their
  maps: the encoding that digests and signatures are computed over identifies its value.
\<close>

theorem canonical_encoding_injective:
  assumes "encode_value v = Inr bs" "encode_value w = Inr bs"
  shows "norm_cbor v = norm_cbor w"
proof -
  have e: "encodable v" "bs = plain (norm_cbor v)" "encodable w" "bs = plain (norm_cbor w)"
    using assms by (simp_all add: encode_value_Inr)
  then have "plain (norm_cbor v) @ [] = plain (norm_cbor w) @ []" by simp
  then show ?thesis using plain_cancel norm_cbor_encodable e(1,3) by blast
qed

theorem canonical_encoding_injective_witness:
  "norm_cbor (CMap [(CInteger 24, CNull), (CInteger 1, CBool True)]) =
   norm_cbor (CMap [(CInteger 1, CBool True), (CInteger 24, CNull)])"
  by (rule canonical_encoding_injective[where bs = "[0xa2, 0x01, 0xf5, 0x18, 0x18, 0xf6]"])
    (simp_all add: encode_integer_def encode_argument_def key_order_def usize_u64_def)

text \<open>
  C37: \<open>from_canonical_slice\<close> accepts exactly the canonical encodings of bounded depth: it returns a value for a
  byte string if and only if the deserializer does, the byte string is the canonical encoding of the
  value, and the value has at most 32 levels and valid texts. Deeper values are rejected although they
  can be encoded.
\<close>

theorem canonical_slice_exact:
  assumes "length bs \<le> um"
  shows "from_canonical_slice um to_value from_slice bs = Inr x \<longleftrightarrow>
    from_slice bs = Some x \<and>
    (\<exists>v. to_value x = Some v \<and> encode_value v = Inr bs \<and> scannable v \<and> nesting v \<le> 32)"
proof
  assume f: "from_canonical_slice um to_value from_slice bs = Inr x"
  then have s: "scan_item um bs 0 0 = Inr (length bs)" "from_slice bs = Some x" "to_canonical_vec to_value x = Inr bs"
    by (auto simp: from_canonical_slice_def result_simps split: if_splits)
  then obtain v where v: "to_value x = Some v" "encode_value v = Inr bs" by (auto simp: to_canonical_vec_def result_simps)
  then show "from_slice bs = Some x \<and> (\<exists>v. to_value x = Some v \<and> encode_value v = Inr bs \<and> scannable v \<and> nesting v \<le> 32)"
    using scans_canonical[OF v(2) s(1) assms] s(2) by blast
next
  assume r: "from_slice bs = Some x \<and> (\<exists>v. to_value x = Some v \<and> encode_value v = Inr bs \<and> scannable v \<and> nesting v \<le> 32)"
  then obtain v where v: "to_value x = Some v" "encode_value v = Inr bs" "scannable v" "nesting v \<le> 32" by blast
  then show "from_canonical_slice um to_value from_slice bs = Inr x"
    using r canonical_scans[OF v(2,3,4) assms] by (simp add: from_canonical_slice_def to_canonical_vec_def)
qed

fun deep :: "nat \<Rightarrow> cbor" where
  "deep 0 = CNull"
| "deep (Suc n) = CArray [deep n]"

lemma deep_props: "nesting (deep n) = Suc n" "scannable (deep n)" "encode_value (deep n) = Inr (replicate n 0x81 @ [0xf6])"
  by (induction n) (simp_all add: usize_u64_def encode_argument_def)

theorem canonical_slice_exact_witness:
  "from_canonical_slice 100 Some (\<lambda>_. Some (deep 31)) (replicate 31 0x81 @ [0xf6]) = Inr (deep 31) \<and>
   from_canonical_slice 100 Some (\<lambda>_. Some (deep 32)) (replicate 32 0x81 @ [0xf6]) \<noteq> Inr (deep 32)"
  using canonical_slice_exact[of "replicate 31 0x81 @ [0xf6]" 100 Some "\<lambda>_. Some (deep 31)" "deep 31"]
    canonical_slice_exact[of "replicate 32 0x81 @ [0xf6]" 100 Some "\<lambda>_. Some (deep 32)" "deep 32"]
  by (simp add: deep_props)

end
