(* ===== verification/Rust_Format.thy ===== *)
theory Rust_Format
  imports Rust_Text
begin

text \<open>
  Lines, prefixes and decimal numbers of Rust's \<open>str\<close>: the parts of \<open>format!\<close>, \<open>str::parse\<close>,
  \<open>lines\<close>, \<open>split_once\<close>, \<open>strip_prefix\<close> and \<open>strip_suffix\<close> that the text files of the launcher and
  the identifiers of the other components use.
\<close>

section \<open>Prefixes, suffixes and lines\<close>

definition strip_prefix :: "'a list \<Rightarrow> 'a list \<Rightarrow> 'a list option" where
  "strip_prefix p s = (if starts_with p s then Some (drop (length p) s) else None)"

definition strip_suffix_char :: "'a \<Rightarrow> 'a list \<Rightarrow> 'a list option" where
  "strip_suffix_char c s = (if ends_with_char c s then Some (butlast s) else None)"

fun split_once :: "'a \<Rightarrow> 'a list \<Rightarrow> ('a list \<times> 'a list) option" where
  "split_once c [] = None"
| "split_once c (x # xs) = (if x = c then Some ([], xs)
     else map_option (\<lambda>(a, b). (x # a, b)) (split_once c xs))"

abbreviation newline :: u8 where "newline \<equiv> 0x0a"
abbreviation carriage_return :: u8 where "carriage_return \<equiv> 0x0d"

text \<open>\<open>str::lines\<close>: a line loses its newline and a carriage return before it; an unterminated last line is kept
  as it is, and there is no line after the last newline.\<close>

definition lines :: "str \<Rightarrow> str list" where
  "lines s = (let parts = split_on newline s in
     map (\<lambda>l. case strip_suffix_char carriage_return l of None \<Rightarrow> l | Some l' \<Rightarrow> l') (butlast parts) @
     (if last parts = [] then [] else [last parts]))"

section \<open>Numbers\<close>

fun dec_str :: "nat \<Rightarrow> str" where
  "dec_str n = (if n < 10 then [of_nat (48 + n)] else dec_str (n div 10) @ [of_nat (48 + n mod 10)])"

declare dec_str.simps [simp del]

definition hex_digit :: "nat \<Rightarrow> u8" where
  "hex_digit n = of_nat (if n < 10 then 48 + n else 87 + n)"

text \<open>\<open>{:016x}\<close>\<close>

definition hex16 :: "nat \<Rightarrow> str" where
  "hex16 n = map (\<lambda>i. hex_digit (n div 16 ^ (15 - i) mod 16)) [0..<16]"

text \<open>\<open>str::parse\<close> of an unsigned integer below the given bound: an optional plus sign and at least one
  digit, without overflow.\<close>

fun parse_digits :: "nat \<Rightarrow> nat \<Rightarrow> str \<Rightarrow> nat option" where
  "parse_digits bound acc [] = Some acc"
| "parse_digits bound acc (b # bs) =
     (if is_digit b \<and> acc * 10 + (unat b - 48) < bound
      then parse_digits bound (acc * 10 + (unat b - 48)) bs else None)"

definition parse_unsigned :: "nat \<Rightarrow> str \<Rightarrow> nat option" where
  "parse_unsigned bound s = (let digits = (if starts_with [0x2b] s then tl s else s) in
     if digits = [] then None else parse_digits bound 0 digits)"

section \<open>Lemmas\<close>

lemma strip_prefix_append [simp]: "strip_prefix p (p @ s) = Some s"
  by (simp add: strip_prefix_def starts_with_def)

lemma strip_prefix_Some: "strip_prefix p s = Some r \<longleftrightarrow> s = p @ r"
  by (auto simp: strip_prefix_def starts_with_def) (metis append_take_drop_id)

lemma strip_suffix_char_append [simp]: "strip_suffix_char c (s @ [c]) = Some s"
  by (simp add: strip_suffix_char_def ends_with_char_def)

lemma split_once_append: "c \<notin> set a \<Longrightarrow> split_once c (a @ c # b) = Some (a, b)"
  by (induction a) auto

text \<open>A text made of terminated lines without line breaks.\<close>

definition unlines :: "str list \<Rightarrow> str" where
  "unlines ls = concat (map (\<lambda>l. l @ [newline]) ls)"

definition plain_line :: "str \<Rightarrow> bool" where
  "plain_line l = (newline \<notin> set l \<and> carriage_return \<notin> set l)"

lemma plain_line_append [simp]: "plain_line (a @ b) \<longleftrightarrow> plain_line a \<and> plain_line b"
  by (auto simp: plain_line_def)

lemma split_unlines: "list_all plain_line ls \<Longrightarrow> split_on newline (unlines ls) = ls @ [[]]"
proof (induction ls)
  case (Cons l ls)
  then show ?case by (simp add: unlines_def plain_line_def split_on_append_sep)
qed (simp add: unlines_def)

lemma lines_unlines: "list_all plain_line ls \<Longrightarrow> lines (unlines ls) = ls"
proof -
  assume p: "list_all plain_line ls"
  have "map (\<lambda>l. case strip_suffix_char carriage_return l of None \<Rightarrow> l | Some l' \<Rightarrow> l') ls = ls"
  proof (rule map_idI)
    fix l assume "l \<in> set ls"
    then have "carriage_return \<notin> set l" using p by (auto simp: list_all_iff plain_line_def)
    then have "\<not> ends_with_char carriage_return l" using last_in_set[of l] by (fastforce simp: ends_with_char_def)
    then show "(case strip_suffix_char carriage_return l of None \<Rightarrow> l | Some l' \<Rightarrow> l') = l"
      by (simp add: strip_suffix_char_def)
  qed
  then show ?thesis by (simp add: lines_def split_unlines[OF p])
qed

lemma ends_unlines: "ls \<noteq> [] \<Longrightarrow> ends_with_char newline (unlines ls)"
  by (induction ls rule: rev_induct) (auto simp: unlines_def ends_with_char_def)

lemma digit_char:
  assumes "d < 10"
  shows "is_digit (of_nat (48 + d))" "unat (of_nat (48 + d) :: u8) = 48 + d"
proof -
  show u: "unat (of_nat (48 + d) :: u8) = 48 + d"
    using assms by (simp add: unat_of_nat take_bit_eq_mod del: of_nat_add)
  show "is_digit (of_nat (48 + d))"
    using assms u by (simp add: is_digit_def word_le_nat_alt del: of_nat_add)
qed

lemma dec_str_digits: "b \<in> set (dec_str n) \<Longrightarrow> is_digit b"
proof (induction n rule: dec_str.induct)
  case (1 n)
  show ?case
  proof (cases "n < 10")
    case True
    then show ?thesis using 1(2) digit_char(1)[of n] by (simp add: dec_str.simps[of n])
  next
    case False
    then show ?thesis
      using 1 digit_char(1)[of "n mod 10"] by (auto simp: dec_str.simps[of n])
  qed
qed

lemma dec_str_not_Nil [simp]: "dec_str n \<noteq> []"
  by (simp add: dec_str.simps[of n])

lemma parse_digits_append:
  "parse_digits bound acc (xs @ ys) = Option.bind (parse_digits bound acc xs) (\<lambda>a. parse_digits bound a ys)"
  by (induction xs arbitrary: acc) auto

lemma parse_dec_digits: "n < bound \<Longrightarrow> parse_digits bound 0 (dec_str n) = Some n"
proof (induction n rule: dec_str.induct)
  case (1 n)
  show ?case
  proof (cases "n < 10")
    case True
    then show ?thesis using digit_char[of n] 1(2) by (simp add: dec_str.simps[of n] del: of_nat_add)
  next
    case False
    then have "parse_digits bound 0 (dec_str (n div 10)) = Some (n div 10)" using 1 by simp
    then show ?thesis
      using False digit_char[of "n mod 10"] 1(2)
      by (simp add: dec_str.simps[of n] parse_digits_append del: of_nat_add)
  qed
qed

lemma parse_dec_str [simp]:
  assumes "n < bound"
  shows "parse_unsigned bound (dec_str n) = Some n"
proof -
  have "\<not> starts_with [0x2b] (dec_str n)"
    using dec_str_digits[of "hd (dec_str n)" n] by (cases "dec_str n") (auto simp: starts_with_def is_digit_def)
  then show ?thesis using parse_dec_digits[OF assms] by (simp add: parse_unsigned_def)
qed

lemma parse_unsigned_bound: "parse_unsigned bound s = Some n \<Longrightarrow> 0 < bound \<Longrightarrow> n < bound"
proof -
  have "parse_digits bound acc ds = Some n \<Longrightarrow> acc < bound \<Longrightarrow> n < bound" for acc ds
    by (induction ds arbitrary: acc) (auto split: if_split_asm)
  then show "parse_unsigned bound s = Some n \<Longrightarrow> 0 < bound \<Longrightarrow> n < bound"
    by (auto simp: parse_unsigned_def Let_def split: if_split_asm)
qed

lemma plain_digits: "plain_line (dec_str n)"
  using dec_str_digits[of newline n] dec_str_digits[of carriage_return n]
  by (auto simp: plain_line_def is_digit_def)

end
