(* ===== verification/Bundle_Verify.thy ===== *)
theory Bundle_Verify
  imports Bundle_Path Bundle_Header Cbor Rust_Format
begin

text \<open>
  Inspection and verification of a bundle file, \<open>crates/kindlebridge-bundle/src/verify.rs\<close>. The file
  is its content, as for \<open>inspect_bytes\<close> and \<open>verify_bytes\<close>; \<open>um\<close> is \<open>usize::MAX\<close>.
  The third-party code is collected in the record \<open>externals\<close>: the hash and signature functions,
  Unicode normalization, the conversions to and from CBOR that \<open>serde\<close> derives, the SemVer parser
  followed by its printer, and the \<open>zstd\<close> functions. \<open>'k\<close> and \<open>'s\<close> are the types of verifying keys and
  signatures.
\<close>

record ('k, 's) externals =
  x_blake3 :: "bytes \<Rightarrow> digest"
  x_crc32c :: "bytes \<Rightarrow> u32"
  x_nfc :: nfc
  x_key_from_bytes :: "bytes \<Rightarrow> 'k option"
  x_signature_from_slice :: "bytes \<Rightarrow> 's option"
  x_verify :: "'k \<Rightarrow> bytes \<Rightarrow> 's \<Rightarrow> bool"
  x_envelope_to_value :: "cbor envelope \<Rightarrow> cbor option"
  x_envelope_from_slice :: "bytes \<Rightarrow> cbor envelope option"
  x_signatures_to_value :: "signature_entry list \<Rightarrow> cbor option"
  x_signatures_from_slice :: "bytes \<Rightarrow> signature_entry list option"
  x_entries_to_value :: "file_entry list \<Rightarrow> cbor option"
  x_rotation_to_value :: "rotation_proof_signed_data \<Rightarrow> cbor option"
  x_semver :: "str \<Rightarrow> str option"
  x_zstd_frame_size :: "bytes \<Rightarrow> nat option"
  x_zstd_content_size :: "bytes \<Rightarrow> u64 option option"
  x_zstd_dict_id :: "bytes \<Rightarrow> nat option"
  x_zstd_decompress :: "bytes \<Rightarrow> nat \<Rightarrow> bytes option"

definition BLOCK_SIZE :: nat where "BLOCK_SIZE = 65536"
definition PROFILE :: str where "PROFILE = lit ''kindlebridge.bundle.v1''"
definition MAX_ENTRIES :: nat where "MAX_ENTRIES = 65535"
definition MAX_BLOCKS :: nat where "MAX_BLOCKS = 65535"
definition MAX_BLOCK_REFS :: nat where "MAX_BLOCK_REFS = 131072"
definition MAX_ANNOTATIONS :: nat where "MAX_ANNOTATIONS = 128"

definition KNOWN_PERMISSIONS :: "str list" where
  "KNOWN_PERMISSIONS =
     [lit ''bundle.install'', lit ''bundle.publish.dev'', lit ''debug.native'', lit ''device.admin'',
      lit ''device.read'', lit ''fs.app'', lit ''fs.user'', lit ''network.forward'', lit ''perf.read'',
      lit ''process.app'', lit ''shell.root'', lit ''shell.user'', lit ''ui.capture'', lit ''ui.inject'',
      lit ''ui.inspect'']"

record inspection =
  in_header :: kbb_header
  in_envelope :: "cbor envelope"
  in_signatures :: "signature_entry list"
  in_file_length :: u64

record 'k verify_options =
  vo_expected_publisher :: "'k option"
  vo_target :: "str option"
  vo_firmware :: "str option"

section \<open>Reading\<close>

text \<open>\<open>read_exact\<close> of the empty buffer succeeds at any position.\<close>

definition read_section :: "nat \<Rightarrow> bytes \<Rightarrow> u64 \<Rightarrow> u64 \<Rightarrow> bytes bundle_result" where
  "read_section um data offset len =
     (if um < unat len then Inl EBounds
      else if len = 0 then Inr []
      else if unat offset + unat len \<le> length data then Inr (sub_slice (unat offset) (unat len) data)
      else Inl EIo)"

text \<open>The loop over chunks of at most 4096 bytes.\<close>

function check_zero_loop :: "bytes \<Rightarrow> nat \<Rightarrow> nat \<Rightarrow> unit bundle_result" where
  "check_zero_loop data position remaining =
     (if remaining = 0 then Inr ()
      else let chunk = min remaining 4096 in
        if length data < position + chunk then Inl EIo
        else if list_ex (\<lambda>b. b \<noteq> 0) (sub_slice position chunk data) then Inl EHeader
        else check_zero_loop data (position + chunk) (remaining - chunk))"
  by pat_completeness auto
termination
  by (relation "measure (\<lambda>(data, position, remaining). remaining)") auto

declare check_zero_loop.simps [simp del]

definition check_zero_range :: "bytes \<Rightarrow> u64 \<Rightarrow> u64 \<Rightarrow> unit bundle_result" where
  "check_zero_range data start stop =
     (if stop < start then Inl EBounds
      else check_zero_loop data (unat start) (unat (stop - start)))"

section \<open>Firmware versions\<close>

datatype ordering = Less | Equal | Greater

definition cmp :: "'a::linorder \<Rightarrow> 'a \<Rightarrow> ordering" where
  "cmp a b = (if a < b then Less else if a = b then Equal else Greater)"

fun compare_firmware :: "u64 list \<Rightarrow> u64 list \<Rightarrow> ordering" where
  "compare_firmware [] [] = Equal"
| "compare_firmware (x # xs) [] = (case cmp x 0 of Equal \<Rightarrow> compare_firmware xs [] | r \<Rightarrow> r)"
| "compare_firmware [] (y # ys) = (case cmp 0 y of Equal \<Rightarrow> compare_firmware [] ys | r \<Rightarrow> r)"
| "compare_firmware (x # xs) (y # ys) = (case cmp x y of Equal \<Rightarrow> compare_firmware xs ys | r \<Rightarrow> r)"

definition validate_firmware_bound :: "u64 list option \<Rightarrow> unit bundle_result" where
  "validate_firmware_bound bound = (case bound of
     None \<Rightarrow> Inr ()
   | Some b \<Rightarrow> if b = [] \<or> 8 < length b \<or> list_ex (\<lambda>c. 65535 < c) b \<or> (1 < length b \<and> hd b = 0)
       then Inl ESchema else Inr ())"

definition parse_u64 :: "str \<Rightarrow> u64 option" where
  "parse_u64 s = map_option of_nat (parse_unsigned (2 ^ 64) s)"

fun parse_all :: "str list \<Rightarrow> u64 list option" where
  "parse_all [] = Some []"
| "parse_all (s # ss) = (case parse_u64 s of
     None \<Rightarrow> None | Some v \<Rightarrow> map_option ((#) v) (parse_all ss))"

definition parse_firmware :: "str \<Rightarrow> u64 list bundle_result" where
  "parse_firmware value =
     rbind (ok_or (parse_all (split_on dot value)) ETarget) (\<lambda>components.
     rbind (validate_firmware_bound (Some components)) (\<lambda>_. Inr components))"

section \<open>Digests with a domain\<close>

definition compute_key_id :: "('k, 's) externals \<Rightarrow> bytes \<Rightarrow> digest" where
  "compute_key_id x public_key =
     x_blake3 x (lit ''KBB-KEY-ID-V1'' @ [0] @ le_bytes 2 (1 :: u16) @ public_key)"

definition compute_tree_root :: "('k, 's) externals \<Rightarrow> file_entry list \<Rightarrow> digest bundle_result" where
  "compute_tree_root x entries =
     rbind (to_canonical_vec (x_entries_to_value x) entries) (\<lambda>encoded.
       Inr (x_blake3 x (lit ''KBB-TREE-V1'' @ [0] @ encoded)))"

definition signature_input :: "digest \<Rightarrow> bytes" where
  "signature_input bundle_root =
     lit ''KBB-SIGNATURE-V1'' @ [0] @ le_bytes 2 FORMAT_MAJOR @ le_bytes 2 FORMAT_MINOR @ bundle_root"

definition rotation_proof_digest :: "('k, 's) externals \<Rightarrow> rotation_proof \<Rightarrow> digest bundle_result" where
  "rotation_proof_digest x proof =
     rbind (to_canonical_vec (x_rotation_to_value x) (rp_signed proof)) (\<lambda>signed.
       Inr (x_blake3 x (lit ''KBB-ROTATION-PROOF-V1'' @ [0] @ signed @ rp_signature proof)))"

section \<open>Metadata\<close>

definition validate_publisher :: "('k, 's) externals \<Rightarrow> cbor envelope \<Rightarrow> unit bundle_result" where
  "validate_publisher x envelope =
     (let p = env_publisher envelope in
      if pub_algorithm p \<noteq> 1 \<or> length (pub_public_key p) \<noteq> 32 then Inl EProfilePolicy
      else if compute_key_id x (pub_public_key p) \<noteq> pub_key_id p then Inl EPublisher
      else Inr ())"

text \<open>The loop over the block references of a regular file, with the sum so far.\<close>

fun chunk_loop :: "u64 \<Rightarrow> block_ref list \<Rightarrow> u64 bundle_result" where
  "chunk_loop acc [] = Inr acc"
| "chunk_loop acc ((_, raw_size) # refs) =
     (if raw_size = 0 \<or> of_nat BLOCK_SIZE < raw_size \<or> (refs \<noteq> [] \<and> raw_size \<noteq> of_nat BLOCK_SIZE)
      then Inl ETree
      else rbind (ok_or (checked_add_u64 acc raw_size) EBounds) (\<lambda>acc'. chunk_loop acc' refs))"

definition validate_file_entry :: "('k, 's) externals \<Rightarrow> file_entry \<Rightarrow> unit bundle_result" where
  "validate_file_entry x entry = (case fe_type entry of
     Directory \<Rightarrow>
       if fe_mode entry \<noteq> Some 0 \<or> fe_size entry \<noteq> None \<or> fe_file_digest entry \<noteq> None
          \<or> fe_block_refs entry \<noteq> None \<or> fe_target entry \<noteq> None
       then Inl ETree else Inr ()
   | Regular \<Rightarrow>
       if \<not> (fe_mode entry = Some 0 \<or> fe_mode entry = Some 1) \<or> fe_target entry \<noteq> None then Inl ETree
       else (case (fe_size entry, fe_file_digest entry, fe_block_refs entry) of
           (Some sz, Some file_digest, Some refs) \<Rightarrow>
             if sz = 0 \<and> (refs \<noteq> [] \<or> file_digest \<noteq> x_blake3 x []) then Inl ETree
             else if sz \<noteq> 0 \<and> refs = [] then Inl ETree
             else rbind (chunk_loop 0 refs) (\<lambda>total. if total \<noteq> sz then Inl ETree else Inr ())
         | _ \<Rightarrow> Inl ETree)
   | SymlinkRelative \<Rightarrow>
       if fe_mode entry \<noteq> None \<or> fe_size entry \<noteq> None \<or> fe_file_digest entry \<noteq> None
          \<or> fe_block_refs entry \<noteq> None
       then Inl ETree
       else (case fe_target entry of None \<Rightarrow> Inl ETree | Some t \<Rightarrow> validate_symlink_target (x_nfc x) t))"

fun entries_loop :: "nat \<Rightarrow> ('k, 's) externals \<Rightarrow> nat \<Rightarrow> file_entry list \<Rightarrow> nat bundle_result" where
  "entries_loop um x total_refs [] = Inr total_refs"
| "entries_loop um x total_refs (entry # entries) =
     rbind (validate_file_entry x entry) (\<lambda>_.
       case fe_block_refs entry of
         None \<Rightarrow> entries_loop um x total_refs entries
       | Some refs \<Rightarrow> if um < total_refs + length refs then Inl EBounds
           else entries_loop um x (total_refs + length refs) entries)"

text \<open>\<open>binary_search_by\<close> on the entries, which are strictly sorted by path when it is called.\<close>

definition find_entry :: "file_entry list \<Rightarrow> str \<Rightarrow> file_entry option" where
  "find_entry entries path = List.find (\<lambda>e. fe_path e = path) entries"

fun entrypoints_loop :: "nfc \<Rightarrow> file_entry list \<Rightarrow> (str \<times> str) list \<Rightarrow> unit bundle_result" where
  "entrypoints_loop nfc entries [] = Inr ()"
| "entrypoints_loop nfc entries ((name, path) # rest) =
     (if name = [] \<or> 64 < length name then Inl ESchema
      else rbind (validate_bundle_path nfc path) (\<lambda>_.
        rbind (ok_or (find_entry entries path) ETree) (\<lambda>entry.
          if fe_type entry \<noteq> Regular \<or> fe_mode entry \<noteq> Some 1 then Inl ETree
          else entrypoints_loop nfc entries rest)))"

definition validate_variant_and_tree :: "nat \<Rightarrow> ('k, 's) externals \<Rightarrow> cbor envelope \<Rightarrow> unit bundle_result" where
  "validate_variant_and_tree um x envelope = (case env_variants envelope of
     [] \<Rightarrow> Inl EPanicked
   | variant # _ \<Rightarrow>
     if va_target variant \<noteq> lit ''kindlehf'' \<and> va_target variant \<noteq> lit ''kindlepw2'' then Inl ETarget
     else if va_os variant = [] \<or> va_arch variant = [] \<or> va_abi variant = [] then Inl ESchema
     else
       rbind (validate_firmware_bound (va_firmware_min variant)) (\<lambda>_.
       rbind (validate_firmware_bound (va_firmware_max_exclusive variant)) (\<lambda>_.
       rbind (case (va_firmware_min variant, va_firmware_max_exclusive variant) of
           (Some lo, Some hi) \<Rightarrow> ensure (compare_firmware lo hi = Less) ESchema
         | _ \<Rightarrow> Inr ()) (\<lambda>_.
       if \<not> strictly_sorted (va_required_features variant) \<or> \<not> strictly_sorted (va_optional_features variant)
       then Inl ESchema
       else (case env_trees envelope of
         [tree] \<Rightarrow>
           if tree_root tree \<noteq> va_tree variant then Inl EProfilePolicy
           else if MAX_ENTRIES < length (tree_entries tree) then Inl EBounds
           else
             rbind (validate_tree_paths (x_nfc x) (tree_entries tree)) (\<lambda>_.
             rbind (entries_loop um x 0 (tree_entries tree)) (\<lambda>total_refs.
             if MAX_BLOCK_REFS < total_refs then Inl EBounds
             else
               rbind (validate_symlinks (x_nfc x) (tree_entries tree)) (\<lambda>_.
               rbind (compute_tree_root x (tree_entries tree)) (\<lambda>root.
               if root \<noteq> tree_root tree then Inl ETree
               else if env_kind envelope = Application \<and>
                  lit ''main'' \<notin> fst ` set (va_entrypoints variant)
               then Inl ESchema
               else entrypoints_loop (x_nfc x) (tree_entries tree) (va_entrypoints variant)))))
       | _ \<Rightarrow> Inl EProfilePolicy)))))"

text \<open>The blocks the entries refer to, and the keys of the block table.\<close>

definition referenced_blocks :: "file_entry list \<Rightarrow> block_ref set" where
  "referenced_blocks entries =
     \<Union> (set (map (\<lambda>e. case fe_block_refs e of None \<Rightarrow> {} | Some refs \<Rightarrow> set refs) entries))"

definition block_key :: "block_descriptor \<Rightarrow> block_ref" where
  "block_key d = (bd_digest d, bd_raw_size d)"

fun blocks_loop ::
  "block_ref option \<Rightarrow> u64 \<Rightarrow> block_ref set \<Rightarrow> block_descriptor list \<Rightarrow> (u64 \<times> block_ref set) bundle_result" where
  "blocks_loop previous expected_offset descriptor_keys [] = Inr (expected_offset, descriptor_keys)"
| "blocks_loop previous expected_offset descriptor_keys (d # ds) =
     (if (case previous of None \<Rightarrow> False | Some p \<Rightarrow> block_key d \<le> p) then Inl EBlock
      else if \<not> (1 \<le> bd_raw_size d \<and> bd_raw_size d \<le> of_nat BLOCK_SIZE) \<or> bd_stored_size d = 0
         \<or> of_nat BLOCK_SIZE < bd_stored_size d \<or> \<not> (bd_codec d = 0 \<or> bd_codec d = 1)
      then Inl EBlock
      else if bd_codec d = 0 \<and> (bd_stored_size d \<noteq> bd_raw_size d \<or> bd_stored_digest d \<noteq> bd_digest d)
      then Inl EBlock
      else if bd_codec d = 1 \<and> bd_raw_size d \<le> bd_stored_size d then Inl EBlock
      else rbind (align8 expected_offset) (\<lambda>aligned.
        if bd_payload_offset d \<noteq> aligned then Inl EBlock
        else rbind (ok_or (checked_add_u64 aligned (bd_stored_size d)) EBounds) (\<lambda>stop.
          blocks_loop (Some (block_key d)) stop (insert (block_key d) descriptor_keys) ds)))"

definition validate_blocks :: "cbor envelope \<Rightarrow> kbb_header \<Rightarrow> unit bundle_result" where
  "validate_blocks envelope header =
     (if MAX_BLOCKS < length (env_blocks envelope) then Inl EBounds
      else (case env_trees envelope of
        [] \<Rightarrow> Inl EPanicked
      | tree # _ \<Rightarrow>
        rbind (blocks_loop None 0 {} (env_blocks envelope)) (\<lambda>(expected_offset, descriptor_keys).
        rbind (if env_blocks envelope = [] then Inr 0 else align8 expected_offset) (\<lambda>expected_payload_length.
        if kh_payload_length header \<noteq> expected_payload_length then Inl EBlock
        else if descriptor_keys \<noteq> referenced_blocks (tree_entries tree) then Inl EBlock
        else Inr ()))))"

definition valid_environment_key :: "str \<Rightarrow> bool" where
  "valid_environment_key key =
     (key \<noteq> [] \<and> length key \<le> 64 \<and> (is_upper (hd key) \<or> hd key = 0x5f)
      \<and> list_all (\<lambda>b. is_upper b \<or> is_digit b \<or> b = 0x5f) key)"

definition bad_environment :: "str \<times> str \<Rightarrow> bool" where
  "bad_environment = (\<lambda>(key, value). \<not> valid_environment_key key \<or> starts_with (lit ''KINDLEBRIDGE_'') key
     \<or> starts_with (lit ''LD_'') key \<or> 0 \<in> set value)"

definition validate_process :: "nfc \<Rightarrow> tree list \<Rightarrow> process_policy \<Rightarrow> unit bundle_result" where
  "validate_process nfc trees process =
     (if 30000 < pp_stop_timeout_ms process then Inl ESchema
      else rbind (case pp_working_dir process of
          None \<Rightarrow> Inr ()
        | Some path \<Rightarrow> rbind (validate_bundle_path nfc path) (\<lambda>_.
            case trees of
              [] \<Rightarrow> Inl EPanicked
            | tree # _ \<Rightarrow> rbind (ok_or (find_entry (tree_entries tree) path) ETree) (\<lambda>entry.
                ensure (fe_type entry = Directory) ETree))) (\<lambda>_.
        case pp_environment process of
          None \<Rightarrow> Inr ()
        | Some environment \<Rightarrow> if list_ex bad_environment environment then Inl ESchema else Inr ()))"

definition validate_permissions_and_policy ::
  "('k, 's) externals \<Rightarrow> cbor envelope \<Rightarrow> unit bundle_result" where
  "validate_permissions_and_policy x envelope =
     (let p = env_permissions envelope in
      if \<not> strictly_sorted (pm_requested p) \<or> \<not> strictly_sorted (pm_optional p) then Inl ESchema
      else if list_ex (\<lambda>permission. permission \<notin> set KNOWN_PERMISSIONS) (pm_requested p) then Inl ESchema
      else if list_ex (\<lambda>permission. permission \<in> set (pm_optional p)) (pm_requested p) then Inl ESchema
      else
        rbind (case env_process envelope of
            None \<Rightarrow> Inr () | Some process \<Rightarrow> validate_process (x_nfc x) (env_trees envelope) process) (\<lambda>_.
        if env_kind envelope \<noteq> DeviceProfile then Inr ()
        else (case env_variants envelope of
            [] \<Rightarrow> Inl EPanicked
          | variant # _ \<Rightarrow>
            if va_entrypoints variant \<noteq> [] \<or> pm_requested p \<noteq> [] \<or> pm_optional p \<noteq> []
               \<or> env_process envelope \<noteq> None \<or> dp_policy (env_data envelope) \<noteq> Ephemeral
            then Inl EProfilePolicy
            else (case env_trees envelope of
                [] \<Rightarrow> Inl EPanicked
              | tree # _ \<Rightarrow>
                if list_ex (\<lambda>e. fe_type e = Regular \<and> fe_mode e \<noteq> Some 0) (tree_entries tree)
                then Inl EProfilePolicy else Inr ()))))"

definition validate_signature_shape :: "cbor envelope \<Rightarrow> signature_entry list \<Rightarrow> unit bundle_result" where
  "validate_signature_shape envelope signatures = (case signatures of
     [] \<Rightarrow> Inl EPanicked
   | signature # _ \<Rightarrow>
     if se_role signature \<noteq> 1 \<or> se_algorithm signature \<noteq> 1
        \<or> se_key_id signature \<noteq> pub_key_id (env_publisher envelope) \<or> length (se_signature signature) \<noteq> 64
     then Inl EProfilePolicy else Inr ())"

definition validate_metadata ::
  "nat \<Rightarrow> ('k, 's) externals \<Rightarrow> cbor envelope \<Rightarrow> signature_entry list \<Rightarrow> kbb_header \<Rightarrow> unit bundle_result" where
  "validate_metadata um x envelope signatures header =
     (if env_schema envelope \<noteq> 1 \<or> env_profile envelope \<noteq> PROFILE then Inl EProfilePolicy
      else if length (env_variants envelope) \<noteq> 1 \<or> env_dependencies envelope \<noteq> []
         \<or> env_migrations envelope \<noteq> [] \<or> env_signature_policy envelope \<noteq> default_signature_policy
         \<or> length signatures \<noteq> 1
      then Inl EProfilePolicy
      else
        rbind (validate_logical_id (env_id envelope)) (\<lambda>_.
        if 64 < length (env_version envelope) then Inl ESchema
        else
          rbind (ok_or (x_semver x (env_version envelope)) ESchema) (\<lambda>printed.
          if printed \<noteq> env_version envelope \<or> env_release envelope = 0 then Inl ESchema
          else
            rbind (validate_channel (env_channel envelope)) (\<lambda>_.
            rbind (validate_publisher x envelope) (\<lambda>_.
            rbind (validate_variant_and_tree um x envelope) (\<lambda>_.
            rbind (validate_blocks envelope header) (\<lambda>_.
            rbind (validate_permissions_and_policy x envelope) (\<lambda>_.
            rbind (validate_signature_shape envelope signatures) (\<lambda>_.
            if 16 < length (env_rotation envelope) then Inl EBounds
            else (case env_annotations envelope of
                None \<Rightarrow> Inr ()
              | Some annotations \<Rightarrow>
                  if MAX_ANNOTATIONS < length annotations
                     \<or> list_ex (\<lambda>(key, value). 256 < length key \<or> 4096 < length value) annotations
                  then Inl EBounds else Inr ())))))))))) "

definition inspect :: "nat \<Rightarrow> ('k, 's) externals \<Rightarrow> bytes \<Rightarrow> inspection bundle_result" where
  "inspect um x data =
     (if length data < KBB_HEADER_SIZE then Inl EHeader
      else
        rbind (kbb_decode (x_crc32c x) (take KBB_HEADER_SIZE data) (of_nat (length data))) (\<lambda>header.
        rbind (read_section um data (of_nat KBB_HEADER_SIZE) (kh_envelope_length header)) (\<lambda>envelope_bytes.
        if x_blake3 x envelope_bytes \<noteq> kh_bundle_root header then Inl EHeader
        else
          rbind (check_zero_range data (of_nat KBB_HEADER_SIZE + kh_envelope_length header)
            (kh_signature_offset header)) (\<lambda>_.
          rbind (read_section um data (kh_signature_offset header) (kh_signature_length header)) (\<lambda>signature_bytes.
          rbind (check_zero_range data (kh_signature_offset header + kh_signature_length header)
            (kh_payload_offset header)) (\<lambda>_.
          rbind (from_canonical_slice um (x_envelope_to_value x) (x_envelope_from_slice x) envelope_bytes) (\<lambda>envelope.
          rbind (from_canonical_slice um (x_signatures_to_value x) (x_signatures_from_slice x) signature_bytes) (\<lambda>signatures.
          rbind (validate_metadata um x envelope signatures header) (\<lambda>_.
          Inr \<lparr>in_header = header, in_envelope = envelope, in_signatures = signatures,
               in_file_length = of_nat (length data)\<rparr>)))))))))"

section \<open>Signatures\<close>

definition verify_publisher :: "('k, 's) externals \<Rightarrow> inspection \<Rightarrow> 'k option \<Rightarrow> unit bundle_result" where
  "verify_publisher x inspection expected_publisher =
     (let public_key = pub_public_key (env_publisher (in_envelope inspection)) in
      if length public_key \<noteq> 32 then Inl EPanicked
      else
        rbind (ok_or (x_key_from_bytes x public_key) EPublisher) (\<lambda>verifying_key.
        if (case expected_publisher of None \<Rightarrow> False | Some expected \<Rightarrow> expected \<noteq> verifying_key)
        then Inl EPublisher
        else (case in_signatures inspection of
            [] \<Rightarrow> Inl EPanicked
          | entry # _ \<Rightarrow>
            rbind (ok_or (x_signature_from_slice x (se_signature entry)) ESignature) (\<lambda>signature.
            ensure (x_verify x verifying_key
              (signature_input (kh_bundle_root (in_header inspection))) signature) ESignature))))"

definition validate_rotation_fields :: "rotation_proof \<Rightarrow> cbor envelope \<Rightarrow> unit bundle_result" where
  "validate_rotation_fields proof envelope =
     (let s = rp_signed proof in
      if rs_schema s \<noteq> 1 \<or> rs_app_id s \<noteq> env_id envelope \<or> rs_channel s \<noteq> env_channel envelope
         \<or> rs_from_algorithm s \<noteq> 1 \<or> rs_to_algorithm s \<noteq> 1 \<or> length (rs_from_public_key s) \<noteq> 32
         \<or> length (rs_to_public_key s) \<noteq> 32 \<or> rs_flags s \<noteq> 0 \<or> length (rp_signature proof) \<noteq> 64
      then Inl EPublisher else Inr ())"

text \<open>
  The loop over the rotation proofs with its four variables; \<open>index = 0\<close> is the state in which no
  proof has been accepted.
\<close>

record rotation_state =
  ro_first :: bool
  ro_previous_digest :: "digest option"
  ro_previous_to :: "bytes option"
  ro_previous_release :: u64
  ro_seen :: "bytes set"

definition rotation_start :: rotation_state where
  "rotation_start = \<lparr>ro_first = True, ro_previous_digest = None, ro_previous_to = None,
     ro_previous_release = 0, ro_seen = {}\<rparr>"

definition rotation_step ::
  "('k, 's) externals \<Rightarrow> cbor envelope \<Rightarrow> rotation_proof \<Rightarrow> rotation_state \<Rightarrow> rotation_state bundle_result" where
  "rotation_step x envelope proof st =
     (let s = rp_signed proof in
      rbind (validate_rotation_fields proof envelope) (\<lambda>_.
      if \<not> ro_first st \<and> (ro_previous_to st \<noteq> Some (rs_from_public_key s)
           \<or> ro_previous_digest st \<noteq> Some (rs_previous_proof_digest s))
      then Inl EPublisher
      else
        let seen = (if ro_first st then insert (rs_from_public_key s) (ro_seen st) else ro_seen st) in
        if rs_valid_from_release s \<le> ro_previous_release st
           \<or> env_release envelope < rs_valid_from_release s \<or> rs_to_public_key s \<in> seen
        then Inl EPublisher
        else if length (rs_from_public_key s) \<noteq> 32 then Inl EPanicked
        else
          rbind (ok_or (x_key_from_bytes x (rs_from_public_key s)) EPublisher) (\<lambda>key.
          rbind (to_canonical_vec (x_rotation_to_value x) s) (\<lambda>signed.
          rbind (ok_or (x_signature_from_slice x (rp_signature proof)) ESignature) (\<lambda>signature.
          if \<not> x_verify x key (lit ''KBB-ROTATION-V1'' @ [0] @ signed) signature then Inl ESignature
          else
            rbind (rotation_proof_digest x proof) (\<lambda>digest.
            Inr \<lparr>ro_first = False, ro_previous_digest = Some digest,
                 ro_previous_to = Some (rs_to_public_key s),
                 ro_previous_release = rs_valid_from_release s,
                 ro_seen = insert (rs_to_public_key s) seen\<rparr>))))))"

fun rotation_loop ::
  "('k, 's) externals \<Rightarrow> cbor envelope \<Rightarrow> rotation_proof list \<Rightarrow> rotation_state \<Rightarrow> rotation_state bundle_result" where
  "rotation_loop x envelope [] st = Inr st"
| "rotation_loop x envelope (p # ps) st =
     rbind (rotation_step x envelope p st) (\<lambda>st'. rotation_loop x envelope ps st')"

definition verify_rotation :: "('k, 's) externals \<Rightarrow> cbor envelope \<Rightarrow> unit bundle_result" where
  "verify_rotation x envelope =
     rbind (rotation_loop x envelope (env_rotation envelope) rotation_start) (\<lambda>st.
     case ro_previous_to st of
       None \<Rightarrow> Inr ()
     | Some terminal_key \<Rightarrow> ensure (terminal_key = pub_public_key (env_publisher envelope)) EPublisher)"

section \<open>Payload\<close>

definition read_raw_block ::
  "nat \<Rightarrow> ('k, 's) externals \<Rightarrow> bytes \<Rightarrow> u64 \<Rightarrow> block_descriptor \<Rightarrow> bytes bundle_result" where
  "read_raw_block um x data payload_section_offset d =
     rbind (ok_or (checked_add_u64 payload_section_offset (bd_payload_offset d)) EBounds) (\<lambda>offset.
     rbind (read_section um data offset (bd_stored_size d)) (\<lambda>stored.
     if x_blake3 x stored \<noteq> bd_stored_digest d then Inl EBlock
     else if bd_codec d = 0 then Inr stored
     else
       rbind (ok_or (x_zstd_frame_size x stored) EBlock) (\<lambda>frame_size.
       if frame_size \<noteq> length stored then Inl EBlock
       else
         rbind (ok_or (x_zstd_content_size x stored) EBlock) (\<lambda>content_size.
         if content_size \<noteq> Some (bd_raw_size d) then Inl EBlock
         else if x_zstd_dict_id x stored \<noteq> None then Inl EBlock
         else if um < unat (bd_raw_size d) then Inl EBounds
         else ok_or (x_zstd_decompress x stored (unat (bd_raw_size d))) EBlock))))"

fun payload_blocks_loop ::
  "nat \<Rightarrow> ('k, 's) externals \<Rightarrow> bytes \<Rightarrow> kbb_header \<Rightarrow> u64 \<Rightarrow> block_descriptor list \<Rightarrow> u64 bundle_result" where
  "payload_blocks_loop um x data header previous_end [] = Inr previous_end"
| "payload_blocks_loop um x data header previous_end (d # ds) =
     rbind (check_zero_range data (kh_payload_offset header + previous_end)
       (kh_payload_offset header + bd_payload_offset d)) (\<lambda>_.
     rbind (read_raw_block um x data (kh_payload_offset header) d) (\<lambda>raw.
     if x_blake3 x raw \<noteq> bd_digest d then Inl EBlock
     else payload_blocks_loop um x data header (bd_payload_offset d + bd_stored_size d) ds))"

definition descriptor_index :: "block_descriptor list \<Rightarrow> (block_ref \<rightharpoonup> block_descriptor)" where
  "descriptor_index blocks = map_of (rev (map (\<lambda>d. (block_key d, d)) blocks))"

text \<open>The bytes that are fed to the hasher of one regular file.\<close>

fun file_bytes ::
  "nat \<Rightarrow> ('k, 's) externals \<Rightarrow> bytes \<Rightarrow> kbb_header \<Rightarrow> (block_ref \<rightharpoonup> block_descriptor) \<Rightarrow> block_ref list
   \<Rightarrow> bytes bundle_result" where
  "file_bytes um x data header index [] = Inr []"
| "file_bytes um x data header index (r # rs) =
     rbind (ok_or (index r) EPanicked) (\<lambda>d.
     rbind (read_raw_block um x data (kh_payload_offset header) d) (\<lambda>raw.
     rbind (file_bytes um x data header index rs) (\<lambda>rest. Inr (raw @ rest))))"

fun payload_files_loop ::
  "nat \<Rightarrow> ('k, 's) externals \<Rightarrow> bytes \<Rightarrow> kbb_header \<Rightarrow> (block_ref \<rightharpoonup> block_descriptor) \<Rightarrow> file_entry list
   \<Rightarrow> unit bundle_result" where
  "payload_files_loop um x data header index [] = Inr ()"
| "payload_files_loop um x data header index (e # es) =
     (if fe_type e \<noteq> Regular then payload_files_loop um x data header index es
      else
        rbind (ok_or (fe_block_refs e) EPanicked) (\<lambda>refs.
        rbind (file_bytes um x data header index refs) (\<lambda>content.
        rbind (ok_or (fe_file_digest e) EPanicked) (\<lambda>digest.
        if x_blake3 x content \<noteq> digest then Inl ETree
        else payload_files_loop um x data header index es))))"

definition verify_payload :: "nat \<Rightarrow> ('k, 's) externals \<Rightarrow> bytes \<Rightarrow> inspection \<Rightarrow> unit bundle_result" where
  "verify_payload um x data inspection =
     (let envelope = in_envelope inspection; header = in_header inspection in
      rbind (payload_blocks_loop um x data header 0 (env_blocks envelope)) (\<lambda>previous_end.
      rbind (check_zero_range data (kh_payload_offset header + previous_end)
        (kh_payload_offset header + kh_payload_length header)) (\<lambda>_.
      case env_trees envelope of
        [] \<Rightarrow> Inl EPanicked
      | tree # _ \<Rightarrow>
        payload_files_loop um x data header (descriptor_index (env_blocks envelope)) (tree_entries tree))))"

section \<open>Verification\<close>

definition firmware_supported :: "variant \<Rightarrow> u64 list \<Rightarrow> bool" where
  "firmware_supported variant firmware =
     (\<not> (case va_firmware_min variant of
          None \<Rightarrow> False | Some lo \<Rightarrow> compare_firmware firmware lo = Less) \<and>
      \<not> (case va_firmware_max_exclusive variant of
          None \<Rightarrow> False | Some hi \<Rightarrow> compare_firmware firmware hi \<noteq> Less))"

definition verify :: "nat \<Rightarrow> ('k, 's) externals \<Rightarrow> bytes \<Rightarrow> 'k verify_options \<Rightarrow> inspection bundle_result" where
  "verify um x data options =
     rbind (inspect um x data) (\<lambda>inspection.
     rbind (case vo_target options of
         None \<Rightarrow> Inr ()
       | Some target \<Rightarrow> (case env_variants (in_envelope inspection) of
             [] \<Rightarrow> Inl EPanicked
           | variant # _ \<Rightarrow> ensure (va_target variant = target) ETarget)) (\<lambda>_.
     rbind (case vo_firmware options of
         None \<Rightarrow> Inr ()
       | Some firmware \<Rightarrow> rbind (parse_firmware firmware) (\<lambda>version.
           case env_variants (in_envelope inspection) of
             [] \<Rightarrow> Inl EPanicked
           | variant # _ \<Rightarrow> ensure (firmware_supported variant version) ETarget)) (\<lambda>_.
     rbind (verify_publisher x inspection (vo_expected_publisher options)) (\<lambda>_.
     rbind (verify_rotation x (in_envelope inspection)) (\<lambda>_.
     rbind (verify_payload um x data inspection) (\<lambda>_.
     Inr inspection))))))"

lemma if_Inl_Inr: "(if b then Inl e else r) = Inr y \<longleftrightarrow> \<not> b \<and> r = Inr y"
  by simp

section \<open>Padding\<close>

lemma zeros_iff:
  assumes "length xs = c"
  shows "\<not> list_ex (\<lambda>b. b \<noteq> 0) xs \<longleftrightarrow> xs = replicate c (0 :: u8)"
proof
  assume "\<not> list_ex (\<lambda>b. b \<noteq> 0) xs"
  then show "xs = replicate c 0" using assms by (intro replicate_eqI) (auto simp: list_ex_iff)
qed (simp add: list_ex_iff set_replicate_conv_if)

lemma check_zero_step:
  assumes "n \<noteq> 0" "c = min n 4096"
  shows "check_zero_loop data pos n = Inr () \<longleftrightarrow> pos + c \<le> length data \<and>
     sub_slice pos c data = replicate c 0 \<and> check_zero_loop data (pos + c) (n - c) = Inr ()"
proof (cases "pos + c \<le> length data")
  case True
  have "check_zero_loop data pos n =
      (if list_ex (\<lambda>b. b \<noteq> 0) (sub_slice pos c data) then Inl EHeader else check_zero_loop data (pos + c) (n - c))"
    using assms(1) True check_zero_loop.simps[of data pos n] unfolding Let_def assms(2)[symmetric] by simp
  then show ?thesis using True zeros_iff[OF length_sub_slice[OF True]] by (auto simp: if_Inl_Inr)
next
  case False
  then show ?thesis
    using assms(1) check_zero_loop.simps[of data pos n] unfolding Let_def assms(2)[symmetric] by simp
qed

lemma check_zero_loop_iff:
  "check_zero_loop data pos n = Inr () \<longleftrightarrow> n = 0 \<or> pos + n \<le> length data \<and> sub_slice pos n data = replicate n 0"
proof (induction n arbitrary: pos rule: less_induct)
  case (less n)
  show ?case
  proof (cases "n = 0")
    case False
    obtain c where c: "c = min n 4096" by simp
    then have cn: "c \<le> n" "0 < c" using False by simp_all
    have split: "sub_slice pos n data = sub_slice pos c data @ sub_slice (pos + c) (n - c) data"
      using slice_join[of pos c data "n - c"] cn by simp
    have zeros: "replicate n (0::u8) = replicate c 0 @ replicate (n - c) 0"
      using cn by (simp flip: replicate_add)
    have IH: "check_zero_loop data (pos + c) (n - c) = Inr () \<longleftrightarrow> n - c = 0 \<or>
        pos + c + (n - c) \<le> length data \<and> sub_slice (pos + c) (n - c) data = replicate (n - c) 0"
      by (rule less.IH) (use cn in simp)
    show ?thesis
      unfolding check_zero_step[OF False c] IH split zeros
      using False cn length_sub_slice[of pos c data] by auto
  qed (simp add: check_zero_loop.simps)
qed

section \<open>What a successful inspection has checked\<close>

lemma inspect_Inr:
  assumes "inspect um x data = Inr i"
  shows "\<exists>eb sb. 128 \<le> length data \<and>
    kbb_decode (x_crc32c x) (take 128 data) (of_nat (length data)) = Inr (in_header i) \<and>
    read_section um data 128 (kh_envelope_length (in_header i)) = Inr eb \<and>
    x_blake3 x eb = kh_bundle_root (in_header i) \<and>
    from_canonical_slice um (x_envelope_to_value x) (x_envelope_from_slice x) eb = Inr (in_envelope i) \<and>
    from_canonical_slice um (x_signatures_to_value x) (x_signatures_from_slice x) sb = Inr (in_signatures i) \<and>
    validate_metadata um x (in_envelope i) (in_signatures i) (in_header i) = Inr () \<and>
    in_file_length i = of_nat (length data)"
  using assms unfolding inspect_def KBB_HEADER_SIZE_def
  by (auto simp: result_simps split: if_splits)

lemma validate_metadata_Inr:
  assumes "validate_metadata um x env sigs h = Inr ()"
  shows "length (env_variants env) = 1" "length sigs = 1" "validate_publisher x env = Inr ()"
    "validate_variant_and_tree um x env = Inr ()" "validate_blocks env h = Inr ()"
    "validate_permissions_and_policy x env = Inr ()" "validate_signature_shape env sigs = Inr ()"
    "validate_logical_id (env_id env) = Inr ()" "validate_channel (env_channel env) = Inr ()"
  using assms unfolding validate_metadata_def
  by (simp_all add: result_simps if_Inl_Inr split del: if_split)

section \<open>Trees and blocks of an accepted envelope\<close>

lemma validate_variant_and_tree_Inr:
  assumes "validate_variant_and_tree um x env = Inr ()"
  shows "\<exists>variant vs tree cnt. env_variants env = variant # vs \<and> env_trees env = [tree] \<and>
    tree_root tree = va_tree variant \<and> validate_tree_paths (x_nfc x) (tree_entries tree) = Inr () \<and>
    entries_loop um x 0 (tree_entries tree) = Inr cnt \<and>
    validate_symlinks (x_nfc x) (tree_entries tree) = Inr () \<and>
    compute_tree_root x (tree_entries tree) = Inr (tree_root tree) \<and>
    entrypoints_loop (x_nfc x) (tree_entries tree) (va_entrypoints variant) = Inr ()"
  using assms unfolding validate_variant_and_tree_def
  by (auto simp: result_simps if_Inl_Inr split: list.splits split del: if_split)

lemma entries_loop_Inr:
  "entries_loop um x n es = Inr cnt \<Longrightarrow> e \<in> set es \<Longrightarrow> validate_file_entry x e = Inr ()"
  by (induction es arbitrary: n) (auto simp: result_simps if_Inl_Inr split: option.splits split del: if_split)

lemma chunk_loop_Inr:
  "chunk_loop acc refs = Inr t \<Longrightarrow> unat t = unat acc + sum_list (map (\<lambda>r. unat (snd r)) refs)"
proof (induction refs arbitrary: acc)
  case (Cons r refs)
  obtain g s where r: "r = (g, s)" by (cases r)
  then obtain acc' where "checked_add_u64 acc s = Some acc'" "chunk_loop acc' refs = Inr t"
    using Cons.prems by (auto simp: result_simps if_Inl_Inr split del: if_split)
  then show ?case using Cons.IH[of acc'] r by (simp add: checked_add_u64_Some)
qed simp

lemma validate_regular_Inr:
  assumes "validate_file_entry x e = Inr ()" "fe_type e = Regular"
  shows "\<exists>sz dg refs. fe_size e = Some sz \<and> fe_file_digest e = Some dg \<and> fe_block_refs e = Some refs \<and>
    unat sz = sum_list (map (\<lambda>r. unat (snd r)) refs)"
  using assms chunk_loop_Inr[of 0]
  by (fastforce simp: validate_file_entry_def result_simps if_Inl_Inr split: option.splits split del: if_split)

text \<open>Blocks that lie one behind the other from an offset on, each on a multiple of 8.\<close>

fun laid_out :: "nat \<Rightarrow> block_descriptor list \<Rightarrow> nat \<Rightarrow> bool" where
  "laid_out off [] stop = (stop = off)"
| "laid_out off (d # ds) stop =
     (unat (bd_payload_offset d) = align_up8 off \<and>
      laid_out (unat (bd_payload_offset d) + unat (bd_stored_size d)) ds stop)"

definition block_ok :: "block_descriptor \<Rightarrow> bool" where
  "block_ok d = (1 \<le> unat (bd_raw_size d) \<and> unat (bd_raw_size d) \<le> 65536 \<and>
     1 \<le> unat (bd_stored_size d) \<and> unat (bd_stored_size d) \<le> 65536 \<and>
     (bd_codec d = 0 \<and> bd_stored_size d = bd_raw_size d \<and> bd_stored_digest d = bd_digest d \<or>
      bd_codec d = 1 \<and> unat (bd_stored_size d) < unat (bd_raw_size d)))"

lemma block_checks:
  assumes "\<not> (\<not> (1 \<le> bd_raw_size d \<and> bd_raw_size d \<le> of_nat BLOCK_SIZE) \<or> bd_stored_size d = 0
         \<or> of_nat BLOCK_SIZE < bd_stored_size d \<or> \<not> (bd_codec d = 0 \<or> bd_codec d = 1))"
    "\<not> (bd_codec d = 0 \<and> (bd_stored_size d \<noteq> bd_raw_size d \<or> bd_stored_digest d \<noteq> bd_digest d))"
    "\<not> (bd_codec d = 1 \<and> bd_raw_size d \<le> bd_stored_size d)"
  shows "block_ok d"
proof -
  have "unat (bd_stored_size d) \<noteq> 0" using assms(1) by (simp add: unat_eq_zero)
  then show ?thesis
    using assms by (auto simp: block_ok_def BLOCK_SIZE_def word_le_nat_alt word_less_nat_alt)
qed

lemma blocks_loop_Inr:
  assumes "blocks_loop prev off keys ds = Inr (stop, keys')"
  shows "keys' = keys \<union> block_key ` set ds" "laid_out (unat off) ds (unat stop)" "list_all block_ok ds"
    "sorted_wrt (<) (map block_key ds)" "prev = Some p \<Longrightarrow> list_all (\<lambda>d. p < block_key d) ds"
proof -
  have "keys' = keys \<union> block_key ` set ds \<and> laid_out (unat off) ds (unat stop) \<and> list_all block_ok ds \<and>
    sorted_wrt (<) (map block_key ds) \<and> (\<forall>p. prev = Some p \<longrightarrow> list_all (\<lambda>d. p < block_key d) ds)"
    using assms
  proof (induction ds arbitrary: prev off keys)
    case (Cons d ds)
    obtain a s where 1: "\<not> (case prev of None \<Rightarrow> False | Some p \<Rightarrow> block_key d \<le> p)" "block_ok d"
        "align8 off = Inr a" "bd_payload_offset d = a" "checked_add_u64 a (bd_stored_size d) = Some s"
      and 2: "blocks_loop (Some (block_key d)) s (insert (block_key d) keys) ds = Inr (stop, keys')"
      using Cons.prems block_checks[of d] by (auto simp: result_simps if_Inl_Inr split del: if_split)
    have IH: "keys' = insert (block_key d) keys \<union> block_key ` set ds" "laid_out (unat s) ds (unat stop)"
      "list_all block_ok ds" "sorted_wrt (<) (map block_key ds)" "list_all (\<lambda>d'. block_key d < block_key d') ds"
      using Cons.IH[OF 2] by simp_all
    have "unat (bd_payload_offset d) = align_up8 (unat off)" "unat s = unat (bd_payload_offset d) + unat (bd_stored_size d)"
      using 1(3-5) by (simp_all add: align8_Inr checked_add_u64_Some)
    moreover have "list_all (\<lambda>d'. p < block_key d') (d # ds)" if "prev = Some p" for p
      using 1(1) that IH(5) less_trans[of p "block_key d"] by (auto simp: list_all_iff not_le)
    ultimately show ?case using IH 1(2) by (auto simp: list_all_iff)
  qed simp
  then show "keys' = keys \<union> block_key ` set ds" "laid_out (unat off) ds (unat stop)" "list_all block_ok ds"
    "sorted_wrt (<) (map block_key ds)" "prev = Some p \<Longrightarrow> list_all (\<lambda>d. p < block_key d) ds" by blast+
qed

lemma laid_out_bounds:
  "laid_out off ds stop \<Longrightarrow> off \<le> stop \<and>
   (\<forall>d\<in>set ds. off \<le> unat (bd_payload_offset d) \<and> 8 dvd unat (bd_payload_offset d) \<and>
      unat (bd_payload_offset d) + unat (bd_stored_size d) \<le> stop) \<and>
   sorted_wrt (\<lambda>d d'. unat (bd_payload_offset d) + unat (bd_stored_size d) \<le> unat (bd_payload_offset d')) ds"
proof (induction ds arbitrary: off)
  case (Cons d ds)
  let ?o = "unat (bd_payload_offset d)"
  have o: "?o = align_up8 off" "laid_out (?o + unat (bd_stored_size d)) ds stop"
    using Cons.prems unfolding laid_out.simps by blast+
  note IH = Cons.IH[OF o(2)]
  have "off \<le> ?o" "8 dvd ?o" using o(1) align_up8_bounds[of off] by simp_all
  then show ?case using IH by fastforce
qed simp


text \<open>What the verification of the payload establishes.\<close>

definition block_table :: "inspection \<Rightarrow> (block_ref \<rightharpoonup> block_descriptor)" where
  "block_table i = descriptor_index (env_blocks (in_envelope i))"

definition tree_of :: "inspection \<Rightarrow> file_entry list" where
  "tree_of i = tree_entries (hd (env_trees (in_envelope i)))"

definition refs_of :: "file_entry \<Rightarrow> block_ref list" where
  "refs_of e = (case fe_block_refs e of None \<Rightarrow> [] | Some refs \<Rightarrow> refs)"

definition file_content :: "nat \<Rightarrow> ('k, 's) externals \<Rightarrow> bytes \<Rightarrow> inspection \<Rightarrow> file_entry \<Rightarrow> bytes bundle_result" where
  "file_content um x data i e = file_bytes um x data (in_header i) (block_table i) (refs_of e)"

lemma payload_files_loop_Inr:
  "payload_files_loop um x data h index es = Inr () \<Longrightarrow> e \<in> set es \<Longrightarrow> fe_type e = Regular \<Longrightarrow>
   \<exists>content. file_bytes um x data h index (refs_of e) = Inr content \<and> fe_file_digest e = Some (x_blake3 x content)"
proof (induction es)
  case (Cons e' es)
  show ?case
  proof (cases "e = e'")
    case True
    then show ?thesis using Cons.prems by (auto simp: result_simps if_Inl_Inr refs_of_def split del: if_split)
  next
    case False
    have "payload_files_loop um x data h index es = Inr ()"
      using Cons.prems(1) by (auto simp: result_simps if_Inl_Inr split: if_split_asm)
    then show ?thesis using Cons.IH Cons.prems(2,3) False by simp
  qed
qed simp

lemma verify_Inr:
  assumes "verify um x data opt = Inr i"
  shows "inspect um x data = Inr i" "verify_publisher x i (vo_expected_publisher opt) = Inr ()"
    "verify_rotation x (in_envelope i) = Inr ()" "verify_payload um x data i = Inr ()"
  using assms by (auto simp: verify_def result_simps)

lemma inspected_envelope:
  assumes "inspect um x data = Inr i"
  shows "\<exists>variant tree. env_variants (in_envelope i) = [variant] \<and> env_trees (in_envelope i) = [tree]"
proof -
  have m: "validate_metadata um x (in_envelope i) (in_signatures i) (in_header i) = Inr ()"
    using inspect_Inr[OF assms] by blast
  note m = validate_metadata_Inr[OF m]
  show ?thesis using m(1) validate_variant_and_tree_Inr[OF m(4)] by (auto simp: length_Suc_conv)
qed

lemma verified_content:
  assumes "verify um x data opt = Inr i" "e \<in> set (tree_of i)" "fe_type e = Regular"
  shows "\<exists>content. file_content um x data i e = Inr content \<and> fe_file_digest e = Some (x_blake3 x content)"
proof -
  note v = verify_Inr[OF assms(1)]
  obtain tree where t: "env_trees (in_envelope i) = [tree]" using inspected_envelope[OF v(1)] by blast
  have "payload_files_loop um x data (in_header i) (block_table i) (tree_of i) = Inr ()"
    using v(4) t by (auto simp: verify_payload_def Let_def result_simps tree_of_def block_table_def)
  then show ?thesis using payload_files_loop_Inr assms(2,3) by (fastforce simp: file_content_def)
qed

section \<open>Sizes\<close>

text \<open>The documented behaviour of \<open>zstd::bulk::decompress\<close> that the size checks rest on: if the input is one
  frame and nothing else, as \<open>find_frame_compressed_size\<close> says, and the frame states its content size, then
  the result has that size. Inputs of several frames, whose results are concatenated, are excluded by the
  check before.\<close>

definition zstd_exact :: "('k, 's) externals \<Rightarrow> bool" where
  "zstd_exact x = (\<forall>s n m r. x_zstd_frame_size x s = Some (length s) \<longrightarrow>
     x_zstd_content_size x s = Some (Some m) \<longrightarrow> x_zstd_decompress x s n = Some r \<longrightarrow> length r = unat m)"

lemma read_raw_block_length:
  assumes "zstd_exact x" "block_ok d" "read_raw_block um x data off d = Inr raw"
  shows "length raw = unat (bd_raw_size d)"
proof -
  obtain o' stored where s: "read_section um data o' (bd_stored_size d) = Inr stored"
      "bd_codec d = 0 \<and> raw = stored \<or>
       x_zstd_frame_size x stored = Some (length stored) \<and>
       x_zstd_content_size x stored = Some (Some (bd_raw_size d)) \<and>
       x_zstd_decompress x stored (unat (bd_raw_size d)) = Some raw"
    using assms(3) by (auto simp: read_raw_block_def result_simps if_Inl_Inr split: if_split_asm)
  have "length stored = unat (bd_stored_size d)"
    using s(1) by (auto simp: read_section_def split: if_split_asm)
  moreover have "bd_codec d = 0 \<and> raw = stored \<or> length raw = unat (bd_raw_size d)"
    using s(2) assms(1) unfolding zstd_exact_def by blast
  ultimately show ?thesis using assms(2) by (auto simp: block_ok_def)
qed

lemma descriptor_index_Some: "descriptor_index ds r = Some d \<Longrightarrow> d \<in> set ds \<and> block_key d = r"
  by (auto simp: descriptor_index_def dest: map_of_SomeD)

lemma file_bytes_length:
  assumes "zstd_exact x" "\<And>d. d \<in> set ds \<Longrightarrow> block_ok d"
  shows "file_bytes um x data h (descriptor_index ds) rs = Inr content \<Longrightarrow>
    length content = sum_list (map (\<lambda>r. unat (snd r)) rs)"
proof (induction rs arbitrary: content)
  case (Cons r rs)
  obtain d raw rest where d: "descriptor_index ds r = Some d" "read_raw_block um x data (kh_payload_offset h) d = Inr raw"
      "file_bytes um x data h (descriptor_index ds) rs = Inr rest" "content = raw @ rest"
    using Cons.prems by (auto simp: result_simps)
  have "d \<in> set ds" "bd_raw_size d = snd r"
    using descriptor_index_Some[OF d(1)] by (auto simp: block_key_def)
  then have "length raw = unat (snd r)" using read_raw_block_length[OF assms(1) _ d(2)] assms(2) by simp
  then show ?case using Cons.IH[OF d(3)] d(4) by simp
qed simp

lemma inspected_blocks:
  assumes "inspect um x data = Inr i"
  shows "\<exists>stop. blocks_loop None 0 {} (env_blocks (in_envelope i)) = Inr (stop, referenced_blocks (tree_of i)) \<and>
     unat (kh_payload_length (in_header i)) = align_up8 (unat stop)"
proof -
  have m: "validate_metadata um x (in_envelope i) (in_signatures i) (in_header i) = Inr ()"
    using inspect_Inr[OF assms] by blast
  obtain tree where t: "env_trees (in_envelope i) = [tree]" using inspected_envelope[OF assms] by blast
  obtain stop len where s: "blocks_loop None 0 {} (env_blocks (in_envelope i)) = Inr (stop, referenced_blocks (tree_of i))"
      "(if env_blocks (in_envelope i) = [] then Inr 0 else align8 stop) = Inr len" "kh_payload_length (in_header i) = len"
    using validate_metadata_Inr(5)[OF m] t
    by (auto simp: validate_blocks_def result_simps if_Inl_Inr tree_of_def split del: if_split)
  have "unat len = align_up8 (unat stop)"
  proof (cases "env_blocks (in_envelope i) = []")
    case True
    then show ?thesis using s(1,2) by (auto simp: align_up8_def)
  next
    case False
    then show ?thesis using s(2) by (simp add: align8_Inr)
  qed
  then show ?thesis using s by blast
qed

lemma inspected_entry:
  assumes "inspect um x data = Inr i" "e \<in> set (tree_of i)"
  shows "validate_file_entry x e = Inr ()"
proof -
  have m: "validate_metadata um x (in_envelope i) (in_signatures i) (in_header i) = Inr ()"
    using inspect_Inr[OF assms(1)] by blast
  show ?thesis
    using validate_variant_and_tree_Inr[OF validate_metadata_Inr(4)[OF m]] entries_loop_Inr assms(2)
    by (fastforce simp: tree_of_def)
qed

section \<open>Panics\<close>

named_theorems no_panic \<open>functions that do not panic\<close>

lemma np_rbind: "m \<noteq> Inl EPanicked \<Longrightarrow> (\<And>x. m = Inr x \<Longrightarrow> f x \<noteq> Inl EPanicked) \<Longrightarrow> rbind m f \<noteq> Inl EPanicked"
  by (cases m) auto

lemma np_path [no_panic]:
  "validate_component c d \<noteq> Inl EPanicked"
  "validate_nfc_text nfc v lo hi \<noteq> Inl EPanicked"
  "validate_logical_id s \<noteq> Inl EPanicked"
  "validate_channel s \<noteq> Inl EPanicked"
  by (simp_all add: validate_component_def validate_nfc_text_def validate_logical_id_def validate_channel_def Let_def)

lemma np_components [no_panic]: "validate_components d cs \<noteq> Inl EPanicked"
  by (induction cs) (auto simp: result_simps no_panic)

lemma np_bundle_path [no_panic]:
  "validate_bundle_path nfc p \<noteq> Inl EPanicked" "validate_symlink_target nfc p \<noteq> Inl EPanicked"
  by (auto simp: validate_bundle_path_def validate_symlink_target_def result_simps no_panic split: if_splits)

lemma np_tree_paths_loop [no_panic]: "tree_paths_loop nfc prev folded types es \<noteq> Inl EPanicked"
  by (induction es arbitrary: prev folded types)
    (auto simp: result_simps no_panic split: if_splits option.splits file_type.splits prod.splits)

lemma np_resolve_parts [no_panic]: "resolve_parts ps cs \<noteq> Inl EPanicked"
  by (induction cs arbitrary: ps) auto

lemma np_resolve_target [no_panic]: "resolve_target l t \<noteq> Inl EPanicked"
  by (auto simp: resolve_target_def result_simps no_panic)

lemma np_follow_links [no_panic]: "follow_links nfc b n e seen \<noteq> Inl EPanicked"
  by (induction n arbitrary: e seen) (auto simp: result_simps no_panic Let_def)

lemma np_symlinks_loop [no_panic]: "symlinks_loop nfc b es \<noteq> Inl EPanicked"
  by (induction es) (auto simp: result_simps no_panic split: if_splits)

lemma np_align8 [no_panic]: "align8 v \<noteq> Inl EPanicked"
  by (auto simp: align8_def)

lemma np_kbb_decode [no_panic]: "kbb_decode crc bs fl \<noteq> Inl EPanicked"
  unfolding kbb_decode_def by (auto simp: Let_def result_simps no_panic split: if_split_asm)

lemma np_argument [no_panic]: "decode_argument inp off a \<noteq> Inl EPanicked" "read_array n inp off \<noteq> Inl EPanicked"
  by (auto simp: decode_argument_def read_array_def Let_def result_simps split: if_split_asm)

lemma np_scan_string [no_panic]: "scan_string um inp m a p \<noteq> Inl EPanicked"
  by (auto simp: scan_string_def Let_def)

lemma np_scan [no_panic]:
  "scan_item um inp off depth \<noteq> Inl EPanicked" "scan_items um inp n off depth \<noteq> Inl EPanicked"
proof (induction um inp off depth and um inp n off depth rule: scan_item_scan_items.induct)
  case (1 um inp off depth)
  then show ?case
    by (subst scan_item.simps) (auto simp: Let_def result_simps no_panic split: if_split_asm)
next
  case (2 um inp n off depth)
  then show ?case by (subst scan_items.simps) (auto simp: result_simps)
qed

lemma emit_errors:
  "emit_items rs = Inl e \<Longrightarrow> Inl e \<in> set rs"
  "emit_entries es = Inl e \<Longrightarrow> Inl e \<in> snd ` set es"
  "encode_keys ks = Inl e \<Longrightarrow> Inl e \<in> fst ` set ks"
proof -
  show "emit_items rs = Inl e \<Longrightarrow> Inl e \<in> set rs"
    by (induction rs) (auto simp: result_simps)
  show "emit_entries es = Inl e \<Longrightarrow> Inl e \<in> snd ` set es"
    by (induction es) (auto simp: result_simps)
  show "encode_keys ks = Inl e \<Longrightarrow> Inl e \<in> fst ` set ks"
    by (induction ks) (auto simp: result_simps)
qed

lemma np_usize [no_panic]: "usize_u64 n \<noteq> Inl EPanicked" "encode_integer k \<noteq> Inl EPanicked"
  by (simp_all add: usize_u64_def encode_integer_def)

lemma encode_keys_values: "encode_keys ks = Inr es \<Longrightarrow> snd ` set es \<subseteq> snd ` set ks"
proof (induction ks arbitrary: es)
  case (Cons e ks)
  obtain r v where e: "e = (r, v)" by (cases e)
  then obtain k es' where "es = (k, v) # es'" "encode_keys ks = Inr es'"
    using Cons.prems by (auto simp: result_simps)
  then show ?case using Cons.IH[of es'] e by auto
qed simp

lemma np_encode_value [no_panic]: "encode_value v \<noteq> Inl EPanicked"
proof (induction v)
  case (CArray vs)
  have "emit_items (map encode_value vs) \<noteq> Inl EPanicked"
    using emit_errors(1)[of "map encode_value vs" EPanicked] CArray.IH by fastforce
  then show ?case by (auto simp: result_simps no_panic)
next
  case (CMap m)
  let ?ks = "map (\<lambda>(k, v). (encode_value k, encode_value v)) m"
  have IH: "Inl EPanicked \<notin> fst ` set ?ks" "Inl EPanicked \<notin> snd ` set ?ks"
    using CMap.IH by (auto simp: prod_set_defs) metis+
  have k: "encode_keys ?ks \<noteq> Inl EPanicked" using emit_errors(3)[of ?ks EPanicked] IH(1) by blast
  have v: "emit_entries (sort_key key_order es) \<noteq> Inl EPanicked" if "encode_keys ?ks = Inr es" for es
    using emit_errors(2)[of "sort_key key_order es" EPanicked] encode_keys_values[OF that] IH(2) by auto
  show ?case
    unfolding encode_value.simps
    by (intro np_rbind k no_panic) (use v in auto)
qed (auto simp: result_simps no_panic)

lemma np_canonical [no_panic]:
  "to_canonical_vec tv v \<noteq> Inl EPanicked" "from_canonical_slice um tv fs bs \<noteq> Inl EPanicked"
  by (auto simp: to_canonical_vec_def from_canonical_slice_def result_simps no_panic split: if_split_asm)

lemma np_read [no_panic]:
  "read_section um data off len \<noteq> Inl EPanicked" "check_zero_range data a b \<noteq> Inl EPanicked"
proof -
  have "check_zero_loop data pos n \<noteq> Inl EPanicked" for pos n
  proof (induction n arbitrary: pos rule: less_induct)
    case (less n)
    have "check_zero_loop data (pos + min n 4096) (n - min n 4096) \<noteq> Inl EPanicked" if "n \<noteq> 0"
      by (rule less.IH) (use that in simp)
    then show ?case by (subst check_zero_loop.simps) (simp add: Let_def)
  qed
  then show "check_zero_range data a b \<noteq> Inl EPanicked" by (simp add: check_zero_range_def)
  show "read_section um data off len \<noteq> Inl EPanicked" by (simp add: read_section_def)
qed

lemma np_firmware [no_panic]: "validate_firmware_bound b \<noteq> Inl EPanicked" "parse_firmware s \<noteq> Inl EPanicked"
proof -
  show b: "validate_firmware_bound b \<noteq> Inl EPanicked" for b
    by (auto simp: validate_firmware_bound_def split: option.splits)
  show "parse_firmware s \<noteq> Inl EPanicked" by (auto simp: parse_firmware_def result_simps b)
qed

lemma np_digests [no_panic]: "compute_tree_root x es \<noteq> Inl EPanicked" "rotation_proof_digest x p \<noteq> Inl EPanicked"
  by (auto simp: compute_tree_root_def rotation_proof_digest_def result_simps no_panic)

lemma np_chunk_loop [no_panic]: "chunk_loop acc refs \<noteq> Inl EPanicked"
  by (induction acc refs rule: chunk_loop.induct) (auto simp: result_simps split: if_split_asm)

lemma np_file_entry [no_panic]: "validate_file_entry x e \<noteq> Inl EPanicked"
  by (auto simp: validate_file_entry_def result_simps no_panic split: file_type.splits option.splits if_split_asm)

lemma np_entries_loop [no_panic]: "entries_loop um x n es \<noteq> Inl EPanicked"
  by (induction es arbitrary: n) (auto simp: result_simps no_panic split: option.splits if_split_asm)

lemma np_entrypoints_loop [no_panic]: "entrypoints_loop nfc es ps \<noteq> Inl EPanicked"
  by (induction nfc es ps rule: entrypoints_loop.induct) (auto simp: result_simps no_panic split: if_split_asm)

lemma np_blocks_loop [no_panic]: "blocks_loop prev off keys ds \<noteq> Inl EPanicked"
  by (induction ds arbitrary: prev off keys) (auto simp: result_simps no_panic split: if_split_asm)

lemma np_if: "(c \<Longrightarrow> a \<noteq> Inl EPanicked) \<Longrightarrow> (\<not> c \<Longrightarrow> b \<noteq> Inl EPanicked) \<Longrightarrow> (if c then a else b) \<noteq> Inl EPanicked"
  by simp

lemma np_option:
  "(v = None \<Longrightarrow> a \<noteq> Inl EPanicked) \<Longrightarrow> (\<And>w. v = Some w \<Longrightarrow> f w \<noteq> Inl EPanicked) \<Longrightarrow>
   (case v of None \<Rightarrow> a | Some w \<Rightarrow> f w) \<noteq> Inl EPanicked"
  by (cases v) simp_all

lemma np_leaf:
  "Inr y \<noteq> Inl EPanicked" "e \<noteq> EPanicked \<Longrightarrow> ensure c e \<noteq> Inl EPanicked"
  "e \<noteq> EPanicked \<Longrightarrow> ok_or v e \<noteq> Inl EPanicked" "e \<noteq> EPanicked \<Longrightarrow> Inl e \<noteq> Inl EPanicked"
  by (auto simp: result_simps)

lemmas np_intros = np_rbind np_if np_option np_leaf

lemma np_publisher [no_panic]: "validate_publisher x env \<noteq> Inl EPanicked"
  by (simp add: validate_publisher_def Let_def)

lemma np_variant_and_tree: "env_variants env \<noteq> [] \<Longrightarrow> validate_variant_and_tree um x env \<noteq> Inl EPanicked"
proof (cases "env_variants env")
  case (Cons variant vs)
  have bounds: "(case (lo, hi) of (Some lo, Some hi) \<Rightarrow> ensure (c lo hi) ESchema | _ \<Rightarrow> Inr ()) \<noteq> Inl EPanicked"
    for lo hi :: "u64 list option" and c
    by (auto simp: result_simps split: option.splits)
  have single: "(\<And>t. f t \<noteq> Inl EPanicked) \<Longrightarrow>
      (case ts of [] \<Rightarrow> Inl EProfilePolicy | [t] \<Rightarrow> f t | t # a # b \<Rightarrow> Inl EProfilePolicy) \<noteq> Inl EPanicked"
    for f :: "tree \<Rightarrow> unit bundle_result" and ts
    by (auto split: list.splits)
  show ?thesis
    unfolding validate_variant_and_tree_def Cons list.case validate_tree_paths_def validate_symlinks_def
    by (intro np_intros bounds single no_panic) simp_all
qed simp

lemma np_blocks: "env_trees env \<noteq> [] \<Longrightarrow> validate_blocks env h \<noteq> Inl EPanicked"
  unfolding validate_blocks_def
  by (cases "env_trees env") (auto simp: result_simps no_panic split: if_split_asm)

lemma np_process:
  assumes "trees \<noteq> []"
  shows "validate_process nfc trees p \<noteq> Inl EPanicked"
proof -
  obtain t ts where t: "trees = t # ts" using assms by (cases trees) auto
  show ?thesis unfolding validate_process_def t list.case by (intro np_intros no_panic) simp_all
qed

lemma np_permissions:
  assumes "env_trees env \<noteq> []" "env_variants env \<noteq> []"
  shows "validate_permissions_and_policy x env \<noteq> Inl EPanicked"
proof -
  obtain tree ts variant vs where e: "env_trees env = tree # ts" "env_variants env = variant # vs"
    using assms by (meson neq_Nil_conv)
  show ?thesis
    unfolding validate_permissions_and_policy_def Let_def e list.case
    by (intro np_intros np_process) simp_all
qed

lemma np_signature_shape: "sigs \<noteq> [] \<Longrightarrow> validate_signature_shape env sigs \<noteq> Inl EPanicked"
  by (cases sigs) (auto simp: validate_signature_shape_def)

lemma np_metadata [no_panic]: "validate_metadata um x env sigs h \<noteq> Inl EPanicked"
proof (cases "length (env_variants env) \<noteq> 1 \<or> length sigs \<noteq> 1")
  case True
  then show ?thesis by (auto simp: validate_metadata_def)
next
  case False
  then have ne: "env_variants env \<noteq> []" "sigs \<noteq> []" by auto
  have "env_trees env \<noteq> []" if "validate_variant_and_tree um x env = Inr ()"
    using validate_variant_and_tree_Inr[OF that] by auto
  then show ?thesis
    unfolding validate_metadata_def
    by (intro np_intros no_panic np_variant_and_tree np_blocks np_permissions np_signature_shape)
      (simp_all add: ne)
qed

lemma np_inspect [no_panic]: "inspect um x data \<noteq> Inl EPanicked"
  unfolding inspect_def by (intro np_intros no_panic) simp_all

lemma np_verify_publisher:
  assumes "inspect um x data = Inr i"
  shows "verify_publisher x i ex \<noteq> Inl EPanicked"
proof -
  have m: "validate_metadata um x (in_envelope i) (in_signatures i) (in_header i) = Inr ()"
    using inspect_Inr[OF assms] by blast
  have "length (pub_public_key (env_publisher (in_envelope i))) = 32" "in_signatures i \<noteq> []"
    using validate_metadata_Inr(2,3)[OF m] by (auto simp: validate_publisher_def Let_def split: if_split_asm)
  then show ?thesis
    by (cases "in_signatures i")
      (auto simp: verify_publisher_def Let_def result_simps split: if_split_asm)
qed

lemma np_rotation_step [no_panic]: "rotation_step x env p st \<noteq> Inl EPanicked"
proof -
  have f: "validate_rotation_fields p env \<noteq> Inl EPanicked"
    by (simp add: validate_rotation_fields_def Let_def)
  have l: "length (rs_from_public_key (rp_signed p)) = 32" if "validate_rotation_fields p env = Inr ()"
    using that by (simp add: validate_rotation_fields_def Let_def split: if_split_asm)
  show ?thesis
    unfolding rotation_step_def Let_def by (intro np_intros no_panic f) (use l in auto)
qed

lemma np_rotation [no_panic]: "verify_rotation x env \<noteq> Inl EPanicked"
proof -
  have "rotation_loop x env ps st \<noteq> Inl EPanicked" for ps st
    by (induction ps arbitrary: st) (auto simp: result_simps no_panic)
  then show ?thesis by (auto simp: verify_rotation_def result_simps split: option.splits)
qed

lemma np_raw_block [no_panic]: "read_raw_block um x data off d \<noteq> Inl EPanicked"
  unfolding read_raw_block_def by (intro np_intros no_panic) simp_all

lemma np_payload_blocks [no_panic]: "payload_blocks_loop um x data h prev ds \<noteq> Inl EPanicked"
  by (induction ds arbitrary: prev) (auto simp: result_simps no_panic split: if_split_asm)

lemma np_file_bytes: "(\<And>r. r \<in> set rs \<Longrightarrow> index r \<noteq> None) \<Longrightarrow> file_bytes um x data h index rs \<noteq> Inl EPanicked"
proof (induction rs)
  case (Cons r rs)
  have "index r \<noteq> None" "file_bytes um x data h index rs \<noteq> Inl EPanicked" using Cons by simp_all
  then show ?case by (auto simp: result_simps no_panic)
qed simp

lemma np_payload_files:
  assumes "\<And>e. e \<in> set es \<Longrightarrow> fe_type e = Regular \<Longrightarrow> \<exists>refs dg. fe_block_refs e = Some refs \<and>
     fe_file_digest e = Some dg \<and> (\<forall>r\<in>set refs. index r \<noteq> None)"
  shows "payload_files_loop um x data h index es \<noteq> Inl EPanicked"
  using assms
proof (induction es)
  case (Cons e es)
  have IH: "payload_files_loop um x data h index es \<noteq> Inl EPanicked"
    by (rule Cons.IH) (use Cons.prems in simp)
  show ?case
  proof (cases "fe_type e = Regular")
    case True
    then obtain refs dg where "fe_block_refs e = Some refs" "fe_file_digest e = Some dg" "\<forall>r\<in>set refs. index r \<noteq> None"
      using Cons.prems[of e] by auto
    then show ?thesis using IH np_file_bytes[of refs index um x data h] True by (auto simp: result_simps split: if_split_asm)
  qed (use IH in simp)
qed simp

lemma np_verify_payload:
  assumes i: "inspect um x data = Inr i"
  shows "verify_payload um x data i \<noteq> Inl EPanicked"
proof -
  obtain tree where t: "env_trees (in_envelope i) = [tree]" using inspected_envelope[OF i] by blast
  let ?ds = "env_blocks (in_envelope i)"
  obtain stop where "blocks_loop None 0 {} ?ds = Inr (stop, referenced_blocks (tree_of i))"
    using inspected_blocks[OF i] by blast
  then have keys: "referenced_blocks (tree_of i) = block_key ` set ?ds" using blocks_loop_Inr(1) by fastforce
  have dom: "descriptor_index ?ds r \<noteq> None" if "r \<in> block_key ` set ?ds" for r
    using that by (auto simp: descriptor_index_def map_of_eq_None_iff image_image)
  have "payload_files_loop um x data (in_header i) (descriptor_index ?ds) (tree_of i) \<noteq> Inl EPanicked"
  proof (rule np_payload_files)
    fix e assume e: "e \<in> set (tree_of i)" "fe_type e = Regular"
    obtain refs dg where r: "fe_block_refs e = Some refs" "fe_file_digest e = Some dg"
      using validate_regular_Inr[OF inspected_entry[OF i e(1)] e(2)] by blast
    have "set refs \<subseteq> referenced_blocks (tree_of i)"
      using e(1) r(1) unfolding referenced_blocks_def by fastforce
    then have "\<forall>r\<in>set refs. descriptor_index ?ds r \<noteq> None" using dom unfolding keys by (meson subsetD)
    then show "\<exists>refs dg. fe_block_refs e = Some refs \<and> fe_file_digest e = Some dg \<and>
        (\<forall>r\<in>set refs. descriptor_index ?ds r \<noteq> None)"
      using r by blast
  qed
  then show ?thesis
    using t by (auto simp: verify_payload_def Let_def result_simps no_panic tree_of_def)
qed

lemma np_verify: "verify um x data opt \<noteq> Inl EPanicked"
proof (cases "inspect um x data")
  case (Inr i)
  obtain variant where v: "env_variants (in_envelope i) = [variant]" using inspected_envelope[OF Inr] by blast
  show ?thesis
    unfolding verify_def Inr rbind_simps v list.case
    by (intro np_intros no_panic np_verify_publisher[OF Inr] np_verify_payload[OF Inr]) simp_all
qed (use np_inspect in \<open>auto simp: verify_def\<close>)

section \<open>A verified bundle\<close>

text \<open>Stand-ins for the third-party code under which a bundle with one file verifies.\<close>

definition sample_hash :: "bytes \<Rightarrow> digest" where
  "sample_hash bs = take 32 (bs @ replicate 32 0)"

definition sample_key :: bytes where "sample_key = replicate 32 2"

definition sample_tree :: "file_entry list" where
  "sample_tree = [file_entry_directory (lit ''bin''),
     \<lparr>fe_path = lit ''bin/run'', fe_type = Regular, fe_mode = Some 1, fe_size = Some 2,
      fe_file_digest = Some (sample_hash [0x68, 0x69]), fe_block_refs = Some [(sample_hash [0x68, 0x69], 2)],
      fe_target = None\<rparr>]"

definition sample_rotation :: rotation_proof where
  "sample_rotation = \<lparr>rp_signed = \<lparr>rs_schema = 1, rs_app_id = lit ''org.demo'', rs_channel = lit ''dev'',
      rs_from_algorithm = 1, rs_from_public_key = replicate 32 1, rs_to_algorithm = 1,
      rs_to_public_key = sample_key, rs_valid_from_release = 2,
      rs_previous_proof_digest = replicate 32 0, rs_flags = 0\<rparr>,
     rp_signature = replicate 64 1\<rparr>"

definition sample_root :: digest where
  "sample_root = sample_hash (lit ''KBB-TREE-V1'' @ [0] @ [0xf6])"

definition sample_envelope :: "cbor envelope" where
  "sample_envelope = \<lparr>env_schema = 1, env_profile = PROFILE, env_kind = Application,
     env_id = lit ''org.demo'', env_version = lit ''1.0.0'', env_release = 3, env_channel = lit ''dev'',
     env_publisher = \<lparr>pub_algorithm = 1, pub_public_key = sample_key,
       pub_key_id = sample_hash (lit ''KBB-KEY-ID-V1'' @ [0] @ le_bytes 2 (1 :: u16) @ sample_key), pub_name = None\<rparr>,
     env_variants = [\<lparr>va_target = lit ''kindlehf'', va_os = lit ''linux'', va_arch = lit ''arm'',
       va_abi = lit ''gnu'', va_firmware_min = Some [5, 16], va_firmware_max_exclusive = None,
       va_required_features = [], va_optional_features = [], va_tree = sample_root,
       va_entrypoints = [(lit ''main'', lit ''bin/run'')]\<rparr>],
     env_trees = [\<lparr>tree_root = sample_root, tree_entries = sample_tree\<rparr>],
     env_blocks = [\<lparr>bd_digest = sample_hash [0x68, 0x69], bd_raw_size = 2, bd_codec = 0, bd_stored_size = 2,
       bd_stored_digest = sample_hash [0x68, 0x69], bd_payload_offset = 0\<rparr>],
     env_permissions = \<lparr>pm_requested = [], pm_optional = []\<rparr>, env_process = None,
     env_data = default_data_policy, env_dependencies = [], env_migrations = [],
     env_signature_policy = default_signature_policy, env_rotation = [sample_rotation],
     env_annotations = None\<rparr>"

definition sample_signatures :: "signature_entry list" where
  "sample_signatures = [\<lparr>se_role = 1, se_algorithm = 1,
     se_key_id = pub_key_id (env_publisher sample_envelope), se_signature = sample_key @ sample_key\<rparr>]"

text \<open>A toy format in place of Zstandard: a frame is a length and the byte that is repeated so many times, and
  several frames decompress to the concatenation.\<close>

fun sample_decompress :: "bytes \<Rightarrow> nat \<Rightarrow> bytes option" where
  "sample_decompress [] n = Some []"
| "sample_decompress (len # b # rest) n = (if n < unat len then None
     else map_option ((@) (replicate (unat len) b)) (sample_decompress rest (n - unat len)))"
| "sample_decompress [len] n = None"

definition sample_externals :: "(bytes, bytes) externals" where
  "sample_externals = \<lparr>x_blake3 = sample_hash, x_crc32c = (\<lambda>_. 0), x_nfc = (\<lambda>cs. cs),
     x_key_from_bytes = Some, x_signature_from_slice = Some, x_verify = (\<lambda>key _ sig. take 32 sig = key),
     x_envelope_to_value = (\<lambda>_. Some CNull), x_envelope_from_slice = (\<lambda>_. Some sample_envelope),
     x_signatures_to_value = (\<lambda>_. Some CNull), x_signatures_from_slice = (\<lambda>_. Some sample_signatures),
     x_entries_to_value = (\<lambda>_. Some CNull), x_rotation_to_value = (\<lambda>_. Some CNull), x_semver = Some,
     x_zstd_frame_size = (\<lambda>s. if s = [] then None else Some (min 2 (length s))),
     x_zstd_content_size = (\<lambda>s. if s = [] then None else Some (Some (ucast (hd s)))), x_zstd_dict_id = (\<lambda>_. None),
     x_zstd_decompress = sample_decompress\<rparr>"

definition sample_header :: kbb_header where
  "sample_header = \<lparr>kh_envelope_length = 1, kh_signature_offset = 136, kh_signature_length = 1,
     kh_payload_offset = 144, kh_payload_length = 8, kh_bundle_root = sample_hash [0xf6]\<rparr>"

definition sample_bundle :: bytes where
  "sample_bundle = (case kbb_encode (\<lambda>_. 0) sample_header of Inl _ \<Rightarrow> [] | Inr bs \<Rightarrow> bs) @
     [0xf6, 0, 0, 0, 0, 0, 0, 0] @ [0xf6, 0, 0, 0, 0, 0, 0, 0] @ [0x68, 0x69, 0, 0, 0, 0, 0, 0]"

definition sample_options :: "bytes verify_options" where
  "sample_options = \<lparr>vo_expected_publisher = Some sample_key, vo_target = Some (lit ''kindlehf''),
     vo_firmware = Some (lit ''5.16.2'')\<rparr>"

definition sample_inspection :: inspection where
  "sample_inspection = \<lparr>in_header = sample_header, in_envelope = sample_envelope,
     in_signatures = sample_signatures, in_file_length = 152\<rparr>"



lemma sample_lengths: "length (sample_hash bs) = 32" "length sample_key = 32"
  by (simp_all add: sample_hash_def sample_key_def)

lemma sample_externals_simps:
  "x_blake3 sample_externals = sample_hash" "x_crc32c sample_externals = (\<lambda>_. 0)"
  "x_nfc sample_externals = (\<lambda>cs. cs)" "x_key_from_bytes sample_externals = Some"
  "x_signature_from_slice sample_externals = Some"
  "x_verify sample_externals = (\<lambda>key _ sig. take 32 sig = key)"
  "x_envelope_to_value sample_externals = (\<lambda>_. Some CNull)"
  "x_envelope_from_slice sample_externals = (\<lambda>_. Some sample_envelope)"
  "x_signatures_to_value sample_externals = (\<lambda>_. Some CNull)"
  "x_signatures_from_slice sample_externals = (\<lambda>_. Some sample_signatures)"
  "x_entries_to_value sample_externals = (\<lambda>_. Some CNull)"
  "x_rotation_to_value sample_externals = (\<lambda>_. Some CNull)" "x_semver sample_externals = Some"
  by (simp_all add: sample_externals_def)

lemma sample_null: "to_canonical_vec (\<lambda>_. Some CNull) v = Inr [0xf6]"
  by (simp add: to_canonical_vec_def)


lemma sample_publisher: "validate_publisher sample_externals sample_envelope = Inr ()"
  by (simp add: validate_publisher_def compute_key_id_def sample_externals_simps sample_envelope_def sample_lengths Let_def)

lemma sample_blocks: "validate_blocks sample_envelope sample_header = Inr ()"
  by (simp add: validate_blocks_def sample_envelope_def sample_header_def MAX_BLOCKS_def BLOCK_SIZE_def Let_def
    align8_def checked_add_u64_def block_key_def referenced_blocks_def sample_tree_def file_entry_directory_def)

lemma sample_permissions: "validate_permissions_and_policy sample_externals sample_envelope = Inr ()"
  by (simp add: validate_permissions_and_policy_def sample_envelope_def)

lemma sample_rotation_ok: "verify_rotation sample_externals sample_envelope = Inr ()"
  by (simp add: verify_rotation_def sample_envelope_def rotation_start_def rotation_step_def sample_rotation_def
    validate_rotation_fields_def sample_externals_simps sample_null sample_key_def rotation_proof_digest_def)

lemma sample_tree_paths: "validate_tree_paths (\<lambda>x. x) sample_tree = Inr ()" by code_simp

lemma sample_signature_shape: "validate_signature_shape sample_envelope sample_signatures = Inr ()"
  by (simp add: validate_signature_shape_def sample_signatures_def sample_lengths)

lemma sample_header_decodes:
  "kbb_decode (\<lambda>_. 0) (take 128 sample_bundle) 152 = Inr sample_header" (is ?decodes)
  "length sample_bundle = 152" (is ?len)
  "128 \<le> k \<Longrightarrow> sub_slice k n sample_bundle = sub_slice (k - 128) n
    [0xf6, 0, 0, 0, 0, 0, 0, 0, 0xf6, 0, 0, 0, 0, 0, 0, 0, 0x68, 0x69, 0, 0, 0, 0, 0, 0]"
proof -
  have "kbb_encode (\<lambda>_. 0) sample_header = Inr (put_at 96 (le_bytes 4 (0::u32)) (kbb_fields sample_header))"
    by (simp add: kbb_encode_def kbb_put_u32_def)
  then obtain bs where bs: "kbb_encode (\<lambda>_. 0) sample_header = Inr bs" by blast
  moreover have "kbb_canonical sample_header 152"
    by (simp add: kbb_canonical_def sample_header_def align_up8_def)
  ultimately have *: "length bs = 128" "kbb_decode (\<lambda>_. 0) bs 152 = Inr sample_header"
    using kbb_decode_encode[of bs "\<lambda>_. 0" 152 sample_header] by (simp_all add: sample_lengths sample_header_def)
  then show ?decodes ?len using bs by (simp_all add: sample_bundle_def)
  show "128 \<le> k \<Longrightarrow> sub_slice k n sample_bundle = sub_slice (k - 128) n
      [0xf6, 0, 0, 0, 0, 0, 0, 0, 0xf6, 0, 0, 0, 0, 0, 0, 0, 0x68, 0x69, 0, 0, 0, 0, 0, 0]"
    using bs *(1) by (simp add: sample_bundle_def sub_slice_def)
qed

lemma sample_variant_and_tree: "validate_variant_and_tree 65536 sample_externals sample_envelope = Inr ()"
proof -
  have firmware: "validate_firmware_bound (Some [5, 16]) = Inr ()"
    by (simp add: validate_firmware_bound_def)
  have links: "validate_symlinks (\<lambda>x. x) sample_tree = Inr ()"
    by (simp add: validate_symlinks_def sample_tree_def file_entry_directory_def)
  have entries: "entries_loop 65536 sample_externals 0 sample_tree = Inr 1"
    by (simp add: sample_tree_def file_entry_directory_def validate_file_entry_def checked_add_u64_def
        BLOCK_SIZE_def)
  have "validate_bundle_path (\<lambda>x. x) (lit ''bin/run'') = Inr ()" by code_simp
  then have points: "entrypoints_loop (\<lambda>x. x) sample_tree [(lit ''main'', lit ''bin/run'')] = Inr ()"
    by (simp add: find_entry_def sample_tree_def file_entry_directory_def lit_def)
  show ?thesis
    unfolding validate_variant_and_tree_def
    by (simp add: sample_envelope_def firmware entries points links sample_tree_paths sample_externals_simps
      MAX_ENTRIES_def MAX_BLOCK_REFS_def compute_tree_root_def sample_null sample_root_def
      del: entrypoints_loop.simps entries_loop.simps)
      (simp add: sample_tree_def lit_def validate_firmware_bound_def)
qed

lemma sample_metadata: "validate_metadata 65536 sample_externals sample_envelope sample_signatures sample_header = Inr ()"
proof -
  have "validate_logical_id (env_id sample_envelope) = Inr ()" "validate_channel (env_channel sample_envelope) = Inr ()"
    unfolding sample_envelope_def envelope.simps by code_simp+
  then show ?thesis
    unfolding validate_metadata_def
    by (simp add: sample_publisher sample_variant_and_tree sample_blocks sample_permissions sample_signature_shape
        sample_externals_simps)
      (simp add: sample_envelope_def sample_signatures_def lit_def)
qed

lemma sample_section:
  assumes "128 \<le> unat off" "unat off + unat len \<le> 152" "len \<noteq> 0"
  shows "read_section 65536 sample_bundle off len = Inr (sub_slice (unat off - 128) (unat len)
    [0xf6, 0, 0, 0, 0, 0, 0, 0, 0xf6, 0, 0, 0, 0, 0, 0, 0, 0x68, 0x69, 0, 0, 0, 0, 0, 0])"
  using assms by (simp add: read_section_def sample_header_decodes)

lemma sample_padding:
  assumes "128 \<le> unat a" "a \<le> b" "unat b \<le> 152"
    "list_all (\<lambda>v. v = 0) (sub_slice (unat a - 128) (unat b - unat a)
      [0xf6, 0, 0, 0, 0, 0, 0, 0, 0xf6, 0, 0, 0, 0, 0, 0, 0, 0x68, 0x69, 0, 0, 0, 0, 0, 0 :: u8])"
  shows "check_zero_range sample_bundle a b = Inr ()"
proof -
  have d: "unat (b - a) = unat b - unat a" "unat a \<le> unat b"
    using assms(2) by (simp_all add: unat_sub word_le_nat_alt)
  have "sub_slice (unat a) (unat b - unat a) sample_bundle = replicate (unat b - unat a) 0"
    using assms d sample_header_decodes(3)[of "unat a" "unat b - unat a"]
      length_sub_slice[of "unat a" "unat b - unat a" sample_bundle]
    by (intro replicate_eqI) (auto simp: sample_header_decodes(2) list_all_iff)
  then show ?thesis
    unfolding check_zero_range_def
    using assms(2,3) d by (simp add: check_zero_loop_iff sample_header_decodes(2) not_less)
qed

lemma sample_inspects: "inspect 65536 sample_externals sample_bundle = Inr sample_inspection"
proof -
  have null: "from_canonical_slice 65536 (\<lambda>_. Some CNull) (\<lambda>_. Some v) [0xf6] = Inr v" for v :: 'a
  proof -
    have "scan_item 65536 [0xf6] 0 0 = Inr 1" by (subst scan_item.simps) (simp add: decode_argument_def MAX_DEPTH_def)
    then show ?thesis by (simp add: from_canonical_slice_def sample_null)
  qed
  have header: "kh_envelope_length sample_header = 1" "kh_signature_offset sample_header = 136"
    "kh_signature_length sample_header = 1" "kh_payload_offset sample_header = 144"
    "kh_bundle_root sample_header = sample_hash [0xf6]"
    by (simp_all add: sample_header_def)
  have pads: "check_zero_range sample_bundle 129 136 = Inr ()" "check_zero_range sample_bundle 137 144 = Inr ()"
    by (rule sample_padding; simp add: sub_slice_def)+
  show ?thesis
    unfolding inspect_def
    by (simp add: KBB_HEADER_SIZE_def sample_header_decodes sample_externals_simps header sample_section
        pads null sample_metadata sample_inspection_def) (simp add: sub_slice_def null sample_metadata)
qed

lemma sample_block:
  "read_raw_block 65536 sample_externals sample_bundle 144 (hd (env_blocks sample_envelope)) = Inr [0x68, 0x69]"
  by (simp add: read_raw_block_def sample_envelope_def checked_add_u64_def sample_section sample_externals_simps)
    (simp add: sub_slice_def)

lemma sample_payload: "verify_payload 65536 sample_externals sample_bundle sample_inspection = Inr ()"
proof -
  obtain d where d: "env_blocks sample_envelope = [d]" "bd_payload_offset d = 0" "bd_stored_size d = 2"
      "bd_digest d = sample_hash [0x68, 0x69]" "block_key d = (sample_hash [0x68, 0x69], 2)"
    by (simp add: sample_envelope_def block_key_def)
  have r: "read_raw_block 65536 sample_externals sample_bundle 144 d = Inr [0x68, 0x69]"
    using sample_block d(1) by simp
  have pads: "check_zero_range sample_bundle 144 144 = Inr ()" "check_zero_range sample_bundle 146 152 = Inr ()"
    by (rule sample_padding; simp add: sub_slice_def)+
  have header: "kh_payload_offset sample_header = 144" "kh_payload_length sample_header = 8"
    by (simp_all add: sample_header_def)
  have files: "env_trees sample_envelope = [\<lparr>tree_root = sample_root, tree_entries = sample_tree\<rparr>]"
    by (simp add: sample_envelope_def)
  have "payload_files_loop 65536 sample_externals sample_bundle sample_header
      [(sample_hash [0x68, 0x69], 2) \<mapsto> d] sample_tree = Inr ()"
    by (simp add: sample_tree_def file_entry_directory_def header r sample_externals_simps)
  then show ?thesis
    unfolding verify_payload_def
    by (simp add: sample_inspection_def Let_def d header pads r sample_externals_simps files descriptor_index_def)
qed

lemma sample_verifies: "verify 65536 sample_externals sample_bundle sample_options = Inr sample_inspection"
proof -
  have firmware: "parse_firmware (lit ''5.16.2'') = Inr [5, 16, 2]"
    by (simp add: parse_firmware_def parse_u64_def parse_unsigned_def lit_def starts_with_def is_digit_def validate_firmware_bound_def)
  have "verify_publisher sample_externals sample_inspection (Some sample_key) = Inr ()"
    by (simp add: verify_publisher_def sample_inspection_def sample_externals_simps sample_signatures_def
        sample_envelope_def sample_lengths)
  moreover obtain variant where "env_variants sample_envelope = [variant]" "va_target variant = lit ''kindlehf''"
      "firmware_supported variant [5, 16, 2]"
    by (simp add: sample_envelope_def firmware_supported_def cmp_def)
  moreover have "in_envelope sample_inspection = sample_envelope" by (simp add: sample_inspection_def)
  ultimately show ?thesis
    unfolding verify_def
    by (simp add: sample_inspects sample_payload sample_options_def firmware sample_rotation_ok)
qed

end
