(* ===== verification/Bundle_Sound.thy ===== *)
theory Bundle_Sound
  imports Bundle_Verify
begin

text \<open>
  What a successful verification of a bundle guarantees: the chain of rotation proofs, the account of
  every byte of the file, the device it was verified for, the binding of the contents to the bundle
  root, the signature and the file contents, and the absence of panics.
\<close>

section \<open>Rotation chains\<close>

text \<open>A proof that is well formed and signed by the key it rotates away from.\<close>

definition proof_ok :: "('k, 's) externals \<Rightarrow> cbor envelope \<Rightarrow> rotation_proof \<Rightarrow> bool" where
  "proof_ok x env p = (validate_rotation_fields p env = Inr () \<and>
     rs_valid_from_release (rp_signed p) \<le> env_release env \<and>
     (\<exists>key signed signature. x_key_from_bytes x (rs_from_public_key (rp_signed p)) = Some key \<and>
        to_canonical_vec (x_rotation_to_value x) (rp_signed p) = Inr signed \<and>
        x_signature_from_slice x (rp_signature p) = Some signature \<and>
        x_verify x key (lit ''KBB-ROTATION-V1'' @ [0] @ signed) signature))"

text \<open>The next proof continues where the previous one ended.\<close>

definition continues :: "('k, 's) externals \<Rightarrow> rotation_proof \<Rightarrow> rotation_proof \<Rightarrow> bool" where
  "continues x p q = (rs_from_public_key (rp_signed q) = rs_to_public_key (rp_signed p) \<and>
     rotation_proof_digest x p = Inr (rs_previous_proof_digest (rp_signed q)) \<and>
     rs_valid_from_release (rp_signed p) < rs_valid_from_release (rp_signed q))"

fun linked :: "('k, 's) externals \<Rightarrow> rotation_proof list \<Rightarrow> bool" where
  "linked x (p # q # ps) = (continues x p q \<and> linked x (q # ps))"
| "linked x _ = True"

definition after_proof :: "('k, 's) externals \<Rightarrow> rotation_proof \<Rightarrow> bytes set \<Rightarrow> rotation_state" where
  "after_proof x p seen = \<lparr>ro_first = False,
     ro_previous_digest = (case rotation_proof_digest x p of Inl _ \<Rightarrow> None | Inr d \<Rightarrow> Some d),
     ro_previous_to = Some (rs_to_public_key (rp_signed p)),
     ro_previous_release = rs_valid_from_release (rp_signed p), ro_seen = seen\<rparr>"

lemma proof_ok_digest: "proof_ok x env p \<Longrightarrow> \<exists>d. rotation_proof_digest x p = Inr d"
  by (auto simp: proof_ok_def rotation_proof_digest_def)

lemma proof_ok_length: "proof_ok x env p \<Longrightarrow> length (rs_from_public_key (rp_signed p)) = 32"
  by (auto simp: proof_ok_def validate_rotation_fields_def Let_def split: if_split_asm)

lemma rotation_checks:
  assumes "validate_rotation_fields p env = Inr ()" "rs_valid_from_release (rp_signed p) \<le> env_release env"
  shows "rbind (ok_or (x_key_from_bytes x (rs_from_public_key (rp_signed p))) EPublisher) (\<lambda>key.
          rbind (to_canonical_vec (x_rotation_to_value x) (rp_signed p)) (\<lambda>signed.
          rbind (ok_or (x_signature_from_slice x (rp_signature p)) ESignature) (\<lambda>signature.
          if \<not> x_verify x key (lit ''KBB-ROTATION-V1'' @ [0] @ signed) signature then Inl ESignature
          else rbind (rotation_proof_digest x p) f))) = Inr st \<longleftrightarrow>
     proof_ok x env p \<and> (\<exists>d. rotation_proof_digest x p = Inr d \<and> f d = Inr st)"
  using assms by (auto simp: proof_ok_def result_simps if_Inl_Inr split del: if_split)

lemma rotation_step_Inr:
  assumes "seen = (if ro_first st then insert (rs_from_public_key (rp_signed p)) (ro_seen st) else ro_seen st)"
  shows "rotation_step x env p st = Inr st' \<longleftrightarrow> proof_ok x env p \<and>
     (ro_first st \<or> ro_previous_to st = Some (rs_from_public_key (rp_signed p)) \<and>
        ro_previous_digest st = Some (rs_previous_proof_digest (rp_signed p))) \<and>
     ro_previous_release st < rs_valid_from_release (rp_signed p) \<and> rs_to_public_key (rp_signed p) \<notin> seen \<and>
     st' = after_proof x p (insert (rs_to_public_key (rp_signed p)) seen)"
proof (cases "validate_rotation_fields p env = Inr () \<and> rs_valid_from_release (rp_signed p) \<le> env_release env")
  case True
  then have len: "length (rs_from_public_key (rp_signed p)) = 32"
    by (simp add: validate_rotation_fields_def Let_def split: if_split_asm)
  note checks = rotation_checks[of p env x, OF conjunct1[OF True] conjunct2[OF True]]
  show ?thesis
    unfolding rotation_step_def Let_def assms[symmetric]
    by (simp only: True rbind_simps if_Inl_Inr checks len simp_thms)
      (use True in \<open>auto simp: after_proof_def dest: proof_ok_digest\<close>)
next
  case False
  then show ?thesis
    unfolding rotation_step_def Let_def
    by (auto simp: result_simps if_Inl_Inr proof_ok_def not_less split del: if_split)
qed

lemma rotation_loop_Inr:
  "rotation_proof_digest x p = Inr d \<Longrightarrow>
   rotation_loop x env qs (after_proof x p seen) = Inr st \<longleftrightarrow>
     list_all (proof_ok x env) qs \<and> linked x (p # qs) \<and>
     distinct (map (\<lambda>q. rs_to_public_key (rp_signed q)) qs) \<and>
     (\<lambda>q. rs_to_public_key (rp_signed q)) ` set qs \<inter> seen = {} \<and>
     st = after_proof x (last (p # qs)) (seen \<union> (\<lambda>q. rs_to_public_key (rp_signed q)) ` set qs)"
proof (induction qs arbitrary: p d seen)
  case (Cons q qs)
  have st: "ro_first (after_proof x p seen) = False" "ro_seen (after_proof x p seen) = seen"
    "ro_previous_to (after_proof x p seen) = Some (rs_to_public_key (rp_signed p))"
    "ro_previous_digest (after_proof x p seen) = Some d"
    "ro_previous_release (after_proof x p seen) = rs_valid_from_release (rp_signed p)"
    using Cons.prems by (simp_all add: after_proof_def)
  have step: "rotation_step x env q (after_proof x p seen) = Inr st' \<longleftrightarrow> proof_ok x env q \<and> continues x p q \<and>
      rs_to_public_key (rp_signed q) \<notin> seen \<and> st' = after_proof x q (insert (rs_to_public_key (rp_signed q)) seen)" for st'
    using rotation_step_Inr[of seen "after_proof x p seen" q x env st'] Cons.prems by (auto simp: st continues_def)
  show ?case
  proof (cases "proof_ok x env q \<and> continues x p q \<and> rs_to_public_key (rp_signed q) \<notin> seen")
    case True
    then obtain d' where "rotation_proof_digest x q = Inr d'" using proof_ok_digest by blast
    note IH = Cons.IH[OF this]
    have "rotation_step x env q (after_proof x p seen) = Inr (after_proof x q (insert (rs_to_public_key (rp_signed q)) seen))"
      using True by (simp add: step)
    then show ?thesis using True by (auto simp: IH)
  next
    case False
    then have "rotation_step x env q (after_proof x p seen) \<noteq> Inr st'" for st' by (simp add: step)
    then show ?thesis using False by (auto simp: result_simps)
  qed
qed auto

text \<open>
  A list of proofs that leads to the publisher's key: every proof is signed by the key it rotates
  away from, each continues the previous one, no key occurs twice, and the last one ends at the key
  of the bundle.
\<close>

definition rotation_chain :: "('k, 's) externals \<Rightarrow> cbor envelope \<Rightarrow> bool" where
  "rotation_chain x env = (case env_rotation env of
     [] \<Rightarrow> True
   | p # ps \<Rightarrow> list_all (proof_ok x env) (p # ps) \<and> linked x (p # ps) \<and>
       0 < rs_valid_from_release (rp_signed p) \<and>
       distinct (rs_from_public_key (rp_signed p) # map (\<lambda>q. rs_to_public_key (rp_signed q)) (p # ps)) \<and>
       rs_to_public_key (rp_signed (last (p # ps))) = pub_public_key (env_publisher env))"

text \<open>
  C25: \<open>verify_rotation\<close> accepts exactly the chains of rotation proofs that lead to the publisher's key.
\<close>

theorem rotation_exact: "verify_rotation x env = Inr () \<longleftrightarrow> rotation_chain x env"
proof (cases "env_rotation env")
  case (Cons p ps)
  let ?from = "rs_from_public_key (rp_signed p)" and ?to = "\<lambda>q. rs_to_public_key (rp_signed q)"
  have step: "rotation_step x env p rotation_start = Inr st' \<longleftrightarrow> proof_ok x env p \<and>
      0 < rs_valid_from_release (rp_signed p) \<and> ?to p \<noteq> ?from \<and> st' = after_proof x p {?to p, ?from}" for st'
    using rotation_step_Inr[of "{?from}" rotation_start p x env st'] by (auto simp: rotation_start_def)
  show ?thesis
  proof (cases "proof_ok x env p \<and> 0 < rs_valid_from_release (rp_signed p) \<and> ?to p \<noteq> ?from")
    case True
    then obtain d where d: "rotation_proof_digest x p = Inr d" using proof_ok_digest by blast
    have to: "ro_previous_to (after_proof x q S) = Some (?to q)" for q S by (simp add: after_proof_def)
    have "rotation_step x env p rotation_start = Inr (after_proof x p {?to p, ?from})"
      using True by (simp add: step)
    then have "verify_rotation x env = Inr () \<longleftrightarrow>
        (\<exists>st. rotation_loop x env ps (after_proof x p {?to p, ?from}) = Inr st \<and>
          ro_previous_to st = Some (pub_public_key (env_publisher env)))"
      by (auto simp: verify_rotation_def Cons result_simps rotation_loop_Inr[OF d] to)
    also have "\<dots> \<longleftrightarrow> rotation_chain x env"
      using True by (auto simp: rotation_loop_Inr[OF d] to rotation_chain_def Cons)
    finally show ?thesis .
  next
    case False
    then have "rotation_step x env p rotation_start \<noteq> Inr st'" for st' by (simp add: step)
    then show ?thesis using False by (auto simp: verify_rotation_def rotation_chain_def Cons result_simps)
  qed
qed (simp add: verify_rotation_def rotation_chain_def rotation_start_def)

section \<open>Every byte of the file\<close>

lemma unat_sum:
  assumes "unat a + unat b < 2 ^ 64"
  shows "unat (a + b :: u64) = unat a + unat b"
  using assms unat_add_lem[of a b] by simp

lemma check_zero_range_zeros:
  assumes "check_zero_range data a b = Inr ()" "unat a \<le> k" "k < unat b"
  shows "data ! k = 0"
proof -
  have ab: "\<not> b < a" "check_zero_loop data (unat a) (unat (b - a)) = Inr ()"
    using assms(1) by (auto simp: check_zero_range_def split: if_split_asm)
  then have d: "unat (b - a) = unat b - unat a" "unat a \<le> unat b"
    by (simp_all add: unat_sub word_le_nat_alt not_less)
  then have "unat a + (unat b - unat a) \<le> length data"
      "sub_slice (unat a) (unat b - unat a) data = replicate (unat b - unat a) 0"
    using ab(2) assms(2,3) by (auto simp: check_zero_loop_iff)
  then show ?thesis
    using assms(2,3) nth_slice[of "k - unat a" "unat b - unat a" "unat a" data] by (simp add: d)
qed

lemma inspect_zeros:
  assumes "inspect um x data = Inr i"
  shows "check_zero_range data (128 + kh_envelope_length (in_header i)) (kh_signature_offset (in_header i)) = Inr ()"
    "check_zero_range data (kh_signature_offset (in_header i) + kh_signature_length (in_header i))
       (kh_payload_offset (in_header i)) = Inr ()"
  using assms unfolding inspect_def KBB_HEADER_SIZE_def
  by (auto simp: result_simps split: if_splits)

definition block_covers :: "inspection \<Rightarrow> nat \<Rightarrow> block_descriptor \<Rightarrow> bool" where
  "block_covers i k d =
     (unat (kh_payload_offset (in_header i)) + unat (bd_payload_offset d) \<le> k \<and>
      k < unat (kh_payload_offset (in_header i)) + unat (bd_payload_offset d) + unat (bd_stored_size d))"

lemma payload_blocks_loop_zeros:
  assumes "payload_blocks_loop um x data (in_header i) prev ds = Inr stop" "laid_out (unat prev) ds n"
    "unat (kh_payload_offset (in_header i)) + n < 2 ^ 64"
  shows "unat stop = n \<and> (\<forall>k. unat (kh_payload_offset (in_header i)) + unat prev \<le> k \<longrightarrow>
     k < unat (kh_payload_offset (in_header i)) + n \<longrightarrow> data ! k = 0 \<or> (\<exists>d\<in>set ds. block_covers i k d))"
  using assms
proof (induction ds arbitrary: prev)
  case (Cons d ds)
  let ?po = "kh_payload_offset (in_header i)" and ?off = "bd_payload_offset d" and ?len = "bd_stored_size d"
  have zero: "check_zero_range data (?po + prev) (?po + ?off) = Inr ()"
    and rest: "payload_blocks_loop um x data (in_header i) (?off + ?len) ds = Inr stop"
    using Cons.prems(1) by (auto simp: result_simps if_Inl_Inr split del: if_split)
  have laid: "unat ?off = align_up8 (unat prev)" "laid_out (unat ?off + unat ?len) ds n"
    using Cons.prems(2) unfolding laid_out.simps by blast+
  have le: "unat prev \<le> unat ?off" "unat ?off + unat ?len \<le> n"
    using laid align_up8_bounds[of "unat prev"] laid_out_bounds[OF laid(2)] by simp_all
  have sums: "unat (?po + prev) = unat ?po + unat prev" "unat (?po + ?off) = unat ?po + unat ?off"
    "unat (?off + ?len) = unat ?off + unat ?len"
    by (rule unat_sum; use le Cons.prems(3) in linarith)+
  have IH: "unat stop = n" "\<And>k. unat ?po + (unat ?off + unat ?len) \<le> k \<Longrightarrow> k < unat ?po + n \<Longrightarrow>
      data ! k = 0 \<or> (\<exists>d\<in>set ds. block_covers i k d)"
    using Cons.IH[OF rest] laid(2) Cons.prems(3) by (auto simp: sums)
  have "data ! k = 0 \<or> (\<exists>d\<in>set (d # ds). block_covers i k d)" if "unat ?po + unat prev \<le> k" "k < unat ?po + n" for k
  proof -
    consider "k < unat ?po + unat ?off" | "block_covers i k d" | "unat ?po + (unat ?off + unat ?len) \<le> k"
      unfolding block_covers_def by linarith
    then show ?thesis
      using check_zero_range_zeros[OF zero, of k] IH(2)[of k] that by cases (auto simp: sums)
  qed
  then show ?case using IH(1) by blast
qed simp

lemma verified_layout:
  assumes "verify um x data opt = Inr i" "length data < 2 ^ 64" "h = in_header i"
  obtains stop prev where "laid_out 0 (env_blocks (in_envelope i)) stop"
    "payload_blocks_loop um x data h 0 (env_blocks (in_envelope i)) = Inr prev"
    "check_zero_range data (kh_payload_offset h + prev) (kh_payload_offset h + kh_payload_length h) = Inr ()"
    "length data = unat (kh_payload_offset h) + unat (kh_payload_length h)" "stop \<le> unat (kh_payload_length h)"
    "128 + unat (kh_envelope_length h) \<le> unat (kh_signature_offset h)"
    "unat (kh_signature_offset h) + unat (kh_signature_length h) \<le> unat (kh_payload_offset h)"
proof -
  note v = verify_Inr[OF assms(1)]
  obtain stop where stop: "blocks_loop None 0 {} (env_blocks (in_envelope i)) = Inr (stop, referenced_blocks (tree_of i))"
      "unat (kh_payload_length h) = align_up8 (unat stop)"
    using inspected_blocks[OF v(1)] assms(3) by blast
  have laid: "laid_out 0 (env_blocks (in_envelope i)) (unat stop)" using blocks_loop_Inr(2)[OF stop(1)] by simp
  have "128 \<le> length data" "kbb_decode (x_crc32c x) (take 128 data) (of_nat (length data)) = Inr h"
    using inspect_Inr[OF v(1)] assms(3) by blast+
  then have can: "kbb_canonical h (of_nat (length data))"
    using kbb_decode_Inr[of "take 128 data"] by simp
  have len: "unat (of_nat (length data) :: u64) = length data"
    using assms(2) by (simp add: unat_of_nat take_bit_eq_mod)
  obtain prev where p: "payload_blocks_loop um x data h 0 (env_blocks (in_envelope i)) = Inr prev"
      "check_zero_range data (kh_payload_offset h + prev) (kh_payload_offset h + kh_payload_length h) = Inr ()"
    using v(4) assms(3) by (auto simp: verify_payload_def Let_def result_simps)
  show thesis
    using laid p can align_up8_bounds stop(2) by (intro that) (auto simp: kbb_canonical_def len)
qed

text \<open>
  C24: A verified bundle carries no byte that nothing accounts for. Every byte of the file belongs to
  the header, the envelope, the signatures or to exactly one block of the payload, or is zero; the blocks
  lie inside the file.
\<close>

theorem verified_bundle_no_hidden_bytes:
  assumes "verify um x data opt = Inr i" "length data < 2 ^ 64" "k < length data"
  shows "(k < 128 + unat (kh_envelope_length (in_header i)) \<or>
      unat (kh_signature_offset (in_header i)) \<le> k \<and>
        k < unat (kh_signature_offset (in_header i)) + unat (kh_signature_length (in_header i)) \<or>
      (\<exists>!n. n < length (env_blocks (in_envelope i)) \<and> block_covers i k (env_blocks (in_envelope i) ! n)) \<or>
      data ! k = 0) \<and>
    (\<forall>d\<in>set (env_blocks (in_envelope i)). unat (kh_payload_offset (in_header i)) + unat (bd_payload_offset d)
       + unat (bd_stored_size d) \<le> length data)"
proof -
  let ?h = "in_header i" and ?ds = "env_blocks (in_envelope i)"
  obtain stop prev where laid: "laid_out 0 ?ds stop" and p: "payload_blocks_loop um x data ?h 0 ?ds = Inr prev"
      "check_zero_range data (kh_payload_offset ?h + prev) (kh_payload_offset ?h + kh_payload_length ?h) = Inr ()"
    and lay: "length data = unat (kh_payload_offset ?h) + unat (kh_payload_length ?h)" "stop \<le> unat (kh_payload_length ?h)"
      "128 + unat (kh_envelope_length ?h) \<le> unat (kh_signature_offset ?h)"
      "unat (kh_signature_offset ?h) + unat (kh_signature_length ?h) \<le> unat (kh_payload_offset ?h)"
    by (rule verified_layout[OF assms(1,2) refl])
  have covered: "unat prev = stop" "\<And>k. unat (kh_payload_offset ?h) \<le> k \<Longrightarrow>
      k < unat (kh_payload_offset ?h) + stop \<Longrightarrow> data ! k = 0 \<or> (\<exists>d\<in>set ?ds. block_covers i k d)"
    using payload_blocks_loop_zeros[OF p(1)] laid lay(1,2) assms(2) by auto
  have bounds: "\<forall>d\<in>set ?ds. unat (bd_payload_offset d) + unat (bd_stored_size d) \<le> stop"
      "sorted_wrt (\<lambda>d d'. unat (bd_payload_offset d) + unat (bd_stored_size d) \<le> unat (bd_payload_offset d')) ?ds"
    using laid_out_bounds[OF laid] by auto
  have unique: "m = n" if "m < length ?ds" "n < length ?ds" "block_covers i k (?ds ! m)" "block_covers i k (?ds ! n)" for m n
    using that sorted_wrt_nth_less[OF bounds(2), of m n] sorted_wrt_nth_less[OF bounds(2), of n m]
    by (cases m n rule: linorder_cases) (auto simp: block_covers_def)
  have sums: "unat (128 + kh_envelope_length ?h) = 128 + unat (kh_envelope_length ?h)"
    "unat (kh_signature_offset ?h + kh_signature_length ?h) = unat (kh_signature_offset ?h) + unat (kh_signature_length ?h)"
    "unat (kh_payload_offset ?h + prev) = unat (kh_payload_offset ?h) + stop"
    "unat (kh_payload_offset ?h + kh_payload_length ?h) = length data"
    using unat_sum[of 128 "kh_envelope_length ?h"] unat_sum[of "kh_signature_offset ?h" "kh_signature_length ?h"]
      unat_sum[of "kh_payload_offset ?h" prev] unat_sum[of "kh_payload_offset ?h" "kh_payload_length ?h"]
      lay covered(1) assms(2) by simp_all
  note zeros = check_zero_range_zeros[OF inspect_zeros(1)[OF verify_Inr(1)[OF assms(1)]], of k]
    check_zero_range_zeros[OF inspect_zeros(2)[OF verify_Inr(1)[OF assms(1)]], of k] check_zero_range_zeros[OF p(2), of k]
  have "k < 128 + unat (kh_envelope_length ?h) \<or> unat (kh_signature_offset ?h) \<le> k \<and>
      k < unat (kh_signature_offset ?h) + unat (kh_signature_length ?h) \<or>
      (\<exists>!n. n < length ?ds \<and> block_covers i k (?ds ! n)) \<or> data ! k = 0"
  proof (cases "unat (kh_payload_offset ?h) \<le> k \<and> k < unat (kh_payload_offset ?h) + stop")
    case True
    then show ?thesis using covered(2)[of k] unique by (metis in_set_conv_nth)
  qed (use zeros assms(3) in \<open>unfold sums, linarith\<close>)
  then show ?thesis using bounds(1) lay(1,2) by fastforce
qed

section \<open>Firmware order\<close>

text \<open>Versions padded with zeros to the same length; the order on lists is lexicographic.\<close>

definition padded :: "nat \<Rightarrow> u64 list \<Rightarrow> u64 list" where
  "padded n v = v @ replicate (n - length v) 0"

lemma compare_firmware_lexicographic:
  "length a \<le> n \<Longrightarrow> length b \<le> n \<Longrightarrow> compare_firmware a b = cmp (padded n a) (padded n b)"
proof (induction a b arbitrary: n rule: compare_firmware.induct)
  case 1
  then show ?case by (simp add: cmp_def)
next
  case (2 x xs)
  then obtain m where n: "n = Suc m" "length xs \<le> m" by (cases n) auto
  then show ?case using 2(1)[of m] by (auto simp: cmp_def padded_def)
next
  case (3 y ys)
  then obtain m where n: "n = Suc m" "length ys \<le> m" by (cases n) auto
  then show ?case using 3(1)[of m] by (auto simp: cmp_def padded_def)
next
  case (4 x xs y ys)
  then obtain m where n: "n = Suc m" "length xs \<le> m" "length ys \<le> m" by (cases n) auto
  then show ?case using 4(1)[of m] by (auto simp: cmp_def padded_def)
qed

lemma cmp_Less: "cmp a b = Less \<longleftrightarrow> a < b"
  by (simp add: cmp_def)

lemma parsed_firmware_length: "parse_firmware s = Inr v \<Longrightarrow> length v \<le> 8"
  by (auto simp: parse_firmware_def validate_firmware_bound_def result_simps split: if_split_asm)

lemma inspected_firmware_length:
  assumes "inspect um x data = Inr i" "env_variants (in_envelope i) = [variant]"
  shows "va_firmware_min variant = Some lo \<Longrightarrow> length lo \<le> 8"
    "va_firmware_max_exclusive variant = Some hi \<Longrightarrow> length hi \<le> 8"
proof -
  have m: "validate_metadata um x (in_envelope i) (in_signatures i) (in_header i) = Inr ()"
    using inspect_Inr[OF assms(1)] by blast
  have "validate_firmware_bound (va_firmware_min variant) = Inr ()"
      "validate_firmware_bound (va_firmware_max_exclusive variant) = Inr ()"
    using validate_metadata_Inr(4)[OF m] assms(2)
    by (auto simp: validate_variant_and_tree_def result_simps if_Inl_Inr split del: if_split)
  then show "va_firmware_min variant = Some lo \<Longrightarrow> length lo \<le> 8"
    "va_firmware_max_exclusive variant = Some hi \<Longrightarrow> length hi \<le> 8"
    by (auto simp: validate_firmware_bound_def split: if_split_asm)
qed

text \<open>
  C26: A bundle that verifies for a target and a firmware version is built for that target, and the version
  lies in the half-open range the bundle declares, compared component by component with missing
  components read as zero.
\<close>

theorem verified_for_device:
  assumes "verify um x data opt = Inr i" "vo_target opt = Some target" "vo_firmware opt = Some firmware"
  shows "\<exists>variant version. env_variants (in_envelope i) = [variant] \<and> va_target variant = target \<and>
    parse_firmware firmware = Inr version \<and>
    (\<forall>lo. va_firmware_min variant = Some lo \<longrightarrow> padded 8 lo \<le> padded 8 version) \<and>
    (\<forall>hi. va_firmware_max_exclusive variant = Some hi \<longrightarrow> padded 8 version < padded 8 hi)"
proof -
  note v = verify_Inr[OF assms(1)]
  obtain variant where var: "env_variants (in_envelope i) = [variant]" using inspected_envelope[OF v(1)] by blast
  obtain version where ver: "parse_firmware firmware = Inr version" "va_target variant = target"
      "firmware_supported variant version"
    using assms var v(1) by (auto simp: verify_def result_simps)
  note len = parsed_firmware_length[OF ver(1)] inspected_firmware_length[OF v(1) var]
  have "padded 8 lo \<le> padded 8 version" if "va_firmware_min variant = Some lo" for lo
    using ver(3) that len compare_firmware_lexicographic[of version 8 lo]
    by (simp add: firmware_supported_def cmp_Less not_less)
  moreover have "padded 8 version < padded 8 hi" if "va_firmware_max_exclusive variant = Some hi" for hi
    using ver(3) that len compare_firmware_lexicographic[of version 8 hi]
    by (simp add: firmware_supported_def cmp_Less)
  ultimately show ?thesis using var ver by blast
qed

theorem verified_for_device_witness:
  "\<exists>variant version. env_variants (in_envelope sample_inspection) = [variant] \<and> va_target variant = lit ''kindlehf'' \<and>
    parse_firmware (lit ''5.16.2'') = Inr version \<and> padded 8 [5, 16] \<le> padded 8 version"
proof -
  obtain variant version where "env_variants (in_envelope sample_inspection) = [variant]"
      "va_target variant = lit ''kindlehf''" "parse_firmware (lit ''5.16.2'') = Inr version"
      "\<And>lo. va_firmware_min variant = Some lo \<Longrightarrow> padded 8 lo \<le> padded 8 version"
    using verified_for_device[OF sample_verifies, of "lit ''kindlehf''" "lit ''5.16.2''"]
    by (auto simp: sample_options_def)
  then show ?thesis by (auto simp: sample_inspection_def sample_envelope_def)
qed

section \<open>The root identifies the bundle\<close>

text \<open>The byte strings of a bundle whose hashes the verification compares to declared ones: the
  envelope and the contents of the regular files.\<close>

definition hashed :: "nat \<Rightarrow> ('k, 's) externals \<Rightarrow> bytes \<Rightarrow> inspection \<Rightarrow> bytes set" where
  "hashed um x data i = insert (sub_slice 128 (unat (kh_envelope_length (in_header i))) data)
     {content. \<exists>e\<in>set (tree_of i). fe_type e = Regular \<and> file_content um x data i e = Inr content}"

lemma inspected_envelope_bytes:
  assumes "inspect um x data = Inr i" "eb = sub_slice 128 (unat (kh_envelope_length (in_header i))) data"
  shows "x_blake3 x eb = kh_bundle_root (in_header i)"
    "from_canonical_slice um (x_envelope_to_value x) (x_envelope_from_slice x) eb = Inr (in_envelope i)"
proof -
  obtain eb' where eb: "read_section um data 128 (kh_envelope_length (in_header i)) = Inr eb'"
      "x_blake3 x eb' = kh_bundle_root (in_header i)"
      "from_canonical_slice um (x_envelope_to_value x) (x_envelope_from_slice x) eb' = Inr (in_envelope i)"
      and len: "128 \<le> length data"
      and dec: "kbb_decode (x_crc32c x) (take 128 data) (of_nat (length data)) = Inr (in_header i)"
    using inspect_Inr[OF assms(1)] by blast
  have "kbb_canonical (in_header i) (of_nat (length data))"
    using dec kbb_decode_Inr[of "take 128 data"] len by simp
  then have "kh_envelope_length (in_header i) \<noteq> 0" by (auto simp: kbb_canonical_def)
  then have "eb = eb'" using eb(1) assms(2) by (auto simp: read_section_def split: if_split_asm)
  then show "x_blake3 x eb = kh_bundle_root (in_header i)"
    "from_canonical_slice um (x_envelope_to_value x) (x_envelope_from_slice x) eb = Inr (in_envelope i)"
    using eb by simp_all
qed

text \<open>
  C23: The bundle root identifies the bundle. Two files that verify and have the same root carry the same
  envelope and the same content of every regular file, wherever and however the blocks are stored,
  unless the hash function collides on the byte strings hashed in the two.
\<close>

theorem bundle_root_binds:
  assumes v: "verify um x data opt = Inr i" and v': "verify um x data' opt' = Inr i'"
    and root: "kh_bundle_root (in_header i) = kh_bundle_root (in_header i')"
    and inj: "inj_on (x_blake3 x) (hashed um x data i \<union> hashed um x data' i')"
  shows "in_envelope i = in_envelope i' \<and> (\<forall>e\<in>set (tree_of i). fe_type e = Regular \<longrightarrow>
    file_content um x data i e = file_content um x data' i' e)"
proof -
  let ?eb = "sub_slice 128 (unat (kh_envelope_length (in_header i))) data"
    and ?eb' = "sub_slice 128 (unat (kh_envelope_length (in_header i'))) data'"
  note e = inspected_envelope_bytes[OF verify_Inr(1)[OF v] refl] and e' = inspected_envelope_bytes[OF verify_Inr(1)[OF v'] refl]
  have "?eb = ?eb'" by (rule inj_onD[OF inj]) (simp_all add: e(1) e'(1) root hashed_def)
  then have env: "in_envelope i = in_envelope i'" using e(2) e'(2) by simp
  have "file_content um x data i f = file_content um x data' i' f" if f: "f \<in> set (tree_of i)" "fe_type f = Regular" for f
  proof -
    have f': "f \<in> set (tree_of i')" using f(1) env by (simp add: tree_of_def)
    obtain c where c: "file_content um x data i f = Inr c" "fe_file_digest f = Some (x_blake3 x c)"
      using verified_content[OF v f] by blast
    obtain c' where c': "file_content um x data' i' f = Inr c'" "fe_file_digest f = Some (x_blake3 x c')"
      using verified_content[OF v' f' f(2)] by blast
    have "c \<in> hashed um x data i" "c' \<in> hashed um x data' i'"
      using c(1) c'(1) f f' by (auto simp: hashed_def)
    then have "c = c'" using inj_onD[OF inj, of c c'] c(2) c'(2) by simp
    then show ?thesis using c(1) c'(1) by simp
  qed
  then show ?thesis using env by blast
qed

lemma sample_hashed:
  "hashed 65536 sample_externals sample_bundle sample_inspection = {[0xf6], [0x68, 0x69]}"
proof -
  obtain d where d: "env_blocks sample_envelope = [d]" "block_key d = (sample_hash [0x68, 0x69], 2)"
    by (simp add: sample_envelope_def block_key_def)
  have r: "read_raw_block 65536 sample_externals sample_bundle 144 d = Inr [0x68, 0x69]"
    using sample_block d(1) by simp
  have "sub_slice 128 1 sample_bundle = [0xf6]" by (simp add: sample_header_decodes(3)) (simp add: sub_slice_def)
  moreover have "tree_of sample_inspection = sample_tree" by (simp add: tree_of_def sample_inspection_def sample_envelope_def)
  moreover have "block_table sample_inspection = [(sample_hash [0x68, 0x69], 2) \<mapsto> d]"
    by (simp add: block_table_def sample_inspection_def d descriptor_index_def)
  ultimately show ?thesis
    by (auto simp: hashed_def file_content_def sample_tree_def file_entry_directory_def refs_of_def r
        sample_inspection_def sample_header_def)
qed

theorem bundle_root_binds_witness:
  "verify 65536 sample_externals sample_bundle sample_options = Inr sample_inspection \<and>
   in_envelope sample_inspection = in_envelope sample_inspection \<and>
   file_content 65536 sample_externals sample_bundle sample_inspection (sample_tree ! 1) =
   file_content 65536 sample_externals sample_bundle sample_inspection (sample_tree ! 1)"
proof -
  have "sample_hash [0xf6] ! 0 = 0xf6" "sample_hash [0x68, 0x69] ! 0 = 0x68"
    by (simp_all add: sample_hash_def nth_append)
  then have "sample_hash [0xf6] \<noteq> sample_hash [0x68, 0x69]" by auto
  then have inj: "inj_on (x_blake3 sample_externals) (hashed 65536 sample_externals sample_bundle sample_inspection \<union>
      hashed 65536 sample_externals sample_bundle sample_inspection)"
    by (auto simp: sample_hashed sample_externals_simps)
  show ?thesis using bundle_root_binds[OF sample_verifies sample_verifies refl inj] sample_verifies by blast
qed

text \<open>
  C27: No input makes the verification panic: the indexed accesses and the \<open>expect\<close> calls it contains
  are never reached with a value they do not hold for, whatever the file, the options and the
  third-party functions.
\<close>

theorem verify_does_not_panic: "verify um x data opt \<noteq> Inl EPanicked"
  by (rule np_verify)

section \<open>Soundness of verification\<close>

text \<open>
  C22: A verified bundle is what its publisher signed. The signature over the bundle root verifies
  under the embedded key, which is the expected one if one was given; the root is the hash of the
  envelope as it stands in the file; and every regular file of the tree has a content, read from the
  payload, whose hash and length are those the envelope declares.
\<close>

theorem verified_bundle_sound:
  assumes "verify um x data opt = Inr i" "zstd_exact x"
  shows "(\<exists>key entry rest sig. x_key_from_bytes x (pub_public_key (env_publisher (in_envelope i))) = Some key \<and>
      vo_expected_publisher opt \<in> {None, Some key} \<and> in_signatures i = entry # rest \<and>
      x_signature_from_slice x (se_signature entry) = Some sig \<and>
      x_verify x key (signature_input (kh_bundle_root (in_header i))) sig) \<and>
    kh_bundle_root (in_header i) =
      x_blake3 x (sub_slice 128 (unat (kh_envelope_length (in_header i))) data) \<and>
    (\<forall>e\<in>set (tree_of i). fe_type e = Regular \<longrightarrow> (\<exists>content.
      file_content um x data i e = Inr content \<and> fe_file_digest e = Some (x_blake3 x content) \<and>
      map_option unat (fe_size e) = Some (length content)))"
proof (intro conjI ballI impI)
  note v = verify_Inr[OF assms(1)]
  show "\<exists>key entry rest sig. x_key_from_bytes x (pub_public_key (env_publisher (in_envelope i))) = Some key \<and>
      vo_expected_publisher opt \<in> {None, Some key} \<and> in_signatures i = entry # rest \<and>
      x_signature_from_slice x (se_signature entry) = Some sig \<and>
      x_verify x key (signature_input (kh_bundle_root (in_header i))) sig"
    using v(2) by (cases "in_signatures i"; cases "vo_expected_publisher opt")
      (auto simp: verify_publisher_def Let_def result_simps if_Inl_Inr split del: if_split)
  show "kh_bundle_root (in_header i) = x_blake3 x (sub_slice 128 (unat (kh_envelope_length (in_header i))) data)"
    using inspected_envelope_bytes(1)[OF v(1) refl] by simp
next
  fix e
  assume e: "e \<in> set (tree_of i)" "fe_type e = Regular"
  note v = verify_Inr[OF assms(1)]
  obtain content where c: "file_content um x data i e = Inr content" "fe_file_digest e = Some (x_blake3 x content)"
    using verified_content[OF assms(1) e] by blast
  obtain stop where "blocks_loop None 0 {} (env_blocks (in_envelope i)) = Inr (stop, referenced_blocks (tree_of i))"
    using inspected_blocks[OF v(1)] by blast
  then have ok: "block_ok d" if "d \<in> set (env_blocks (in_envelope i))" for d
    using blocks_loop_Inr(3) that by (fastforce simp: list_all_iff)
  obtain sz refs where "fe_size e = Some sz" "fe_block_refs e = Some refs"
      "unat sz = sum_list (map (\<lambda>r. unat (snd r)) refs)"
    using validate_regular_Inr[OF inspected_entry[OF v(1) e(1)] e(2)] by blast
  moreover have "length content = sum_list (map (\<lambda>r. unat (snd r)) (refs_of e))"
    using file_bytes_length[OF assms(2) ok] c(1) by (simp add: file_content_def block_table_def)
  ultimately show "\<exists>content. file_content um x data i e = Inr content \<and>
      fe_file_digest e = Some (x_blake3 x content) \<and> map_option unat (fe_size e) = Some (length content)"
    using c by (auto simp: refs_of_def)
qed

lemma sample_decompress_single:
  assumes "s \<noteq> []" and "min 2 (length s) = length s" and dec: "sample_decompress s n = Some r"
  shows "length r = unat (hd s)"
proof -
  obtain len t where t: "s = len # t" using assms(1) by (cases s) simp_all
  have "t \<noteq> []" using dec t by (cases t) simp_all
  then obtain b u where u: "t = b # u" by (cases t) simp_all
  have "u = []" using assms(2) t u by simp
  then show ?thesis using dec t u by (auto split: if_split_asm)
qed

lemma sample_zstd_exact: "zstd_exact sample_externals"
  unfolding zstd_exact_def
proof (intro allI impI)
  fix s n m r
  assume f: "x_zstd_frame_size sample_externals s = Some (length s)"
    and c: "x_zstd_content_size sample_externals s = Some (Some m)"
    and d: "x_zstd_decompress sample_externals s n = Some r"
  have ne: "s \<noteq> []" using f by (simp add: sample_externals_def split: if_split_asm)
  have one: "min 2 (length s) = length s" using f ne by (simp add: sample_externals_def)
  have m: "ucast (hd s) = m" using c ne by (simp add: sample_externals_def)
  have "sample_decompress s n = Some r" using d by (simp add: sample_externals_def)
  then show "length r = unat m"
    unfolding m[symmetric] ucast_u8_u64 by (rule sample_decompress_single[OF ne one])
qed

theorem verified_bundle_sound_witness:
  "(\<exists>key entry rest sig.
      x_key_from_bytes sample_externals (pub_public_key (env_publisher (in_envelope sample_inspection))) = Some key \<and>
      vo_expected_publisher sample_options \<in> {None, Some key} \<and> in_signatures sample_inspection = entry # rest \<and>
      x_signature_from_slice sample_externals (se_signature entry) = Some sig \<and>
      x_verify sample_externals key (signature_input (kh_bundle_root (in_header sample_inspection))) sig) \<and>
   (\<exists>e\<in>set (tree_of sample_inspection). fe_type e = Regular \<and>
      file_content 65536 sample_externals sample_bundle sample_inspection e = Inr [0x68, 0x69] \<and>
      map_option unat (fe_size e) = Some 2)"
proof -
  have z: "zstd_exact sample_externals" by (rule sample_zstd_exact)
  note s = verified_bundle_sound[OF sample_verifies z]
  let ?e = "sample_tree ! 1"
  have e: "?e \<in> set (tree_of sample_inspection)" "fe_type ?e = Regular" "map_option unat (fe_size ?e) = Some 2"
    by (simp_all add: sample_tree_def tree_of_def sample_inspection_def sample_envelope_def)
  obtain content where c: "file_content 65536 sample_externals sample_bundle sample_inspection ?e = Inr content"
      "length content = 2"
    using s e by fastforce
  then have "content \<in> hashed 65536 sample_externals sample_bundle sample_inspection"
    using e(1,2) by (auto simp: hashed_def)
  then have "content = [0x68, 0x69]" using c(2) by (auto simp: sample_hashed)
  then show ?thesis using s e c(1) by blast
qed

theorem verified_bundle_no_hidden_bytes_witness:
  "150 < length sample_bundle \<and> sample_bundle ! 150 = 0 \<and> block_covers sample_inspection 145 (hd (env_blocks sample_envelope))"
proof -
  have "\<not> 150 < 128 + unat (kh_envelope_length (in_header sample_inspection))"
    "\<not> 150 < unat (kh_signature_offset (in_header sample_inspection)) + unat (kh_signature_length (in_header sample_inspection))"
    by (simp_all add: sample_inspection_def sample_header_def)
  moreover have "\<not> block_covers sample_inspection 150 (env_blocks (in_envelope sample_inspection) ! n)"
      if "n < length (env_blocks (in_envelope sample_inspection))" for n
    using that by (simp add: sample_inspection_def sample_envelope_def block_covers_def sample_header_def)
  moreover have "block_covers sample_inspection 145 (hd (env_blocks sample_envelope))"
    by (simp add: sample_inspection_def sample_envelope_def block_covers_def sample_header_def)
  ultimately show ?thesis
    using verified_bundle_no_hidden_bytes[OF sample_verifies, of 150] by (auto simp: sample_header_decodes(2))
qed

end
