(* ===== verification/Launcher_Fs.thy ===== *)
theory Launcher_Fs
  imports Rust_Format
begin

text \<open>
  The files of the launcher, \<open>device/kindlebridge-launcher/src/fs_safe.rs\<close>, and the errors of
  \<open>lib.rs\<close>. The files below the launcher's root are a map from paths, given by their components, to
  files, directories and links; the root itself is the empty path. Every call into the operating
  system asks the environment for its outcome: it may fail, it may find a file that is being replaced
  missing, and a call that changes a file may fail before or after the change took effect. The
  environment of a process is a record of functions of the number of calls made so far, so one model
  covers every sequence of failures. Temporary files and file permissions are not part of the state: that
  no unused temporary name is found is the failure of a change before it took effect.
\<close>

section \<open>Errors\<close>

text \<open>The error kinds; \<open>LNotFound\<close> is an I/O error for which \<open>is_not_found\<close> holds.\<close>

datatype launcher_error =
  LIo | LNotFound | LInvalidRoot | LUnsafePath | LInvalidManifest | LInvalidState | LChild

section \<open>Files and environment\<close>

datatype node = NFile bytes | NDir | NLink

type_synonym path = "str list"

datatype fault = Fine | Missing | FailBefore | FailAfter

datatype child_status = ChildRunning | ChildExited "int option"

datatype slot = SlotA | SlotB

record spawn_request =
  sq_slot :: slot
  sq_executable :: path
  sq_heartbeat :: path
  sq_instance :: str

record environment =
  q_root :: "nat \<Rightarrow> launcher_error + unit"
  q_fault :: "nat \<Rightarrow> fault"
  q_now :: "nat \<Rightarrow> u64"
  q_disabled :: "nat \<Rightarrow> launcher_error + bool"
  q_spawn :: "nat \<Rightarrow> spawn_request \<Rightarrow> launcher_error + u64"
  q_poll :: "nat \<Rightarrow> u64 \<Rightarrow> launcher_error + child_status"
  q_terminate :: "nat \<Rightarrow> u64 \<Rightarrow> launcher_error + unit"
  q_pid :: nat

record disk =
  dk_files :: "path \<rightharpoonup> node"
  dk_calls :: nat

type_synonym ('z, 'a) io = "('z disk_scheme, launcher_error, 'a) mut"

definition ask :: "(nat \<Rightarrow> 'a) \<Rightarrow> ('z, 'a) io" where
  "ask f d = (Inr (f (dk_calls d)), d\<lparr>dk_calls := Suc (dk_calls d)\<rparr>)"

definition ask_result :: "(nat \<Rightarrow> launcher_error + 'a) \<Rightarrow> ('z, 'a) io" where
  "ask_result f d = (f (dk_calls d), d\<lparr>dk_calls := Suc (dk_calls d)\<rparr>)"

text \<open>A call that only reads.\<close>

definition fs_call :: "environment \<Rightarrow> ('z, unit) io" where
  "fs_call q = ask_result (\<lambda>n. case q_fault q n of
     Fine \<Rightarrow> Inr () | Missing \<Rightarrow> Inl LNotFound | FailBefore \<Rightarrow> Inl LIo | FailAfter \<Rightarrow> Inl LIo)"

text \<open>A change that becomes visible at once, like the rename of a temporary file, followed by the
  synchronization of the directory.\<close>

definition commit :: "environment \<Rightarrow> ((path \<rightharpoonup> node) \<Rightarrow> (path \<rightharpoonup> node)) \<Rightarrow> ('z, unit) io" where
  "commit q f d = sbind (ask (q_fault q) d) (\<lambda>r d. case r of
     Fine \<Rightarrow> (Inr (), d\<lparr>dk_files := f (dk_files d)\<rparr>)
   | FailAfter \<Rightarrow> (Inl LIo, d\<lparr>dk_files := f (dk_files d)\<rparr>)
   | FailBefore \<Rightarrow> (Inl LIo, d)
   | Missing \<Rightarrow> (Inl LIo, d))"

section \<open>Paths\<close>

text \<open>
  \<open>Path::components\<close> drops empty components and every \<open>.\<close> but a leading one. The components of an
  acceptable path are names.
\<close>

definition path_components :: "str \<Rightarrow> path" where
  "path_components v = filter (\<lambda>c. c \<noteq> [] \<and> c \<noteq> [0x2e]) (split_on 0x2f v)"

definition validate_relative_path :: "str \<Rightarrow> launcher_error + path" where
  "validate_relative_path v =
     (if v = [] \<or> 1024 < length v \<or> 0x5c \<in> set v \<or> 0 \<in> set v then Inl LUnsafePath
      else if starts_with [0x2f] v \<or> hd (split_on 0x2f v) = [0x2e]
        \<or> list_ex (\<lambda>c. c = [0x2e, 0x2e] \<or> 255 < length c) (path_components v)
      then Inl LUnsafePath
      else Inr (path_components v))"

text \<open>
  \<open>root_validate_components\<close> looks up every prefix of the path. Behind a missing entry everything is
  missing; the lookup of an entry below a file is an I/O error.
\<close>

fun check_components :: "(path \<rightharpoonup> node) \<Rightarrow> path \<Rightarrow> path \<Rightarrow> launcher_error + unit" where
  "check_components fs base [] = Inr ()"
| "check_components fs base (c # cs) = (case fs (base @ [c]) of
     None \<Rightarrow> Inr ()
   | Some NLink \<Rightarrow> Inl LUnsafePath
   | Some NDir \<Rightarrow> check_components fs (base @ [c]) cs
   | Some (NFile _) \<Rightarrow> if cs = [] then Inr () else Inl LIo)"

definition root_validate_components :: "environment \<Rightarrow> path \<Rightarrow> ('z, unit) io" where
  "root_validate_components q p d = sbind (fs_call q d) (\<lambda>_ d. (check_components (dk_files d) [] p, d))"

definition resolve :: "environment \<Rightarrow> str \<Rightarrow> ('z, path) io" where
  "resolve q relative d = sbind (validate_relative_path relative, d) (\<lambda>p d.
     sbind (root_validate_components q p d) (\<lambda>_ d. (Inr p, d)))"

section \<open>Operations\<close>

definition entry_exists :: "environment \<Rightarrow> path \<Rightarrow> ('z, bool) io" where
  "entry_exists q p d = sbind (ask (q_fault q) d) (\<lambda>r d. case r of
     Fine \<Rightarrow> (case dk_files d p of
         None \<Rightarrow> (Inr False, d) | Some NLink \<Rightarrow> (Inl LUnsafePath, d) | Some _ \<Rightarrow> (Inr True, d))
   | Missing \<Rightarrow> (Inr False, d)
   | FailBefore \<Rightarrow> (Inl LIo, d)
   | FailAfter \<Rightarrow> (Inl LIo, d))"

definition read_regular :: "environment \<Rightarrow> path \<Rightarrow> nat \<Rightarrow> ('z, bytes) io" where
  "read_regular q p maximum d = sbind (fs_call q d) (\<lambda>_ d. case dk_files d p of
     None \<Rightarrow> (Inl LNotFound, d)
   | Some (NFile bs) \<Rightarrow> (if maximum < length bs then Inl LUnsafePath else Inr bs, d)
   | Some _ \<Rightarrow> (Inl LUnsafePath, d))"

definition read_file :: "environment \<Rightarrow> str \<Rightarrow> nat \<Rightarrow> ('z, bytes) io" where
  "read_file q relative maximum d = sbind (resolve q relative d) (\<lambda>p. read_regular q p maximum)"

definition optional_file :: "environment \<Rightarrow> str \<Rightarrow> nat \<Rightarrow> ('z, bytes option) io" where
  "optional_file q relative maximum d = sbind (resolve q relative d) (\<lambda>p d.
     sbind (entry_exists q p d) (\<lambda>present d.
     if \<not> present then (Inr None, d)
     else (case read_regular q p maximum d of
         (Inr bs, d) \<Rightarrow> (Inr (Some bs), d)
       | (Inl LNotFound, d) \<Rightarrow> (Inr None, d)
       | (Inl e, d) \<Rightarrow> (Inl e, d))))"

text \<open>The parent of a path must be a directory; \<open>reject_reparse\<close> fails for a missing one.\<close>

definition parent_ready :: "(path \<rightharpoonup> node) \<Rightarrow> path \<Rightarrow> launcher_error + unit" where
  "parent_ready fs p = (if butlast p = [] then Inr () else (case fs (butlast p) of
     None \<Rightarrow> Inl LNotFound | Some NLink \<Rightarrow> Inl LUnsafePath | Some NDir \<Rightarrow> Inr () | Some (NFile _) \<Rightarrow> Inl LIo))"

text \<open>A file cannot replace a directory, and a directory cannot be made where something exists: the calls
  that find out fail even if the lookup before them missed the entry.\<close>

definition atomic_write :: "environment \<Rightarrow> str \<Rightarrow> bytes \<Rightarrow> ('z, unit) io" where
  "atomic_write q relative bs d = sbind (resolve q relative d) (\<lambda>p d.
     sbind (fs_call q d) (\<lambda>_ d. sbind (parent_ready (dk_files d) p, d) (\<lambda>_ d.
     sbind (entry_exists q p d) (\<lambda>present d.
     if dk_files d p = Some NDir then (Inl (if present then LUnsafePath else LIo), d)
     else commit q (\<lambda>fs. fs(p \<mapsto> NFile bs)) d))))"

definition remove_file :: "environment \<Rightarrow> str \<Rightarrow> ('z, unit) io" where
  "remove_file q relative d = sbind (resolve q relative d) (\<lambda>p d.
     sbind (entry_exists q p d) (\<lambda>present d.
     if \<not> present then (Inr (), d)
     else if dk_files d p = Some NDir then (Inl LUnsafePath, d)
     else commit q (\<lambda>fs. fs(p := None)) d))"

definition ensure_directory :: "environment \<Rightarrow> str \<Rightarrow> ('z, unit) io" where
  "ensure_directory q relative d = sbind (validate_relative_path relative, d) (\<lambda>p d.
     sbind (root_validate_components q (butlast p) d) (\<lambda>_ d.
     sbind (entry_exists q p d) (\<lambda>present d.
     if present then ((if dk_files d p = Some NDir then Inr () else Inl LUnsafePath), d)
     else sbind (parent_ready (dk_files d) p, d) (\<lambda>_ d.
       if dk_files d p = None then commit q (\<lambda>fs. fs(p \<mapsto> NDir)) d else (Inl LIo, d)))))"

text \<open>\<open>SafeRoot::open\<close>: the checks of the root path itself, then its two directories.\<close>

definition safe_root_open :: "environment \<Rightarrow> ('z, unit) io" where
  "safe_root_open q d = sbind (ask_result (q_root q) d) (\<lambda>_ d.
     sbind (ensure_directory q (lit ''launcher'') d) (\<lambda>_. ensure_directory q (lit ''run'')))"

end
