(* ===== verification/Launcher_Manifest.thy ===== *)
theory Launcher_Manifest
  imports Launcher_Fs
begin

text \<open>
  Slots and slot manifests, \<open>device/kindlebridge-launcher/src/manifest.rs\<close>: the parser of the manifest
  text with all its checks.
\<close>

definition slot_str :: "slot \<Rightarrow> str" where
  "slot_str s = (case s of SlotA \<Rightarrow> lit ''A'' | SlotB \<Rightarrow> lit ''B'')"

definition slot_other :: "slot \<Rightarrow> slot" where
  "slot_other s = (case s of SlotA \<Rightarrow> SlotB | SlotB \<Rightarrow> SlotA)"

definition slot_parse :: "str \<Rightarrow> launcher_error + slot" where
  "slot_parse v = (if v = lit ''A'' then Inr SlotA else if v = lit ''B'' then Inr SlotB else Inl LInvalidManifest)"

record slot_manifest =
  sm_slot :: slot
  sm_executable :: str
  sm_heartbeat :: str
  sm_startup_timeout_ms :: u64
  sm_heartbeat_timeout_ms :: u64
  sm_healthy_after_ms :: u64
  sm_max_crashes :: u32
  sm_backoff_initial_ms :: u64
  sm_backoff_max_ms :: u64

definition MANIFEST_HEADER :: str where "MANIFEST_HEADER = lit ''KINDLEBRIDGE_SLOT_V1''"

definition required_fields :: "str list" where
  "required_fields = map lit [''backoff_initial_ms'', ''backoff_max_ms'', ''executable'', ''heartbeat'',
     ''heartbeat_timeout_ms'', ''healthy_after_ms'', ''max_crashes'', ''slot'', ''startup_timeout_ms'']"

text \<open>The loop over the lines behind the header, with the map of the values so far.\<close>

fun manifest_values :: "(str \<rightharpoonup> str) \<Rightarrow> str list \<Rightarrow> launcher_error + (str \<rightharpoonup> str)" where
  "manifest_values vs [] = Inr vs"
| "manifest_values vs (l # ls) =
     (if l = [] then Inl LInvalidManifest
      else rbind (ok_or (split_once 0x3d l) LInvalidManifest) (\<lambda>(key, value).
        if key = [] \<or> value = [] \<or> \<not> list_all (\<lambda>b. is_lower b \<or> b = 0x5f) key then Inl LInvalidManifest
        else if vs key \<noteq> None then Inl LInvalidManifest
        else manifest_values (vs(key \<mapsto> value)) ls))"

definition manifest_u64 :: "(str \<rightharpoonup> str) \<Rightarrow> str \<Rightarrow> launcher_error + nat" where
  "manifest_u64 vs key = rbind (ok_or (vs key) LInvalidManifest) (\<lambda>value.
     if 20 < length value \<or> (1 < length value \<and> starts_with [0x30] value) then Inl LInvalidManifest
     else ok_or (parse_unsigned (2 ^ 64) value) LInvalidManifest)"

definition manifest_validate :: "slot_manifest \<Rightarrow> launcher_error + unit" where
  "manifest_validate m =
     (if sm_startup_timeout_ms m = 0 \<or> 10000 < sm_startup_timeout_ms m then Inl LInvalidManifest
      else if sm_heartbeat_timeout_ms m = 0 \<or> 300000 < sm_heartbeat_timeout_ms m
        \<or> sm_healthy_after_ms m < sm_heartbeat_timeout_ms m \<or> 600000 < sm_healthy_after_ms m
      then Inl LInvalidManifest
      else if sm_max_crashes m = 0 \<or> 16 < sm_max_crashes m \<or> sm_backoff_initial_ms m = 0
        \<or> sm_backoff_max_ms m < sm_backoff_initial_ms m \<or> 300000 < sm_backoff_max_ms m
      then Inl LInvalidManifest
      else Inr ())"

text \<open>\<open>values[key]\<close> panics for a missing key; the check of the required fields excludes it.\<close>

definition manifest_parse :: "bytes \<Rightarrow> slot \<Rightarrow> launcher_error + slot_manifest" where
  "manifest_parse bs expected_slot =
     (if 8192 < length bs then Inl LInvalidManifest
      else if \<not> is_utf8 bs then Inl LInvalidManifest
      else if carriage_return \<in> set bs \<or> \<not> ends_with_char newline bs then Inl LInvalidManifest
      else (case lines bs of
        [] \<Rightarrow> Inl LInvalidManifest
      | header # ls \<Rightarrow>
        if header \<noteq> MANIFEST_HEADER then Inl LInvalidManifest
        else rbind (manifest_values Map.empty ls) (\<lambda>vs.
        if length ls \<noteq> length required_fields \<or> list_ex (\<lambda>k. vs k = None) required_fields
        then Inl LInvalidManifest
        else rbind (slot_parse (the (vs (lit ''slot'')))) (\<lambda>slot.
        if slot \<noteq> expected_slot then Inl LInvalidManifest
        else
          let executable = the (vs (lit ''executable'')); heartbeat = the (vs (lit ''heartbeat'')) in
          rbind (validate_relative_path executable) (\<lambda>_.
          rbind (validate_relative_path heartbeat) (\<lambda>_.
          if \<not> starts_with (lit ''run/'') heartbeat then Inl LInvalidManifest
          else
            rbind (manifest_u64 vs (lit ''startup_timeout_ms'')) (\<lambda>startup.
            rbind (manifest_u64 vs (lit ''heartbeat_timeout_ms'')) (\<lambda>timeout.
            rbind (manifest_u64 vs (lit ''healthy_after_ms'')) (\<lambda>healthy.
            rbind (manifest_u64 vs (lit ''max_crashes'')) (\<lambda>crashes.
            if 2 ^ 32 \<le> crashes then Inl LInvalidManifest
            else
              rbind (manifest_u64 vs (lit ''backoff_initial_ms'')) (\<lambda>initial.
              rbind (manifest_u64 vs (lit ''backoff_max_ms'')) (\<lambda>maximum.
              let manifest = \<lparr>sm_slot = slot, sm_executable = executable, sm_heartbeat = heartbeat,
                sm_startup_timeout_ms = of_nat startup, sm_heartbeat_timeout_ms = of_nat timeout,
                sm_healthy_after_ms = of_nat healthy, sm_max_crashes = of_nat crashes,
                sm_backoff_initial_ms = of_nat initial, sm_backoff_max_ms = of_nat maximum\<rparr> in
              rbind (manifest_validate manifest) (\<lambda>_. Inr manifest)))))))))))))"

definition manifest_path :: "slot \<Rightarrow> str" where
  "manifest_path s = lit ''slots/'' @ slot_str s @ lit ''/slot.manifest''"

definition manifest_load :: "environment \<Rightarrow> slot \<Rightarrow> ('z, slot_manifest) io" where
  "manifest_load q s d = sbind (read_file q (manifest_path s) 8192 d) (\<lambda>bs d. (manifest_parse bs s, d))"

end
