(* ===== verification/Watchdog.thy ===== *)
theory Watchdog
  imports Launcher_Manifest
begin

text \<open>
  The A/B launcher and its watchdog, \<open>device/kindlebridge-launcher/src/watchdog.rs\<close>, the update
  commands of \<open>update.rs\<close> and the selection of a staged slot in \<open>main.rs\<close>. The state of a launcher is
  the disk extended by the fields of \<open>Launcher\<close>; the clock, the disable flag and the child runner are
  part of the environment.
\<close>

section \<open>State\<close>

datatype step_outcome =
  Started slot u64 | StillRunning slot u64 | Healthy slot u64 | BackingOff slot u64
| RolledBack slot slot | Disabled | Halted slot u32

record pending_switch =
  ps_previous :: slot
  ps_target :: slot

record watchdog_state =
  ws_slot :: slot
  ws_crashes :: u32
  ws_next_start_ms :: u64
  ws_halted :: bool

record running_child =
  rc_id :: u64
  rc_slot :: slot
  rc_started_ms :: u64
  rc_last_poll_ms :: u64
  rc_instance :: str
  rc_last_heartbeat_timestamp_ms :: "u64 option"
  rc_first_heartbeat_ms :: "u64 option"
  rc_last_valid_heartbeat_ms :: "u64 option"
  rc_healthy :: bool

record launcher = disk +
  la_state :: watchdog_state
  la_running :: "running_child option"
  la_instances :: u64

type_synonym 'a launch = "(launcher, launcher_error, 'a) mut"

definition fresh_state :: "slot \<Rightarrow> watchdog_state" where
  "fresh_state s = \<lparr>ws_slot = s, ws_crashes = 0, ws_next_start_ms = 0, ws_halted = False\<rparr>"

definition POINTER_FILE :: str where "POINTER_FILE = lit ''current''"
definition PENDING_FILE :: str where "PENDING_FILE = lit ''launcher/pending-slot''"
definition PREVIOUS_FILE :: str where "PREVIOUS_FILE = lit ''launcher/previous-slot''"
definition STATE_FILE :: str where "STATE_FILE = lit ''launcher/watchdog-state''"

section \<open>Text files\<close>

definition line_field :: "str list \<Rightarrow> nat \<Rightarrow> str \<Rightarrow> launcher_error + str" where
  "line_field ls n prefix =
     ok_or (if n < length ls then strip_prefix prefix (ls ! n) else None) LInvalidState"

definition pointer_parse :: "bytes \<Rightarrow> launcher_error + slot" where
  "pointer_parse bs =
     (if \<not> is_utf8 bs then Inl LInvalidState
      else
        let value = (case strip_suffix_char newline bs of None \<Rightarrow> bs | Some v \<Rightarrow> v) in
        if length value \<noteq> 1 then Inl LInvalidState else map_err (\<lambda>_. LInvalidState) (slot_parse value))"

definition read_slot_pointer :: "environment \<Rightarrow> str \<Rightarrow> ('z, slot) io" where
  "read_slot_pointer q relative d = sbind (read_file q relative 3 d) (\<lambda>bs d. (pointer_parse bs, d))"

definition pointer_text :: "slot \<Rightarrow> bytes" where
  "pointer_text s = unlines [slot_str s]"

definition write_slot_pointer :: "environment \<Rightarrow> str \<Rightarrow> slot \<Rightarrow> ('z, unit) io" where
  "write_slot_pointer q relative s = atomic_write q relative (pointer_text s)"

definition PENDING_HEADER :: str where "PENDING_HEADER = lit ''KINDLEBRIDGE_PENDING_V1''"

definition pending_parse :: "bytes \<Rightarrow> launcher_error + pending_switch" where
  "pending_parse bs =
     (if \<not> is_utf8 bs then Inl LInvalidState
      else
        let ls = lines bs in
        if ls = [] \<or> hd ls \<noteq> PENDING_HEADER then Inl LInvalidState
        else
          rbind (line_field ls 1 (lit ''previous='')) (\<lambda>previous.
          rbind (line_field ls 2 (lit ''target='')) (\<lambda>target.
          if 3 < length ls \<or> \<not> ends_with_char newline bs then Inl LInvalidState
          else
            rbind (slot_parse previous) (\<lambda>previous.
            rbind (slot_parse target) (\<lambda>target.
            if previous = target then Inl LInvalidState
            else Inr \<lparr>ps_previous = previous, ps_target = target\<rparr>)))))"

definition read_pending :: "environment \<Rightarrow> ('z, pending_switch option) io" where
  "read_pending q d = sbind (optional_file q PENDING_FILE 128 d) (\<lambda>bs d. case bs of
     None \<Rightarrow> (Inr None, d)
   | Some bs \<Rightarrow> (rbind (pending_parse bs) (\<lambda>p. Inr (Some p)), d))"

definition encode_pending :: "pending_switch \<Rightarrow> bytes" where
  "encode_pending p = unlines [PENDING_HEADER, lit ''previous='' @ slot_str (ps_previous p),
     lit ''target='' @ slot_str (ps_target p)]"

definition STATE_HEADER :: str where "STATE_HEADER = lit ''KINDLEBRIDGE_WATCHDOG_V1''"

definition state_parse :: "bytes \<Rightarrow> launcher_error + watchdog_state" where
  "state_parse bs =
     (if \<not> is_utf8 bs then Inl LInvalidState
      else
        let ls = lines bs in
        if ls = [] \<or> hd ls \<noteq> STATE_HEADER then Inl LInvalidState
        else
          rbind (line_field ls 1 (lit ''slot='')) (\<lambda>slot.
          rbind (line_field ls 2 (lit ''crashes='')) (\<lambda>crashes.
          rbind (line_field ls 3 (lit ''next_start_ms='')) (\<lambda>next_start.
          rbind (line_field ls 4 (lit ''halted='')) (\<lambda>halted.
          if 5 < length ls \<or> \<not> ends_with_char newline bs then Inl LInvalidState
          else
            rbind (slot_parse slot) (\<lambda>slot.
            rbind (ok_or (parse_unsigned (2 ^ 32) crashes) LInvalidState) (\<lambda>crashes.
            rbind (ok_or (parse_unsigned (2 ^ 64) next_start) LInvalidState) (\<lambda>next_start.
            if halted = lit ''0'' \<or> halted = lit ''1''
            then Inr \<lparr>ws_slot = slot, ws_crashes = of_nat crashes, ws_next_start_ms = of_nat next_start,
              ws_halted = (halted = lit ''1'')\<rparr>
            else Inl LInvalidState))))))))"

definition read_state :: "environment \<Rightarrow> ('z, watchdog_state option) io" where
  "read_state q d = sbind (optional_file q STATE_FILE 256 d) (\<lambda>bs d. case bs of
     None \<Rightarrow> (Inr None, d)
   | Some bs \<Rightarrow> (rbind (state_parse bs) (\<lambda>s. Inr (Some s)), d))"

definition state_text :: "watchdog_state \<Rightarrow> bytes" where
  "state_text s = unlines [STATE_HEADER, lit ''slot='' @ slot_str (ws_slot s),
     lit ''crashes='' @ dec_str (unat (ws_crashes s)), lit ''next_start_ms='' @ dec_str (unat (ws_next_start_ms s)),
     lit ''halted='' @ (if ws_halted s then lit ''1'' else lit ''0'')]"

definition write_state :: "environment \<Rightarrow> watchdog_state \<Rightarrow> ('z, unit) io" where
  "write_state q s = atomic_write q STATE_FILE (state_text s)"

record heartbeat =
  hb_instance :: str
  hb_timestamp_ms :: u64

definition HEARTBEAT_HEADER :: str where "HEARTBEAT_HEADER = lit ''KINDLEBRIDGE_HEARTBEAT_V1''"

definition encode_heartbeat :: "str \<Rightarrow> u64 \<Rightarrow> bytes" where
  "encode_heartbeat instance_id timestamp_ms = unlines [HEARTBEAT_HEADER, lit ''instance='' @ instance_id,
     lit ''timestamp_ms='' @ dec_str (unat timestamp_ms)]"

definition heartbeat_parse :: "bytes \<Rightarrow> heartbeat option" where
  "heartbeat_parse bs = (if \<not> is_utf8 bs then None
     else (case lines bs of
       header # first # second # rest \<Rightarrow>
         if header \<noteq> HEARTBEAT_HEADER then None
         else (case (strip_prefix (lit ''instance='') first, strip_prefix (lit ''timestamp_ms='') second) of
           (Some instance_id, Some value) \<Rightarrow> (case parse_unsigned (2 ^ 64) value of
               None \<Rightarrow> None
             | Some timestamp \<Rightarrow>
                 if instance_id = [] \<or> rest \<noteq> [] \<or> \<not> ends_with_char newline bs then None
                 else Some \<lparr>hb_instance = instance_id, hb_timestamp_ms = of_nat timestamp\<rparr>)
         | _ \<Rightarrow> None)
     | _ \<Rightarrow> None))"

definition read_heartbeat :: "environment \<Rightarrow> str \<Rightarrow> ('z, heartbeat option) io" where
  "read_heartbeat q relative d = sbind (optional_file q relative 1024 d) (\<lambda>bs d.
     (Inr (case bs of None \<Rightarrow> None | Some bs \<Rightarrow> heartbeat_parse bs), d))"

section \<open>Slots\<close>

definition executable_path :: "slot \<Rightarrow> str \<Rightarrow> str" where
  "executable_path s executable = lit ''slots/'' @ slot_str s @ lit ''/'' @ executable"

definition validate_slot :: "environment \<Rightarrow> slot \<Rightarrow> ('z, slot_manifest) io" where
  "validate_slot q s d = sbind (manifest_load q s d) (\<lambda>manifest d.
     sbind (resolve q (executable_path s (sm_executable manifest)) d) (\<lambda>p d.
     sbind (entry_exists q p d) (\<lambda>present d.
     if \<not> present \<or> (case dk_files d p of Some (NFile _) \<Rightarrow> False | _ \<Rightarrow> True)
     then (Inl LInvalidManifest, d)
     else (Inr manifest, d))))"

definition recover_pending_pointer :: "environment \<Rightarrow> ('z, unit) io" where
  "recover_pending_pointer q d = sbind (read_pending q d) (\<lambda>pending d. case pending of
     None \<Rightarrow> (Inr (), d)
   | Some pending \<Rightarrow>
     sbind (read_slot_pointer q POINTER_FILE d) (\<lambda>active d.
     if active = ps_previous pending then write_slot_pointer q POINTER_FILE (ps_target pending) d
     else if active = ps_target pending then (Inr (), d)
     else (Inl LInvalidState, d)))"

text \<open>\<open>Launcher::open\<close> returns the watchdog state; \<open>start_launcher\<close> is the object built from it.\<close>

definition launcher_open :: "environment \<Rightarrow> (disk, launcher_error, watchdog_state) mut" where
  "launcher_open q d = sbind (safe_root_open q d) (\<lambda>_ d.
     sbind (recover_pending_pointer q d) (\<lambda>_ d.
     sbind (read_slot_pointer q POINTER_FILE d) (\<lambda>slot d.
     sbind (read_state q d) (\<lambda>state d.
     (Inr (case state of None \<Rightarrow> fresh_state slot | Some s \<Rightarrow> s), d)))))"

definition start_launcher :: "u64 \<Rightarrow> watchdog_state \<Rightarrow> disk \<Rightarrow> launcher" where
  "start_launcher counter s d = \<lparr>dk_files = dk_files d, dk_calls = dk_calls d, la_state = s,
     la_running = None, la_instances = counter\<rparr>"

definition request_slot :: "environment \<Rightarrow> slot \<Rightarrow> unit launch" where
  "request_slot q target s = sbind (read_slot_pointer q POINTER_FILE s) (\<lambda>current s.
     if current = target then (Inr (), s)
     else sbind (read_pending q s) (\<lambda>pending s. case pending of
       Some p \<Rightarrow> ((if ps_target p = target then Inr () else Inl LInvalidState), s)
     | None \<Rightarrow>
       sbind (validate_slot q target s) (\<lambda>_ s.
       sbind (atomic_write q PENDING_FILE (encode_pending \<lparr>ps_previous = current, ps_target = target\<rparr>) s) (\<lambda>_ s.
       sbind (write_slot_pointer q POINTER_FILE target s) (\<lambda>_ s.
       let s = s\<lparr>la_state := fresh_state target\<rparr> in write_state q (la_state s) s)))))"

section \<open>The watchdog\<close>

text \<open>\<open>write_state(&self.root, &self.state)\<close>\<close>

definition save_state :: "environment \<Rightarrow> watchdog_state \<Rightarrow> unit launch" where
  "save_state q st s = write_state q st (s\<lparr>la_state := st\<rparr>)"

definition now_ms :: "environment \<Rightarrow> ('z, u64) io" where
  "now_ms q = ask (q_now q)"

definition rollback :: "environment \<Rightarrow> pending_switch \<Rightarrow> step_outcome launch" where
  "rollback q pending s = sbind (write_slot_pointer q POINTER_FILE (ps_previous pending) s) (\<lambda>_ s.
     sbind (remove_file q PENDING_FILE s) (\<lambda>_ s.
     sbind (now_ms q s) (\<lambda>now s.
     sbind (save_state q \<lparr>ws_slot = ps_previous pending, ws_crashes = 0, ws_next_start_ms = now,
       ws_halted = False\<rparr> s) (\<lambda>_ s.
     (Inr (RolledBack (ps_target pending) (ps_previous pending)), s)))))"

definition confirm_healthy :: "environment \<Rightarrow> slot \<Rightarrow> unit launch" where
  "confirm_healthy q slot s = sbind (save_state q (fresh_state slot) s) (\<lambda>_ s.
     sbind (read_pending q s) (\<lambda>pending s. case pending of
       None \<Rightarrow> (Inr (), s)
     | Some p \<Rightarrow>
       if ps_target p = slot then
         sbind (write_slot_pointer q PREVIOUS_FILE (ps_previous p) s) (\<lambda>_. remove_file q PENDING_FILE)
       else (Inr (), s)))"

definition saturating_u64 :: "nat \<Rightarrow> u64" where
  "saturating_u64 n = (if n < 2 ^ 64 then of_nat n else - 1)"

definition saturating_incr_u32 :: "u32 \<Rightarrow> u32" where
  "saturating_incr_u32 n = (if n = - 1 then n else n + 1)"

text \<open>The delay before the next start after the given number of crashes.\<close>

definition backoff_delay :: "slot_manifest \<Rightarrow> u32 \<Rightarrow> u64" where
  "backoff_delay m crashes =
     min (saturating_u64 (unat (sm_backoff_initial_ms m) * 2 ^ min (unat crashes - 1) 31)) (sm_backoff_max_ms m)"

definition count_failure :: "environment \<Rightarrow> slot_manifest \<Rightarrow> step_outcome launch" where
  "count_failure q manifest s =
     (if sm_max_crashes manifest \<le> ws_crashes (la_state s) then
        sbind (save_state q ((la_state s)\<lparr>ws_halted := True\<rparr>) s) (\<lambda>_ s.
        (Inr (Halted (ws_slot (la_state s)) (ws_crashes (la_state s))), s))
      else
        sbind (now_ms q s) (\<lambda>now s.
        sbind (save_state q ((la_state s)\<lparr>ws_next_start_ms :=
          saturating_u64 (unat now + unat (backoff_delay manifest (ws_crashes (la_state s))))\<rparr>) s) (\<lambda>_ s.
        (Inr (BackingOff (ws_slot (la_state s)) (ws_next_start_ms (la_state s))), s))))"

definition record_failure :: "environment \<Rightarrow> running_child \<Rightarrow> slot_manifest \<Rightarrow> step_outcome launch" where
  "record_failure q running manifest s =
     (let crashes = saturating_incr_u32 (ws_crashes (la_state s));
          s = s\<lparr>la_state := (la_state s)\<lparr>ws_slot := rc_slot running, ws_crashes := crashes\<rparr>\<rparr> in
      sbind (read_pending q s) (\<lambda>pending s.
      case pending of
        Some p \<Rightarrow>
          if ps_target p = rc_slot running \<and> sm_max_crashes manifest \<le> crashes then rollback q p s
          else count_failure q manifest s
      | None \<Rightarrow> count_failure q manifest s))"

text \<open>
  One poll of a running child: the clock jump detection, the heartbeat, the confirmation of a
  healthy child and the timeouts. \<open>self.running\<close> is empty when it is called.
\<close>

definition after_clock_jump :: "slot_manifest \<Rightarrow> u64 \<Rightarrow> running_child \<Rightarrow> running_child" where
  "after_clock_jump manifest now running =
     (let gap = unat now - unat (rc_last_poll_ms running);
          jumped = now < rc_last_poll_ms running
            \<or> rc_healthy running \<and> unat (sm_heartbeat_timeout_ms manifest) < gap;
          running = running\<lparr>rc_last_poll_ms := now\<rparr> in
      if \<not> jumped then running
      else if rc_healthy running then running\<lparr>rc_last_valid_heartbeat_ms := Some now\<rparr>
      else running\<lparr>rc_started_ms := now, rc_last_heartbeat_timestamp_ms := None,
        rc_first_heartbeat_ms := None, rc_last_valid_heartbeat_ms := None\<rparr>)"

definition heartbeat_advanced :: "running_child \<Rightarrow> heartbeat option \<Rightarrow> bool" where
  "heartbeat_advanced running hb = (case hb of
     None \<Rightarrow> False
   | Some h \<Rightarrow> hb_instance h = rc_instance running
       \<and> rc_last_heartbeat_timestamp_ms running \<noteq> Some (hb_timestamp_ms h))"

definition heartbeat_timed_out :: "slot_manifest \<Rightarrow> u64 \<Rightarrow> running_child \<Rightarrow> bool" where
  "heartbeat_timed_out manifest now running = (case rc_last_valid_heartbeat_ms running of
     Some last_valid \<Rightarrow> unat (sm_heartbeat_timeout_ms manifest) < unat now - unat last_valid
   | None \<Rightarrow> unat (sm_startup_timeout_ms manifest) \<le> unat now - unat (rc_started_ms running))"

definition keep_running :: "running_child \<Rightarrow> step_outcome launch" where
  "keep_running running s =
     (Inr (if rc_healthy running then Healthy (rc_slot running) (rc_id running)
           else StillRunning (rc_slot running) (rc_id running)),
      s\<lparr>la_running := Some running\<rparr>)"

definition accept_heartbeat :: "environment \<Rightarrow> slot_manifest \<Rightarrow> u64 \<Rightarrow> heartbeat \<Rightarrow> running_child \<Rightarrow> step_outcome launch" where
  "accept_heartbeat q manifest now hb running s =
     (let first = (case rc_first_heartbeat_ms running of None \<Rightarrow> now | Some t \<Rightarrow> t);
          running = running\<lparr>rc_last_heartbeat_timestamp_ms := Some (hb_timestamp_ms hb),
            rc_last_valid_heartbeat_ms := Some now, rc_first_heartbeat_ms := Some first\<rparr> in
      if unat (sm_healthy_after_ms manifest) \<le> unat now - unat first then
        sbind (if rc_healthy running then (Inr (), s) else confirm_healthy q (rc_slot running) s) (\<lambda>_.
        keep_running (running\<lparr>rc_healthy := True\<rparr>))
      else keep_running running s)"

definition step_running :: "environment \<Rightarrow> running_child \<Rightarrow> step_outcome launch" where
  "step_running q running s = sbind (manifest_load q (rc_slot running) s) (\<lambda>manifest s.
     sbind (ask_result (\<lambda>n. q_poll q n (rc_id running)) s) (\<lambda>status s.
     case status of
       ChildExited _ \<Rightarrow> record_failure q running manifest s
     | ChildRunning \<Rightarrow>
       sbind (now_ms q s) (\<lambda>now s.
       let running = after_clock_jump manifest now running in
       sbind (read_heartbeat q (sm_heartbeat manifest) s) (\<lambda>hb s.
       if heartbeat_advanced running hb then accept_heartbeat q manifest now (the hb) running s
       else if heartbeat_timed_out manifest now running then
         sbind (ask_result (\<lambda>n. q_terminate q n (rc_id running)) s) (\<lambda>_. record_failure q running manifest)
       else keep_running running s))))"

definition new_instance :: "nat \<Rightarrow> u64 \<Rightarrow> u64 \<Rightarrow> str" where
  "new_instance pid now counter = hex16 (unat now) @ lit ''-'' @ dec_str pid @ lit ''-'' @ hex16 (unat counter)"

definition spawn_child :: "environment \<Rightarrow> slot \<Rightarrow> u64 \<Rightarrow> slot_manifest \<Rightarrow> step_outcome launch" where
  "spawn_child q active now manifest s =
     sbind (resolve q (sm_heartbeat manifest) s) (\<lambda>heartbeat_path s.
     sbind (remove_file q (sm_heartbeat manifest) s) (\<lambda>_ s.
     sbind (resolve q (executable_path active (sm_executable manifest)) s) (\<lambda>executable s.
     let instance_id = new_instance (q_pid q) now (la_instances s);
         s = s\<lparr>la_instances := la_instances s + 1\<rparr>;
         request = \<lparr>sq_slot = active, sq_executable = executable, sq_heartbeat = heartbeat_path,
           sq_instance = instance_id\<rparr> in
     sbind (ask_result (\<lambda>n. q_spawn q n request) s) (\<lambda>child_id s.
     (Inr (Started active child_id), s\<lparr>la_running := Some \<lparr>rc_id = child_id, rc_slot = active,
        rc_started_ms = now, rc_last_poll_ms = now, rc_instance = instance_id,
        rc_last_heartbeat_timestamp_ms = None, rc_first_heartbeat_ms = None,
        rc_last_valid_heartbeat_ms = None, rc_healthy = False\<rparr>\<rparr>)))))"

definition step_start :: "environment \<Rightarrow> slot \<Rightarrow> step_outcome launch" where
  "step_start q active s =
     (if ws_halted (la_state s) then (Inr (Halted (ws_slot (la_state s)) (ws_crashes (la_state s))), s)
      else sbind (now_ms q s) (\<lambda>now s.
        if now < ws_next_start_ms (la_state s)
        then (Inr (BackingOff (ws_slot (la_state s)) (ws_next_start_ms (la_state s))), s)
        else (case validate_slot q active s of
            (Inr manifest, s) \<Rightarrow> spawn_child q active now manifest s
          | (Inl e, s) \<Rightarrow> sbind (read_pending q s) (\<lambda>pending s. case pending of
                None \<Rightarrow> (Inl e, s)
              | Some p \<Rightarrow> if ps_target p = active then rollback q p s else (Inl e, s)))))"

definition step :: "environment \<Rightarrow> step_outcome launch" where
  "step q s = sbind (ask_result (q_disabled q) s) (\<lambda>disabled s.
     if disabled then (case la_running s of
         None \<Rightarrow> (Inr Disabled, s)
       | Some r \<Rightarrow> sbind (ask_result (\<lambda>n. q_terminate q n (rc_id r)) (s\<lparr>la_running := None\<rparr>)) (\<lambda>_ s.
           (Inr Disabled, s)))
     else
       sbind (read_slot_pointer q POINTER_FILE s) (\<lambda>active s.
       sbind (case la_running s of
           None \<Rightarrow> (Inr (), s)
         | Some old \<Rightarrow>
           if rc_slot old = active then (Inr (), s)
           else sbind (ask_result (\<lambda>n. q_terminate q n (rc_id old)) (s\<lparr>la_running := None\<rparr>)) (\<lambda>_.
             save_state q (fresh_state active))) (\<lambda>_ s.
       sbind (if ws_slot (la_state s) \<noteq> active \<and> la_running s = None
           then save_state q (fresh_state active) s else (Inr (), s)) (\<lambda>_ s.
       case la_running s of
         Some running \<Rightarrow> step_running q running (s\<lparr>la_running := None\<rparr>)
       | None \<Rightarrow> step_start q active s))))"

text \<open>
  \<open>run\<close> ends with an error, when the launcher is disabled or when it has given up. The sleeps are
  part of the environment; the clock is read again before the one of a backoff.
\<close>

fun run :: "nat \<Rightarrow> environment \<Rightarrow> launcher \<Rightarrow> ((launcher_error + step_outcome) \<times> launcher) option" where
  "run 0 q s = None"
| "run (Suc fuel) q s = (case step q s of
     (Inl e, s) \<Rightarrow> Some (Inl e, s)
   | (Inr outcome, s) \<Rightarrow> (case outcome of
       Disabled \<Rightarrow> Some (Inr outcome, s)
     | Halted _ _ \<Rightarrow> Some (Inr outcome, s)
     | BackingOff _ _ \<Rightarrow> run fuel q (snd (now_ms q s))
     | _ \<Rightarrow> run fuel q s))"

section \<open>Updates\<close>

definition NEXT_FILE :: str where "NEXT_FILE = lit ''next''"
definition PID_FILE :: str where "PID_FILE = lit ''run/daemon.pid''"
definition MAX_DAEMON_SIZE :: nat where "MAX_DAEMON_SIZE = 32 * 1024 * 1024"

definition active_slot :: "environment \<Rightarrow> (disk, launcher_error, slot) mut" where
  "active_slot q d = sbind (safe_root_open q d) (\<lambda>_. read_slot_pointer q POINTER_FILE)"

text \<open>\<open>entry_exists(&root.resolve(relative)?)\<close>\<close>

definition exists_below :: "environment \<Rightarrow> str \<Rightarrow> ('z, bool) io" where
  "exists_below q relative d = sbind (resolve q relative d) (\<lambda>p. entry_exists q p)"

definition rollback_daemon :: "environment \<Rightarrow> (disk, launcher_error, slot) mut" where
  "rollback_daemon q d = sbind (safe_root_open q d) (\<lambda>_ d.
     sbind (exists_below q PID_FILE d) (\<lambda>alive d.
     if alive then (Inl LInvalidState, d)
     else sbind (exists_below q PENDING_FILE d) (\<lambda>pending d.
     if pending then (Inl LInvalidState, d)
     else sbind (exists_below q PREVIOUS_FILE d) (\<lambda>present d.
     if \<not> present then (Inl LInvalidState, d)
     else
       sbind (read_slot_pointer q PREVIOUS_FILE d) (\<lambda>previous d.
       sbind (read_slot_pointer q POINTER_FILE d) (\<lambda>current d.
       sbind (if previous \<noteq> current
         then sbind (validate_slot q previous d) (\<lambda>_. write_slot_pointer q POINTER_FILE previous)
         else (Inr (), d)) (\<lambda>_ d.
       sbind (remove_file q NEXT_FILE d) (\<lambda>_ d.
       sbind (remove_file q PREVIOUS_FILE d) (\<lambda>_ d.
       (Inr previous, d))))))))))"

definition validate_arm_elf :: "bytes \<Rightarrow> launcher_error + unit" where
  "validate_arm_elf bs =
     (if length bs < 20 \<or> take 4 bs \<noteq> [0x7f, 0x45, 0x4c, 0x46] \<or> bs ! 4 \<noteq> 1 \<or> bs ! 5 \<noteq> 1
        \<or> of_le_bytes [bs ! 18, bs ! 19] \<noteq> (40 :: u16)
      then Inl LInvalidState else Inr ())"

definition slot_manifest_text :: "slot \<Rightarrow> bytes" where
  "slot_manifest_text s = unlines [MANIFEST_HEADER, lit ''slot='' @ slot_str s,
     lit ''executable=bin/kindlebridged'', lit ''heartbeat=run/heartbeat'', lit ''startup_timeout_ms=10000'',
     lit ''heartbeat_timeout_ms=10000'', lit ''healthy_after_ms=10000'', lit ''max_crashes=3'',
     lit ''backoff_initial_ms=100'', lit ''backoff_max_ms=1000'']"

record staged_update =
  su_slot :: slot
  su_digest :: str
  su_size :: nat

text \<open>
  The source of an update is a file outside of the root: the result of its checks with the length its
  metadata reports, and the bytes read from it. The digest in hexadecimal is a parameter.
\<close>

definition stage_daemon :: "environment \<Rightarrow> (bytes \<Rightarrow> str) \<Rightarrow> launcher_error + nat \<Rightarrow> launcher_error + bytes \<Rightarrow>
    str \<Rightarrow> (disk, launcher_error, staged_update) mut" where
  "stage_daemon q blake3_hex metadata content expected_digest d = sbind (safe_root_open q d) (\<lambda>_ d.
     sbind (metadata, d) (\<lambda>len d.
     if len = 0 \<or> MAX_DAEMON_SIZE < len then (Inl LInvalidState, d)
     else sbind (content, d) (\<lambda>bs d.
     if length bs \<noteq> len then (Inl LInvalidState, d)
     else sbind (validate_arm_elf bs, d) (\<lambda>_ d.
     if blake3_hex bs \<noteq> expected_digest then (Inl LInvalidState, d)
     else
       sbind (read_slot_pointer q POINTER_FILE d) (\<lambda>current d.
       let slot = slot_other current; base = lit ''slots/'' @ slot_str slot in
       sbind (ensure_directory q (lit ''slots'') d) (\<lambda>_ d.
       sbind (ensure_directory q base d) (\<lambda>_ d.
       sbind (ensure_directory q (base @ lit ''/bin'') d) (\<lambda>_ d.
       sbind (remove_file q PREVIOUS_FILE d) (\<lambda>_ d.
       sbind (atomic_write q (base @ lit ''/bin/kindlebridged'') bs d) (\<lambda>_ d.
       sbind (resolve q (base @ lit ''/bin/kindlebridged'') d) (\<lambda>_ d.
       sbind (fs_call q d) (\<lambda>_ d.
       sbind (atomic_write q (manifest_path slot) (slot_manifest_text slot) d) (\<lambda>_ d.
       sbind (atomic_write q NEXT_FILE (pointer_text slot) d) (\<lambda>_ d.
       (Inr \<lparr>su_slot = slot, su_digest = blake3_hex bs, su_size = len\<rparr>, d)))))))))))))))"

text \<open>
  \<open>Command::SelectStaged\<close> of \<open>main.rs\<close>: \<open>read_staged_slot\<close> reads the files below the root directly,
  \<open>request_slot\<close> opens a launcher, and the staged pointer is removed at the end. \<open>Path::exists\<close> is false when
  the call fails and for a link that leads nowhere, which the environment decides; a staged pointer that
  is a link is not followed.
\<close>

definition read_staged_slot :: "environment \<Rightarrow> (disk, launcher_error, slot) mut" where
  "read_staged_slot q d = sbind (ask (q_fault q) d) (\<lambda>r d.
     if r = Fine \<and> dk_files d (path_components PID_FILE) \<noteq> None then (Inl LInvalidState, d)
     else sbind (fs_call q d) (\<lambda>_ d. case dk_files d [NEXT_FILE] of
        Some (NFile bs) \<Rightarrow>
          ((if bs = pointer_text SlotA then Inr SlotA
            else if bs = pointer_text SlotB then Inr SlotB else Inl LInvalidState), d)
      | _ \<Rightarrow> (Inl LIo, d)))"

definition drop_launcher :: "('a \<times> launcher) \<Rightarrow> 'a \<times> disk" where
  "drop_launcher r = (fst r, disk.truncate (snd r))"

definition select_staged :: "environment \<Rightarrow> (disk, launcher_error, slot) mut" where
  "select_staged q d = sbind (read_staged_slot q d) (\<lambda>slot d.
     sbind (launcher_open q d) (\<lambda>state d.
     sbind (drop_launcher (request_slot q slot (start_launcher 0 state d))) (\<lambda>_ d.
     sbind (commit q (\<lambda>fs. fs([NEXT_FILE] := None)) d) (\<lambda>_ d. (Inr slot, d)))))"

end
