(* ===== verification/Launcher_Safe.thy ===== *)
theory Launcher_Safe
  imports Watchdog
begin

text \<open>
  Properties of the launcher: its text files are read back as they were written, and its files stay
  consistent whatever fails and whenever a process stops.
\<close>

section \<open>Text files\<close>

lemma launcher_paths:
  "validate_relative_path POINTER_FILE = Inr [lit ''current'']"
  "validate_relative_path PENDING_FILE = Inr [lit ''launcher'', lit ''pending-slot'']"
  "validate_relative_path PREVIOUS_FILE = Inr [lit ''launcher'', lit ''previous-slot'']"
  "validate_relative_path STATE_FILE = Inr [lit ''launcher'', lit ''watchdog-state'']"
  "validate_relative_path NEXT_FILE = Inr [lit ''next'']"
  "validate_relative_path PID_FILE = Inr [lit ''run'', lit ''daemon.pid'']"
  "validate_relative_path (lit ''launcher'') = Inr [lit ''launcher'']"
  "validate_relative_path (lit ''run'') = Inr [lit ''run'']"
  by (simp_all add: validate_relative_path_def path_components_def POINTER_FILE_def PENDING_FILE_def PREVIOUS_FILE_def
      STATE_FILE_def NEXT_FILE_def PID_FILE_def lit_def starts_with_def)

lemma slot_parse_str [simp]: "slot_parse (slot_str s) = Inr s"
  by (cases s) (simp_all add: slot_parse_def slot_str_def lit_def)

lemma slot_str_length [simp]: "length (slot_str s) = 1"
  by (cases s) (simp_all add: slot_str_def lit_def)

lemma ascii_utf8:
  assumes "is_ascii bs"
  shows "is_utf8 bs"
proof -
  have "utf8_decode bs \<noteq> None" using assms
  proof (induction bs)
    case (Cons b bs)
    then have "b < 0x80" "utf8_decode bs \<noteq> None" by (simp_all add: is_ascii_def)
    then show ?case
      by (subst utf8_decode.simps) (auto simp: utf8_char_width_def)
  qed (simp add: utf8_decode.simps)
  then show ?thesis by (simp add: is_utf8_def)
qed

lemma ascii_append [simp]: "is_ascii (a @ b) \<longleftrightarrow> is_ascii a \<and> is_ascii b"
  by (auto simp: is_ascii_def)

lemma ascii_unlines: "list_all is_ascii ls \<Longrightarrow> is_ascii (unlines ls)"
  by (induction ls) (auto simp: unlines_def is_ascii_def)

lemma ascii_dec_str [simp]: "is_ascii (dec_str n)"
  unfolding is_ascii_def list_all_iff
proof
  fix b assume "b \<in> set (dec_str n)"
  then have "is_digit b" by (rule dec_str_digits)
  then show "b < 0x80" by (simp add: is_digit_def word_le_nat_alt word_less_nat_alt)
qed

lemma slot_str_plain [simp]: "plain_line (slot_str s)" "is_ascii (slot_str s)"
  by (cases s; simp add: slot_str_def lit_def plain_line_def is_ascii_def)+

lemma pointer_roundtrip [simp]: "pointer_parse (pointer_text s) = Inr s"
proof -
  have "is_utf8 (pointer_text s)" by (rule ascii_utf8) (simp add: pointer_text_def ascii_unlines)
  moreover have "pointer_text s = slot_str s @ [newline]" by (simp add: pointer_text_def unlines_def)
  ultimately show ?thesis by (simp add: pointer_parse_def)
qed

lemma pending_roundtrip:
  assumes "ps_previous p \<noteq> ps_target p"
  shows "pending_parse (encode_pending p) = Inr p"
proof -
  let ?ls = "[PENDING_HEADER, lit ''previous='' @ slot_str (ps_previous p), lit ''target='' @ slot_str (ps_target p)]"
  have "list_all is_ascii ?ls" "list_all plain_line ?ls"
    by (simp_all add: PENDING_HEADER_def lit_def is_ascii_def plain_line_def
        slot_str_plain[unfolded is_ascii_def plain_line_def])
  then have "is_utf8 (encode_pending p)" "lines (encode_pending p) = ?ls" "ends_with_char newline (encode_pending p)"
    by (simp_all only: encode_pending_def ascii_utf8 ascii_unlines lines_unlines ends_unlines list.distinct not_False_eq_True)
  then show ?thesis using assms by (simp add: pending_parse_def line_field_def)
qed

lemma state_roundtrip: "state_parse (state_text s) = Inr s"
proof -
  let ?ls = "[STATE_HEADER, lit ''slot='' @ slot_str (ws_slot s),
     lit ''crashes='' @ dec_str (unat (ws_crashes s)), lit ''next_start_ms='' @ dec_str (unat (ws_next_start_ms s)),
     lit ''halted='' @ (if ws_halted s then lit ''1'' else lit ''0'')]"
  have "list_all is_ascii ?ls" "list_all plain_line ?ls"
    by (simp_all add: STATE_HEADER_def lit_def is_ascii_def plain_line_def
        slot_str_plain[unfolded is_ascii_def plain_line_def] ascii_dec_str[unfolded is_ascii_def]
        plain_digits[unfolded plain_line_def])
  then have t: "is_utf8 (state_text s)" "lines (state_text s) = ?ls" "ends_with_char newline (state_text s)"
    by (simp_all only: state_text_def ascii_utf8 ascii_unlines lines_unlines ends_unlines list.distinct not_False_eq_True)
  have n: "parse_unsigned 4294967296 (dec_str (unat (ws_crashes s))) = Some (unat (ws_crashes s))"
    "parse_unsigned 18446744073709551616 (dec_str (unat (ws_next_start_ms s))) = Some (unat (ws_next_start_ms s))"
    using unsigned_less[of "ws_crashes s", where 'a = nat] unsigned_less[of "ws_next_start_ms s", where 'a = nat]
    by simp_all
  show ?thesis
    unfolding state_parse_def by (simp add: t n line_field_def) (simp add: lit_def)
qed

lemma heartbeat_roundtrip:
  assumes "plain_line i" "is_ascii i" "i \<noteq> []"
  shows "heartbeat_parse (encode_heartbeat i t) = Some \<lparr>hb_instance = i, hb_timestamp_ms = t\<rparr>"
proof -
  let ?ls = "[HEARTBEAT_HEADER, lit ''instance='' @ i, lit ''timestamp_ms='' @ dec_str (unat t)]"
  have "list_all is_ascii ?ls" "list_all plain_line ?ls"
    using assms by (simp_all add: HEARTBEAT_HEADER_def lit_def is_ascii_def plain_line_def
        ascii_dec_str[unfolded is_ascii_def] plain_digits[unfolded plain_line_def])
  then have h: "is_utf8 (encode_heartbeat i t)" "lines (encode_heartbeat i t) = ?ls" "ends_with_char newline (encode_heartbeat i t)"
    by (simp_all only: encode_heartbeat_def ascii_utf8 ascii_unlines lines_unlines ends_unlines list.distinct not_False_eq_True)
  have "parse_unsigned 18446744073709551616 (dec_str (unat t)) = Some (unat t)"
    using unsigned_less[of t, where 'a = nat] by simp
  then show ?thesis using h assms(3) by (simp add: heartbeat_parse_def)
qed

definition staged_manifest :: "slot \<Rightarrow> slot_manifest" where
  "staged_manifest s = \<lparr>sm_slot = s, sm_executable = lit ''bin/kindlebridged'', sm_heartbeat = lit ''run/heartbeat'',
     sm_startup_timeout_ms = 10000, sm_heartbeat_timeout_ms = 10000, sm_healthy_after_ms = 10000,
     sm_max_crashes = 3, sm_backoff_initial_ms = 100, sm_backoff_max_ms = 1000\<rparr>"

lemma staged_values:
  "manifest_values Map.empty [lit ''slot='' @ slot_str s,
     lit ''executable=bin/kindlebridged'', lit ''heartbeat=run/heartbeat'', lit ''startup_timeout_ms=10000'',
     lit ''heartbeat_timeout_ms=10000'', lit ''healthy_after_ms=10000'', lit ''max_crashes=3'',
     lit ''backoff_initial_ms=100'', lit ''backoff_max_ms=1000''] = Inr [lit ''slot'' \<mapsto> slot_str s,
     lit ''executable'' \<mapsto> lit ''bin/kindlebridged'', lit ''heartbeat'' \<mapsto> lit ''run/heartbeat'',
     lit ''startup_timeout_ms'' \<mapsto> lit ''10000'', lit ''heartbeat_timeout_ms'' \<mapsto> lit ''10000'',
     lit ''healthy_after_ms'' \<mapsto> lit ''10000'', lit ''max_crashes'' \<mapsto> lit ''3'',
     lit ''backoff_initial_ms'' \<mapsto> lit ''100'', lit ''backoff_max_ms'' \<mapsto> lit ''1000'']"
  by (cases s) (simp_all add: lit_def slot_str_def is_lower_def)


lemma staged_manifest_parses: "manifest_parse (slot_manifest_text s) s = Inr (staged_manifest s)"
proof -
  let ?ls = "[lit ''slot='' @ slot_str s, lit ''executable=bin/kindlebridged'', lit ''heartbeat=run/heartbeat'',
     lit ''startup_timeout_ms=10000'', lit ''heartbeat_timeout_ms=10000'', lit ''healthy_after_ms=10000'',
     lit ''max_crashes=3'', lit ''backoff_initial_ms=100'', lit ''backoff_max_ms=1000'']"
  have l: "list_all is_ascii (MANIFEST_HEADER # ?ls)" "list_all plain_line (MANIFEST_HEADER # ?ls)"
    by (simp_all add: MANIFEST_HEADER_def lit_def is_ascii_def plain_line_def
        slot_str_plain[unfolded is_ascii_def plain_line_def])
  then have t: "is_utf8 (slot_manifest_text s)" "lines (slot_manifest_text s) = MANIFEST_HEADER # ?ls"
      "ends_with_char newline (slot_manifest_text s)"
    by (simp_all only: slot_manifest_text_def ascii_utf8 ascii_unlines lines_unlines ends_unlines list.distinct not_False_eq_True)
  have "carriage_return \<notin> set (slot_manifest_text s)" "length (slot_manifest_text s) \<le> 8192"
    by (cases s; simp add: slot_manifest_text_def unlines_def lit_def slot_str_def MANIFEST_HEADER_def)+
  moreover have "validate_relative_path (lit ''bin/kindlebridged'') = Inr [lit ''bin'', lit ''kindlebridged'']"
    "validate_relative_path (lit ''run/heartbeat'') = Inr [lit ''run'', lit ''heartbeat'']"
    "starts_with (lit ''run/'') (lit ''run/heartbeat'')"
    by (simp_all add: validate_relative_path_def path_components_def lit_def starts_with_def)
  moreover obtain vs where vs: "manifest_values Map.empty ?ls = Inr vs" "vs (lit ''slot'') = Some (slot_str s)"
      "vs (lit ''executable'') = Some (lit ''bin/kindlebridged'')" "vs (lit ''heartbeat'') = Some (lit ''run/heartbeat'')"
      "vs (lit ''startup_timeout_ms'') = Some (lit ''10000'')" "vs (lit ''heartbeat_timeout_ms'') = Some (lit ''10000'')"
      "vs (lit ''healthy_after_ms'') = Some (lit ''10000'')" "vs (lit ''max_crashes'') = Some (lit ''3'')"
      "vs (lit ''backoff_initial_ms'') = Some (lit ''100'')" "vs (lit ''backoff_max_ms'') = Some (lit ''1000'')"
    using staged_values[of s] by (rule that) (simp_all add: lit_def)
  moreover have "parse_unsigned 18446744073709551616 (lit ''10000'') = Some 10000" "parse_unsigned 18446744073709551616 (lit ''3'') = Some 3"
    "parse_unsigned 18446744073709551616 (lit ''100'') = Some 100" "parse_unsigned 18446744073709551616 (lit ''1000'') = Some 1000"
    "\<not> starts_with [0x30] (lit ''10000'')" "\<not> starts_with [0x30] (lit ''100'')" "\<not> starts_with [0x30] (lit ''1000'')"
    "length (lit ''10000'') = 5" "length (lit ''100'') = 3" "length (lit ''1000'') = 4" "length (lit ''3'') = 1"
    by (simp_all add: lit_def parse_unsigned_def starts_with_def is_digit_def)
  ultimately show ?thesis
    unfolding manifest_parse_def t
    by (simp add: not_less manifest_u64_def required_fields_def t del: manifest_values.simps)
      (simp add: manifest_validate_def staged_manifest_def)
qed

section \<open>Predicates of the files that operations keep\<close>

text \<open>\<open>kept P r\<close>: the files satisfy \<open>P\<close> when a call returns, with a value or with an error.\<close>

definition kept :: "((path \<rightharpoonup> node) \<Rightarrow> bool) \<Rightarrow> (launcher_error + 'a) \<times> 'z disk_scheme \<Rightarrow> bool" where
  "kept P r = P (dk_files (snd r))"

named_theorems kept_intros \<open>rules for predicates that calls keep\<close>

lemma kept_sbind [kept_intros]:
  "kept P r \<Longrightarrow> (\<And>x s. r = (Inr x, s) \<Longrightarrow> P (dk_files s) \<Longrightarrow> kept P (f x s)) \<Longrightarrow> kept P (sbind r f)"
  by (cases r; cases "fst r") (auto simp: kept_def)

lemma kept_pair [kept_intros]: "P (dk_files d) \<Longrightarrow> kept P (r, d)"
  by (simp add: kept_def)

lemma kept_if [kept_intros]: "(c \<Longrightarrow> kept P r) \<Longrightarrow> (\<not> c \<Longrightarrow> kept P r') \<Longrightarrow> kept P (if c then r else r')"
  by simp

lemma kept_option [kept_intros]:
  "(v = None \<Longrightarrow> kept P r) \<Longrightarrow> (\<And>x. v = Some x \<Longrightarrow> kept P (f x)) \<Longrightarrow>
   kept P (case v of None \<Rightarrow> r | Some x \<Rightarrow> f x)"
  by (cases v) simp_all

lemma kept_ask [kept_intros]: "P (dk_files d) \<Longrightarrow> kept P (ask f d)" "P (dk_files d) \<Longrightarrow> kept P (ask_result g d)"
  by (simp_all add: kept_def ask_def ask_result_def)

lemma kept_commit:
  assumes "P (dk_files d)" "P (f (dk_files d))"
  shows "kept P (commit q f d)"
  using assms by (auto simp: kept_def commit_def ask_def split: fault.splits)

lemma kept_reads [kept_intros]:
  assumes "P (dk_files d)"
  shows "kept P (fs_call q d)" "kept P (root_validate_components q p d)" "kept P (resolve q rel d)"
    "kept P (entry_exists q p d)" "kept P (read_regular q p n d)" "kept P (read_file q rel n d)"
    "kept P (now_ms q d)"
proof -
  have c: "kept P (fs_call q d)" if "P (dk_files d)" for d :: "'a disk_scheme"
    using that unfolding fs_call_def by (intro kept_intros)
  have v: "kept P (root_validate_components q p d)" if "P (dk_files d)" for p and d :: "'a disk_scheme"
    using that unfolding root_validate_components_def by (intro kept_intros c) auto
  have r: "kept P (resolve q rel d)" if "P (dk_files d)" for d :: "'a disk_scheme"
    using that unfolding resolve_def by (intro kept_intros v) auto
  have rr: "kept P (read_regular q p n d)" if "P (dk_files d)" for p and d :: "'a disk_scheme"
    using that unfolding read_regular_def
    by (intro kept_sbind c) (auto simp: kept_def split: option.splits node.splits)
  show "kept P (fs_call q d)" "kept P (root_validate_components q p d)" "kept P (resolve q rel d)"
    "kept P (read_regular q p n d)" using assms c v r rr by simp_all
  show "kept P (read_file q rel n d)" unfolding read_file_def by (intro kept_sbind r rr assms)
  show "kept P (entry_exists q p d)"
    using assms unfolding entry_exists_def
    by (auto simp: ask_def kept_def split: fault.splits option.splits node.splits)
  show "kept P (now_ms q d)" unfolding now_ms_def using assms by (intro kept_intros)
qed

lemma kept_optional [kept_intros]:
  assumes "P (dk_files d)"
  shows "kept P (optional_file q rel n d)"
proof -
  have "kept P (case read_regular q p n d of (Inr bs, d) \<Rightarrow> (Inr (Some bs), d)
       | (Inl LNotFound, d) \<Rightarrow> (Inr None, d) | (Inl e, d) \<Rightarrow> (Inl e, d))" if "P (dk_files d)" for p and d :: "'a disk_scheme"
    using kept_reads(5)[of P d q p n, OF that] by (auto simp: kept_def split: sum.splits prod.splits launcher_error.splits)
  then show ?thesis
    unfolding optional_file_def by (intro kept_intros assms) auto
qed

lemma kept_parsers [kept_intros]:
  assumes "P (dk_files d)"
  shows "kept P (read_slot_pointer q rel d)" "kept P (read_pending q d)" "kept P (read_state q d)"
    "kept P (read_heartbeat q rel d)" "kept P (manifest_load q sl d)" "kept P (exists_below q rel d)"
  unfolding read_slot_pointer_def read_pending_def read_state_def read_heartbeat_def manifest_load_def exists_below_def
  by (intro kept_intros assms; assumption)+

lemma kept_validate_slot [kept_intros]:
  assumes "P (dk_files d)"
  shows "kept P (validate_slot q sl d)"
  unfolding validate_slot_def by (intro kept_intros assms) auto

lemma kept_atomic_write:
  assumes "P (dk_files d)" "validate_relative_path rel = Inr p" "\<And>fs. P fs \<Longrightarrow> fs p \<noteq> Some NDir \<Longrightarrow> P (fs(p \<mapsto> NFile bs))"
  shows "kept P (atomic_write q rel bs d)"
proof -
  have r: "p' = p" if "resolve q rel d' = (Inr p', d'')" for p' and d' d'' :: "'a disk_scheme"
    using that assms(2) by (auto simp: resolve_def result_simps)
  show ?thesis
    unfolding atomic_write_def
    by (intro kept_intros kept_commit assms(1)) (auto dest: r intro: assms(3))
qed

lemma kept_remove_file:
  assumes "P (dk_files d)" "validate_relative_path rel = Inr p" "\<And>fs. P fs \<Longrightarrow> fs p \<noteq> Some NDir \<Longrightarrow> P (fs(p := None))"
  shows "kept P (remove_file q rel d)"
proof -
  have r: "p' = p" if "resolve q rel d' = (Inr p', d'')" for p' and d' d'' :: "'a disk_scheme"
    using that assms(2) by (auto simp: resolve_def result_simps)
  show ?thesis
    unfolding remove_file_def
    by (intro kept_intros kept_commit assms(1)) (auto dest: r intro: assms(3))
qed

lemma kept_ensure_directory:
  assumes "P (dk_files d)" "validate_relative_path rel = Inr p" "\<And>fs. P fs \<Longrightarrow> fs p = None \<Longrightarrow> P (fs(p \<mapsto> NDir))"
  shows "kept P (ensure_directory q rel d)"
  unfolding ensure_directory_def
  by (intro kept_intros kept_commit assms(1)) (use assms(2) in \<open>auto intro: assms(3)\<close>)

lemma manifest_heartbeat_path:
  assumes "manifest_parse bs sl = Inr m"
  shows "\<exists>cs. validate_relative_path (sm_heartbeat m) = Inr (lit ''run'' # cs)"
proof -
  have h: "starts_with (lit ''run/'') (sm_heartbeat m)" "\<exists>p. validate_relative_path (sm_heartbeat m) = Inr p"
    using assms unfolding manifest_parse_def
    by (auto simp: result_simps Let_def split: if_split_asm list.splits)
  have "lit ''run/'' = lit ''run'' @ [0x2f]" by (simp add: lit_def)
  moreover have "sm_heartbeat m = lit ''run/'' @ drop (length (lit ''run/'')) (sm_heartbeat m)"
    using h(1) append_take_drop_id[of "length (lit ''run/'')" "sm_heartbeat m"] unfolding starts_with_def by metis
  ultimately obtain r where r: "sm_heartbeat m = lit ''run'' @ 0x2f # r"
    by (metis append.assoc append_Cons append_Nil)
  have "path_components (sm_heartbeat m) = lit ''run'' # path_components r"
    by (simp add: path_components_def r split_on_append_sep lit_def)
  then show ?thesis using h(2) by (auto simp: validate_relative_path_def split: if_split_asm)
qed

section \<open>The files of the watchdog\<close>

text \<open>
  The changes that the launcher makes, as a contract: a predicate of the files that each of them
  keeps is kept by every operation, at whatever point it stops.
\<close>

locale slot_files =
  fixes P :: "(path \<rightharpoonup> node) \<Rightarrow> bool"
  assumes pointer: "P fs \<Longrightarrow> P (fs([lit ''current''] \<mapsto> NFile (pointer_text s)))"
    and previous: "P fs \<Longrightarrow> P (fs([lit ''launcher'', lit ''previous-slot''] \<mapsto> NFile (pointer_text s)))"
    and no_previous: "P fs \<Longrightarrow> P (fs([lit ''launcher'', lit ''previous-slot''] := None))"
    and pending: "P fs \<Longrightarrow> ps_previous p \<noteq> ps_target p \<Longrightarrow>
      P (fs([lit ''launcher'', lit ''pending-slot''] \<mapsto> NFile (encode_pending p)))"
    and no_pending: "P fs \<Longrightarrow> P (fs([lit ''launcher'', lit ''pending-slot''] := None))"
    and state: "P fs \<Longrightarrow> P (fs([lit ''launcher'', lit ''watchdog-state''] \<mapsto> NFile (state_text st)))"
    and no_next: "P fs \<Longrightarrow> P (fs([lit ''next''] := None))"
    and heartbeat: "P fs \<Longrightarrow> fs (lit ''run'' # cs) \<noteq> Some NDir \<Longrightarrow> P (fs(lit ''run'' # cs := None))"
    and directories: "P fs \<Longrightarrow> fs [lit ''launcher''] = None \<Longrightarrow> P (fs([lit ''launcher''] \<mapsto> NDir))"
      "P fs \<Longrightarrow> fs [lit ''run''] = None \<Longrightarrow> P (fs([lit ''run''] \<mapsto> NDir))"
begin

lemma kept_writes:
  assumes "P (dk_files d)"
  shows "kept P (write_slot_pointer q POINTER_FILE sl d)" "kept P (write_slot_pointer q PREVIOUS_FILE sl d)"
    "kept P (write_state q st d)" "kept P (remove_file q PENDING_FILE d)" "kept P (remove_file q PREVIOUS_FILE d)"
    "kept P (remove_file q NEXT_FILE d)" "ps_previous p \<noteq> ps_target p \<Longrightarrow> kept P (atomic_write q PENDING_FILE (encode_pending p) d)"
  unfolding write_slot_pointer_def write_state_def
  by (rule kept_atomic_write kept_remove_file, rule assms, rule launcher_paths,
      erule pointer previous no_previous state no_pending no_next pending, (assumption | simp)?)+

lemma kept_save_state: "P (dk_files s) \<Longrightarrow> kept P (save_state q st s)"
  unfolding save_state_def by (rule kept_writes) simp

lemmas watchdog_intros = kept_intros kept_writes kept_save_state

lemma kept_rollback: "P (dk_files s) \<Longrightarrow> kept P (rollback q p s)"
  unfolding rollback_def by (intro watchdog_intros) auto

lemma kept_confirm_healthy: "P (dk_files s) \<Longrightarrow> kept P (confirm_healthy q sl s)"
  unfolding confirm_healthy_def by (intro watchdog_intros) auto

lemma kept_count_failure: "P (dk_files s) \<Longrightarrow> kept P (count_failure q m s)"
  unfolding count_failure_def by (intro watchdog_intros) auto

lemma kept_record_failure: "P (dk_files s) \<Longrightarrow> kept P (record_failure q r m s)"
  unfolding record_failure_def Let_def by (intro watchdog_intros kept_rollback kept_count_failure) auto

lemma kept_keep_running: "P (dk_files s) \<Longrightarrow> kept P (keep_running r s)"
  by (simp add: keep_running_def kept_def)

lemma kept_accept_heartbeat: "P (dk_files s) \<Longrightarrow> kept P (accept_heartbeat q m now hb r s)"
  unfolding accept_heartbeat_def Let_def by (intro watchdog_intros kept_confirm_healthy kept_keep_running) auto

lemma kept_step_running: "P (dk_files s) \<Longrightarrow> kept P (step_running q r s)"
proof -
  have c: "kept P (case st of ChildRunning \<Rightarrow> a | ChildExited c \<Rightarrow> b c)" if "kept P a" "\<And>c. kept P (b c)"
    for st and a :: "(launcher_error + 'b) \<times> launcher" and b
    using that by (cases st) simp_all
  show "P (dk_files s) \<Longrightarrow> kept P (step_running q r s)"
    unfolding step_running_def Let_def
    by (intro watchdog_intros c kept_record_failure kept_accept_heartbeat kept_keep_running) auto
qed

lemma kept_spawn_child:
  assumes "P (dk_files s)" "validate_relative_path (sm_heartbeat m) = Inr (lit ''run'' # cs)"
  shows "kept P (spawn_child q active now m s)"
proof -
  have "kept P (remove_file q (sm_heartbeat m) s)" if "P (dk_files s)" for s :: launcher
    by (rule kept_remove_file[where P = P, OF that assms(2)]) (rule heartbeat)
  then show ?thesis
    unfolding spawn_child_def Let_def using assms(1) by (intro watchdog_intros) (auto simp: kept_def)
qed

lemma kept_step_start: "P (dk_files s) \<Longrightarrow> kept P (step_start q active s)"
proof -
  have v: "kept P (case validate_slot q active s of (Inr m, s) \<Rightarrow> spawn_child q active now m s
     | (Inl e, s) \<Rightarrow> sbind (read_pending q s) (\<lambda>pending s. case pending of None \<Rightarrow> (Inl e, s)
        | Some p \<Rightarrow> if ps_target p = active then rollback q p s else (Inl e, s)))" if s: "P (dk_files s)" for s now
  proof (cases "validate_slot q active s")
    case (Pair r s')
    have s': "P (dk_files s')" using kept_validate_slot[where P = P, OF s, of q active] Pair by (simp add: kept_def)
    show ?thesis
    proof (cases r)
      case (Inl e)
      then show ?thesis
        unfolding Pair using s' by (auto intro!: watchdog_intros kept_rollback)
    next
      case (Inr m)
      then obtain bs where "manifest_parse bs active = Inr m"
        using Pair by (auto simp: validate_slot_def manifest_load_def result_simps split: if_split_asm)
      then obtain cs where "validate_relative_path (sm_heartbeat m) = Inr (lit ''run'' # cs)"
        using manifest_heartbeat_path by blast
      then show ?thesis using Pair Inr kept_spawn_child[OF s'] by simp
    qed
  qed
  show "P (dk_files s) \<Longrightarrow> kept P (step_start q active s)"
    unfolding step_start_def by (intro watchdog_intros v) auto
qed

lemma kept_step: "P (dk_files s) \<Longrightarrow> kept P (step q s)"
  unfolding step_def by (intro watchdog_intros kept_step_running kept_step_start) auto

lemma kept_request_slot: "P (dk_files s) \<Longrightarrow> kept P (request_slot q target s)"
  unfolding request_slot_def Let_def by (intro watchdog_intros) auto

lemma kept_safe_root_open: "P (dk_files d) \<Longrightarrow> kept P (safe_root_open q d)"
  unfolding safe_root_open_def
  by (intro kept_intros kept_ensure_directory[OF _ launcher_paths(7)] kept_ensure_directory[OF _ launcher_paths(8)])
    (auto intro: directories)

lemma kept_recover: "P (dk_files d) \<Longrightarrow> kept P (recover_pending_pointer q d)"
  unfolding recover_pending_pointer_def by (intro watchdog_intros) auto

lemma kept_launcher_open: "P (dk_files d) \<Longrightarrow> kept P (launcher_open q d)"
  unfolding launcher_open_def by (intro watchdog_intros kept_safe_root_open kept_recover) auto

lemma kept_rollback_daemon: "P (dk_files d) \<Longrightarrow> kept P (rollback_daemon q d)"
  unfolding rollback_daemon_def by (intro watchdog_intros kept_safe_root_open) auto

lemma kept_select_staged: "P (dk_files d) \<Longrightarrow> kept P (select_staged q d)"
proof -
  have d: "kept P (drop_launcher r)" if "kept P r" for r :: "(launcher_error + unit) \<times> launcher"
    using that by (simp add: kept_def drop_launcher_def disk.defs)
  have r: "kept P (read_staged_slot q d)" if "P (dk_files d)" for d
    using that unfolding read_staged_slot_def
    by (intro kept_intros) (auto simp: kept_def split: node.splits option.splits)
  show "P (dk_files d) \<Longrightarrow> kept P (select_staged q d)"
    unfolding select_staged_def
    by (intro kept_intros r d kept_launcher_open kept_request_slot kept_commit)
      (auto simp: start_launcher_def NEXT_FILE_def intro: no_next)
qed

end

section \<open>Staging\<close>

lemma staging_paths:
  "validate_relative_path (lit ''slots'') = Inr [lit ''slots'']"
  "validate_relative_path (lit ''slots/'' @ slot_str s) = Inr [lit ''slots'', slot_str s]"
  "validate_relative_path ((lit ''slots/'' @ slot_str s) @ lit ''/bin'') = Inr [lit ''slots'', slot_str s, lit ''bin'']"
  "validate_relative_path ((lit ''slots/'' @ slot_str s) @ lit ''/bin/kindlebridged'') =
     Inr [lit ''slots'', slot_str s, lit ''bin'', lit ''kindlebridged'']"
  "validate_relative_path (manifest_path s) = Inr [lit ''slots'', slot_str s, lit ''slot.manifest'']"
  by (cases s; simp add: validate_relative_path_def path_components_def manifest_path_def slot_str_def lit_def starts_with_def)+

text \<open>The changes made when an update is staged.\<close>

locale staged_files = slot_files +
  assumes slots: "P fs \<Longrightarrow> P (fs(lit ''slots'' # cs \<mapsto> n))"
    and staged: "P fs \<Longrightarrow> P (fs([lit ''next''] \<mapsto> NFile (pointer_text s)))"
begin

lemma kept_stage_daemon: "P (dk_files d) \<Longrightarrow> kept P (stage_daemon q blake3_hex metadata content digest d)"
proof -
  have w: "kept P (ensure_directory q (lit ''slots'') d)" "kept P (ensure_directory q (lit ''slots/'' @ slot_str s) d)"
    "kept P (ensure_directory q ((lit ''slots/'' @ slot_str s) @ lit ''/bin'') d)"
    "kept P (atomic_write q ((lit ''slots/'' @ slot_str s) @ lit ''/bin/kindlebridged'') bs d)"
    "kept P (atomic_write q (manifest_path s) bs d)" "kept P (atomic_write q NEXT_FILE (pointer_text s) d)"
    if "P (dk_files d)" for d :: disk and s bs
    by (rule kept_ensure_directory kept_atomic_write, rule that, rule staging_paths launcher_paths, erule slots staged)+
  show "P (dk_files d) \<Longrightarrow> kept P (stage_daemon q blake3_hex metadata content digest d)"
    unfolding stage_daemon_def Let_def by (intro watchdog_intros kept_safe_root_open w) auto
qed

end

section \<open>The launcher always starts\<close>

text \<open>What \<open>Launcher::open\<close> needs of the files.\<close>

definition boot_ok :: "(path \<rightharpoonup> node) \<Rightarrow> bool" where
  "boot_ok fs =
     ((\<exists>s. fs [lit ''current''] = Some (NFile (pointer_text s))) \<and>
      fs [lit ''launcher''] \<in> {None, Some NDir} \<and> fs [lit ''run''] \<in> {None, Some NDir} \<and>
      (fs [lit ''launcher'', lit ''pending-slot''] = None \<or>
       (\<exists>p. ps_previous p \<noteq> ps_target p \<and> fs [lit ''launcher'', lit ''pending-slot''] = Some (NFile (encode_pending p)))) \<and>
      (fs [lit ''launcher'', lit ''watchdog-state''] = None \<or>
       (\<exists>st. fs [lit ''launcher'', lit ''watchdog-state''] = Some (NFile (state_text st)))) \<and>
      (fs [lit ''launcher'', lit ''previous-slot''] = None \<or>
       (\<exists>s. fs [lit ''launcher'', lit ''previous-slot''] = Some (NFile (pointer_text s)))))"

lemma names_distinct:
  "lit ''current'' \<noteq> lit ''launcher''" "lit ''current'' \<noteq> lit ''run''" "lit ''launcher'' \<noteq> lit ''run''"
  "lit ''next'' \<noteq> lit ''current''" "lit ''next'' \<noteq> lit ''launcher''" "lit ''next'' \<noteq> lit ''run''"
  "lit ''slots'' \<noteq> lit ''current''" "lit ''slots'' \<noteq> lit ''launcher''" "lit ''slots'' \<noteq> lit ''run''"
  "lit ''slots'' \<noteq> lit ''next''"
  "lit ''pending-slot'' \<noteq> lit ''watchdog-state''" "lit ''pending-slot'' \<noteq> lit ''previous-slot''"
  "lit ''previous-slot'' \<noteq> lit ''watchdog-state''"
  by (simp_all add: lit_def)

interpretation boot: staged_files boot_ok
  by unfold_locales (auto simp: boot_ok_def names_distinct names_distinct[symmetric])

text \<open>An environment in which no call fails.\<close>

definition quiet :: "environment \<Rightarrow> bool" where
  "quiet q = ((\<forall>n. q_fault q n = Fine) \<and> (\<forall>n. q_root q n = Inr ()))"

definition calls_only :: "'z disk_scheme \<Rightarrow> 'z disk_scheme \<Rightarrow> bool" where
  "calls_only d d' = (\<exists>n. d' = d\<lparr>dk_calls := n\<rparr>)"

lemma calls_only_files: "calls_only d d' \<Longrightarrow> dk_files d' = dk_files d"
  by (auto simp: calls_only_def)

lemma calls_only_trans: "calls_only d d' \<Longrightarrow> calls_only d' d'' \<Longrightarrow> calls_only d d''"
  by (auto simp: calls_only_def)

lemma calls_only_intro [simp]: "calls_only d d" "calls_only d (d\<lparr>dk_calls := n\<rparr>)"
proof -
  have "d = d\<lparr>dk_calls := dk_calls d\<rparr>" by simp
  then show "calls_only d d" unfolding calls_only_def by blast
  show "calls_only d (d\<lparr>dk_calls := n\<rparr>)" unfolding calls_only_def by blast
qed

lemma quiet_call: "quiet q \<Longrightarrow> fs_call q d = (Inr (), d\<lparr>dk_calls := Suc (dk_calls d)\<rparr>)"
  by (simp add: fs_call_def ask_result_def quiet_def)

lemma quiet_ask: "quiet q \<Longrightarrow> ask (q_fault q) d = (Inr Fine, d\<lparr>dk_calls := Suc (dk_calls d)\<rparr>)"
  by (simp add: ask_def quiet_def)

lemma quiet_commit: "quiet q \<Longrightarrow> commit q f d = (Inr (), d\<lparr>dk_calls := Suc (dk_calls d), dk_files := f (dk_files d)\<rparr>)"
  by (simp add: commit_def quiet_ask)

lemma quiet_resolve:
  assumes "quiet q" "validate_relative_path rel = Inr p" "check_components (dk_files d) [] p = Inr ()"
  shows "resolve q rel d = (Inr p, d\<lparr>dk_calls := Suc (dk_calls d)\<rparr>)"
  using assms by (simp add: resolve_def root_validate_components_def quiet_call)

text \<open>A path whose directories exist.\<close>

definition lookup_ok :: "(path \<rightharpoonup> node) \<Rightarrow> path \<Rightarrow> bool" where
  "lookup_ok fs p = (check_components fs [] p = Inr ())"

lemma quiet_read_file:
  assumes "quiet q" "validate_relative_path rel = Inr p" "lookup_ok (dk_files d) p"
    "dk_files d p = Some (NFile bs)" "length bs \<le> n"
  shows "\<exists>d'. read_file q rel n d = (Inr bs, d') \<and> calls_only d d'"
  using assms quiet_resolve[OF assms(1,2), of d] by (simp add: lookup_ok_def read_file_def read_regular_def quiet_call)

lemma quiet_optional_file:
  assumes "quiet q" "validate_relative_path rel = Inr p" "lookup_ok (dk_files d) p"
    "dk_files d p = map_option NFile v" "\<And>bs. v = Some bs \<Longrightarrow> length bs \<le> n"
  shows "\<exists>d'. optional_file q rel n d = (Inr v, d') \<and> calls_only d d'"
  using assms quiet_resolve[OF assms(1,2), of d]
  by (cases v) (simp_all add: lookup_ok_def optional_file_def entry_exists_def read_regular_def quiet_call quiet_ask)

lemma quiet_atomic_write:
  assumes "quiet q" "validate_relative_path rel = Inr p" "lookup_ok (dk_files d) p"
    "parent_ready (dk_files d) p = Inr ()" "dk_files d p \<noteq> Some NDir" "dk_files d p \<noteq> Some NLink"
  shows "\<exists>n. atomic_write q rel bs d = (Inr (), d\<lparr>dk_calls := n, dk_files := (dk_files d)(p \<mapsto> NFile bs)\<rparr>)"
  using assms(3-) quiet_resolve[OF assms(1,2), of d]
  by (cases "dk_files d p"; (cases "the (dk_files d p)")?)
    (auto simp: lookup_ok_def atomic_write_def entry_exists_def quiet_call[OF assms(1)] quiet_ask[OF assms(1)]
      quiet_commit[OF assms(1)])

lemma dec_str_length: "n < 10 ^ k \<Longrightarrow> 0 < k \<Longrightarrow> length (dec_str n) \<le> k"
proof (induction k arbitrary: n)
  case (Suc k)
  show ?case
  proof (cases "n < 10")
    case False
    then have "n div 10 < 10 ^ k" "0 < k" using Suc.prems by (cases k; simp add: div_less_iff_less_mult)+
    then have "length (dec_str (n div 10)) \<le> k" by (rule Suc.IH)
    then show ?thesis using False by (simp add: dec_str.simps[of n])
  qed (simp add: dec_str.simps[of n])
qed simp

lemma text_lengths: "length (pointer_text s) \<le> 3" "length (encode_pending p) \<le> 128" "length (state_text st) \<le> 256"
proof -
  have "length (dec_str (unat (ws_crashes st))) \<le> 20"
    using unsigned_less[of "ws_crashes st", where 'a = nat] by (intro dec_str_length) auto
  moreover have "length (dec_str (unat (ws_next_start_ms st))) \<le> 20"
    using unsigned_less[of "ws_next_start_ms st", where 'a = nat] by (intro dec_str_length) auto
  ultimately show "length (state_text st) \<le> 256"
    by (simp add: state_text_def unlines_def STATE_HEADER_def lit_def)
qed (simp_all add: pointer_text_def encode_pending_def unlines_def PENDING_HEADER_def lit_def)

lemma quiet_ensure_directory:
  assumes "quiet q" "validate_relative_path rel = Inr [c]" "dk_files d [c] \<in> {None, Some NDir}"
  shows "\<exists>n. ensure_directory q rel d = (Inr (), d\<lparr>dk_calls := n, dk_files := (dk_files d)([c] \<mapsto> NDir)\<rparr>)"
proof (cases "dk_files d [c]")
  case None
  then show ?thesis
    by (simp add: ensure_directory_def assms(2) root_validate_components_def quiet_call[OF assms(1)] entry_exists_def
        quiet_ask[OF assms(1)] parent_ready_def quiet_commit[OF assms(1)]) blast
next
  case (Some n)
  then have "dk_files d = (dk_files d)([c] \<mapsto> NDir)" using assms(3) by (auto simp: fun_upd_idem)
  then have "d\<lparr>dk_calls := k\<rparr> = d\<lparr>dk_calls := k, dk_files := (dk_files d)([c] \<mapsto> NDir)\<rparr>" for k
    by (metis disk.surjective disk.update_convs(1) disk.update_convs(2))
  moreover have "ensure_directory q rel d = (Inr (), d\<lparr>dk_calls := Suc (Suc (dk_calls d))\<rparr>)"
    using Some assms(3)
    by (auto simp add: ensure_directory_def assms(2) root_validate_components_def quiet_call[OF assms(1)] entry_exists_def
        quiet_ask[OF assms(1)])
  ultimately show ?thesis by metis
qed

lemma quiet_safe_root_open:
  assumes "quiet q" "boot_ok (dk_files d)"
  shows "\<exists>d'. safe_root_open q d = (Inr (), d') \<and> boot_ok (dk_files d') \<and> dk_files d' [lit ''launcher''] = Some NDir \<and>
    (\<forall>p. length p \<noteq> 1 \<or> p = [lit ''current''] \<longrightarrow> dk_files d' p = dk_files d p)"
proof -
  let ?d1 = "d\<lparr>dk_calls := Suc (dk_calls d)\<rparr>"
  obtain n where n: "ensure_directory q (lit ''launcher'') ?d1 =
      (Inr (), ?d1\<lparr>dk_calls := n, dk_files := (dk_files ?d1)([lit ''launcher''] \<mapsto> NDir)\<rparr>)"
    using quiet_ensure_directory[OF assms(1) launcher_paths(7), of ?d1] assms(2) by (auto simp: boot_ok_def)
  let ?d2 = "?d1\<lparr>dk_calls := n, dk_files := (dk_files ?d1)([lit ''launcher''] \<mapsto> NDir)\<rparr>"
  have "dk_files ?d2 [lit ''run''] \<in> {None, Some NDir}" using assms(2) by (auto simp: boot_ok_def names_distinct)
  then obtain m where m: "ensure_directory q (lit ''run'') ?d2 =
      (Inr (), ?d2\<lparr>dk_calls := m, dk_files := (dk_files ?d2)([lit ''run''] \<mapsto> NDir)\<rparr>)"
    using quiet_ensure_directory[OF assms(1) launcher_paths(8), of ?d2] by blast
  have "safe_root_open q d = (Inr (), ?d2\<lparr>dk_calls := m, dk_files := (dk_files ?d2)([lit ''run''] \<mapsto> NDir)\<rparr>)"
    using assms(1) n m by (simp add: safe_root_open_def ask_result_def quiet_def)
  then show ?thesis using assms(2) by (auto simp: boot_ok_def names_distinct names_distinct[symmetric])
qed

lemma boot_lookups:
  assumes "boot_ok fs" "fs [lit ''launcher''] = Some NDir"
  shows "lookup_ok fs [lit ''current'']" "lookup_ok fs [lit ''launcher'', lit ''pending-slot'']"
    "lookup_ok fs [lit ''launcher'', lit ''watchdog-state'']"
  using assms by (auto simp: lookup_ok_def boot_ok_def)

lemma quiet_read_pending:
  assumes "quiet q" "boot_ok (dk_files d)" "dk_files d [lit ''launcher''] = Some NDir"
  shows "\<exists>v d'. read_pending q d = (Inr v, d') \<and> calls_only d d' \<and> (\<forall>p. v = Some p \<longrightarrow> ps_previous p \<noteq> ps_target p) \<and>
    dk_files d [lit ''launcher'', lit ''pending-slot''] = map_option (\<lambda>p. NFile (encode_pending p)) v"
proof -
  obtain v where v: "dk_files d [lit ''launcher'', lit ''pending-slot''] = map_option (\<lambda>p. NFile (encode_pending p)) v"
      "\<forall>p. v = Some p \<longrightarrow> ps_previous p \<noteq> ps_target p"
    using assms(2) unfolding boot_ok_def by (metis option.map(1,2) option.inject option.distinct(1))
  then have "\<exists>d'. optional_file q PENDING_FILE 128 d = (Inr (map_option encode_pending v), d') \<and> calls_only d d'"
    by (intro quiet_optional_file[OF assms(1) launcher_paths(2) boot_lookups(2)[OF assms(2,3)]])
      (auto simp: option.map_comp comp_def text_lengths)
  then show ?thesis
    using v by (cases v) (auto simp: read_pending_def pending_roundtrip)
qed

lemma quiet_read_pointer:
  assumes "quiet q" "boot_ok (dk_files d)"
  shows "\<exists>s d'. read_slot_pointer q POINTER_FILE d = (Inr s, d') \<and> calls_only d d' \<and>
    dk_files d [lit ''current''] = Some (NFile (pointer_text s))"
proof -
  obtain s where s: "dk_files d [lit ''current''] = Some (NFile (pointer_text s))" using assms(2) by (auto simp: boot_ok_def)
  then have "\<exists>d'. read_file q POINTER_FILE 3 d = (Inr (pointer_text s), d') \<and> calls_only d d'"
    by (intro quiet_read_file[OF assms(1) launcher_paths(1)]) (auto simp: lookup_ok_def text_lengths)
  then show ?thesis using s by (auto simp: read_slot_pointer_def)
qed

lemma quiet_read_state:
  assumes "quiet q" "boot_ok (dk_files d)" "dk_files d [lit ''launcher''] = Some NDir"
  shows "\<exists>v d'. read_state q d = (Inr v, d') \<and> calls_only d d'"
proof -
  obtain v where v: "dk_files d [lit ''launcher'', lit ''watchdog-state''] = map_option (\<lambda>p. NFile (state_text p)) v"
    using assms(2) unfolding boot_ok_def by (metis option.map(1,2))
  then have "\<exists>d'. optional_file q STATE_FILE 256 d = (Inr (map_option state_text v), d') \<and> calls_only d d'"
    by (intro quiet_optional_file[OF assms(1) launcher_paths(4) boot_lookups(3)[OF assms(2,3)]])
      (auto simp: option.map_comp comp_def text_lengths)
  then show ?thesis by (cases v) (auto simp: read_state_def state_roundtrip)
qed

text \<open>The slot that a launcher runs after it was opened: a recorded switch is carried out.\<close>

definition slot_after_open :: "(path \<rightharpoonup> node) \<Rightarrow> slot \<Rightarrow> bool" where
  "slot_after_open fs s = (case fs [lit ''launcher'', lit ''pending-slot''] of
     None \<Rightarrow> fs [lit ''current''] = Some (NFile (pointer_text s))
   | Some n \<Rightarrow> \<exists>p. n = NFile (encode_pending p) \<and> ps_target p = s)"

lemma slot_cases2: "a \<noteq> b \<Longrightarrow> c = a \<or> c = (b :: slot)"
  by (cases a; cases b; cases c) auto

lemma quiet_recover:
  assumes "quiet q" "boot_ok (dk_files d)" "dk_files d [lit ''launcher''] = Some NDir"
  shows "\<exists>s d'. recover_pending_pointer q d = (Inr (), d') \<and> boot_ok (dk_files d') \<and>
    dk_files d' [lit ''launcher''] = Some NDir \<and> slot_after_open (dk_files d) s \<and>
    dk_files d' [lit ''current''] = Some (NFile (pointer_text s)) \<and>
    dk_files d' [lit ''launcher'', lit ''pending-slot''] = dk_files d [lit ''launcher'', lit ''pending-slot'']"
proof -
  obtain v d1 where v: "read_pending q d = (Inr v, d1)" "calls_only d d1" "\<forall>p. v = Some p \<longrightarrow> ps_previous p \<noteq> ps_target p"
      "dk_files d [lit ''launcher'', lit ''pending-slot''] = map_option (\<lambda>p. NFile (encode_pending p)) v"
    using quiet_read_pending[OF assms] by blast
  have f1: "dk_files d1 = dk_files d" by (rule calls_only_files[OF v(2)])
  obtain s d2 where s: "read_slot_pointer q POINTER_FILE d1 = (Inr s, d2)" "calls_only d1 d2"
      "dk_files d [lit ''current''] = Some (NFile (pointer_text s))"
    using quiet_read_pointer[OF assms(1), of d1] assms(2) f1 by auto
  have f2: "dk_files d2 = dk_files d" using calls_only_files[OF s(2)] f1 by simp
  show ?thesis
  proof (cases v)
    case None
    then show ?thesis
      using v s(3) assms(2,3) f1 by (intro exI[of _ s] exI[of _ d1]) (auto simp: recover_pending_pointer_def slot_after_open_def)
  next
    case (Some p)
    have "\<exists>n. write_slot_pointer q POINTER_FILE (ps_target p) d2 =
        (Inr (), d2\<lparr>dk_calls := n, dk_files := (dk_files d2)([lit ''current''] \<mapsto> NFile (pointer_text (ps_target p)))\<rparr>)"
      unfolding write_slot_pointer_def
      by (rule quiet_atomic_write[OF assms(1) launcher_paths(1)])
        (use s(3) f2 assms(2) in \<open>auto simp: lookup_ok_def parent_ready_def\<close>)
    then obtain n where n: "write_slot_pointer q POINTER_FILE (ps_target p) d2 =
        (Inr (), d2\<lparr>dk_calls := n, dk_files := (dk_files d2)([lit ''current''] \<mapsto> NFile (pointer_text (ps_target p)))\<rparr>)"
      by blast
    have ne: "ps_previous p \<noteq> ps_target p" using v(3) Some by simp
    have so: "slot_after_open (dk_files d) (ps_target p)" using v(4) Some by (auto simp: slot_after_open_def)
    show ?thesis
    proof (cases "s = ps_previous p")
      case True
      have "recover_pending_pointer q d =
          (Inr (), d2\<lparr>dk_calls := n, dk_files := (dk_files d2)([lit ''current''] \<mapsto> NFile (pointer_text (ps_target p)))\<rparr>)"
        using v(1) Some s(1) True n by (simp add: recover_pending_pointer_def)
      moreover have "boot_ok ((dk_files d2)([lit ''current''] \<mapsto> NFile (pointer_text (ps_target p))))"
        using boot.pointer[of "dk_files d2" "ps_target p"] assms(2) f2 by simp
      ultimately show ?thesis
        using so assms(3) f2 by (intro exI[of _ "ps_target p"]) (auto simp: names_distinct[symmetric])
    next
      case False
      then have "s = ps_target p" using slot_cases2[OF ne, of s] by simp
      then show ?thesis
        using v(1) Some s False so assms(2,3) f2
        by (intro exI[of _ s] exI[of _ d2]) (simp add: recover_pending_pointer_def)
    qed
  qed
qed

lemma quiet_open:
  assumes "quiet q" "boot_ok (dk_files d)"
  shows "\<exists>st s d'. launcher_open q d = (Inr st, d') \<and> slot_after_open (dk_files d) s \<and>
    dk_files d' [lit ''current''] = Some (NFile (pointer_text s)) \<and>
    dk_files d' [lit ''launcher'', lit ''pending-slot''] = dk_files d [lit ''launcher'', lit ''pending-slot'']"
proof -
  obtain d1 where d1: "safe_root_open q d = (Inr (), d1)" "boot_ok (dk_files d1)" "dk_files d1 [lit ''launcher''] = Some NDir"
      "\<And>p. length p \<noteq> 1 \<or> p = [lit ''current''] \<Longrightarrow> dk_files d1 p = dk_files d p"
    using quiet_safe_root_open[OF assms] by blast
  obtain s d2 where d2: "recover_pending_pointer q d1 = (Inr (), d2)" "boot_ok (dk_files d2)"
      "dk_files d2 [lit ''launcher''] = Some NDir" "slot_after_open (dk_files d1) s"
      "dk_files d2 [lit ''current''] = Some (NFile (pointer_text s))"
      "dk_files d2 [lit ''launcher'', lit ''pending-slot''] = dk_files d1 [lit ''launcher'', lit ''pending-slot'']"
    using quiet_recover[OF assms(1) d1(2,3)] by blast
  obtain s' d3 where d3: "read_slot_pointer q POINTER_FILE d2 = (Inr s', d3)" "calls_only d2 d3"
    using quiet_read_pointer[OF assms(1) d2(2)] by blast
  have f3: "dk_files d3 = dk_files d2" by (rule calls_only_files[OF d3(2)])
  obtain v d4 where d4: "read_state q d3 = (Inr v, d4)" "calls_only d3 d4"
    using quiet_read_state[OF assms(1), of d3] d2(2,3) f3 by auto
  have f4: "dk_files d4 = dk_files d2" using calls_only_files[OF d4(2)] f3 by simp
  have "launcher_open q d = (Inr (case v of None \<Rightarrow> fresh_state s' | Some s \<Rightarrow> s), d4)"
    using d1(1) d2(1) d3(1) d4(1) by (simp add: launcher_open_def)
  moreover have "slot_after_open (dk_files d) s" using d2(4) d1(4)[of "[lit ''current'']"] d1(4)[of "[lit ''launcher'', lit ''pending-slot'']"]
    by (simp add: slot_after_open_def split: option.splits)
  ultimately show ?thesis using d2(5,6) d1(4) f4 by auto
qed

section \<open>Histories\<close>

text \<open>
  The files after any sequence of launcher operations, each in an environment of its own and ended at
  any point, and of changes that the supervised daemon makes to the files below \<open>run\<close>. The state a
  launcher keeps in memory is arbitrary in every call, so the restarts of the process are covered.
\<close>

inductive evolves :: "(path \<rightharpoonup> node) \<Rightarrow> (path \<rightharpoonup> node) \<Rightarrow> bool" for f where
  initial: "evolves f f"
| opened: "evolves f (dk_files d) \<Longrightarrow> launcher_open q d = (r, d') \<Longrightarrow> evolves f (dk_files d')"
| stepped: "evolves f (dk_files s) \<Longrightarrow> step q s = (r', s') \<Longrightarrow> evolves f (dk_files s')"
| requested: "evolves f (dk_files s) \<Longrightarrow> request_slot q target s = (r'', s') \<Longrightarrow> evolves f (dk_files s')"
| rolled_back: "evolves f (dk_files d) \<Longrightarrow> rollback_daemon q d = (r''', d') \<Longrightarrow> evolves f (dk_files d')"
| staged: "evolves f (dk_files d) \<Longrightarrow> stage_daemon q blake3_hex metadata content digest d = (r4, d') \<Longrightarrow> evolves f (dk_files d')"
| selected: "evolves f (dk_files d) \<Longrightarrow> select_staged q d = (r5, d') \<Longrightarrow> evolves f (dk_files d')"
| daemon: "evolves f fs \<Longrightarrow> evolves f (fs(lit ''run'' # c # cs := n))"

lemma evolves_boot_ok: "evolves f fs \<Longrightarrow> boot_ok f \<Longrightarrow> boot_ok fs"
proof (induction rule: evolves.induct)
  case (opened d q r d')
  then show ?case using boot.kept_launcher_open[of d q] by (simp add: kept_def)
next
  case (stepped s q r s')
  then show ?case using boot.kept_step[of s q] by (simp add: kept_def)
next
  case (requested s q t r s')
  then show ?case using boot.kept_request_slot[of s q t] by (simp add: kept_def)
next
  case (rolled_back d q r d')
  then show ?case using boot.kept_rollback_daemon[of d q] by (simp add: kept_def)
next
  case (staged d q b m c g r d')
  then show ?case using boot.kept_stage_daemon[of d q b m c g] by (simp add: kept_def)
next
  case (selected d q r d')
  then show ?case using boot.kept_select_staged[of d q] by (simp add: kept_def)
next
  case (daemon fs c cs n)
  then show ?case by (simp add: boot_ok_def names_distinct)
qed simp

text \<open>
  C38: Nothing that the launcher's operations do request_leaves a device that does not start. After any history of
  operations, each of which may fail or stop between any two changes of a file, opening the launcher
  succeeds as soon as the file system works.
\<close>

theorem launcher_always_opens:
  assumes "boot_ok f" "evolves f (dk_files d)" "quiet q"
  shows "\<exists>state d'. launcher_open q d = (Inr state, d')"
  using quiet_open[OF assms(3) evolves_boot_ok[OF assms(2,1)]] by blast

text \<open>A device with a daemon in slot A.\<close>

definition sample_files :: "path \<rightharpoonup> node" where
  "sample_files = [[lit ''current''] \<mapsto> NFile (pointer_text SlotA), [lit ''slots''] \<mapsto> NDir,
     [lit ''slots'', lit ''A''] \<mapsto> NDir, [lit ''slots'', lit ''A'', lit ''bin''] \<mapsto> NDir,
     [lit ''slots'', lit ''A'', lit ''bin'', lit ''kindlebridged''] \<mapsto> NFile [1],
     [lit ''slots'', lit ''A'', lit ''slot.manifest''] \<mapsto> NFile (slot_manifest_text SlotA)]"

definition sample_environment :: environment where
  "sample_environment = \<lparr>q_root = (\<lambda>_. Inr ()), q_fault = (\<lambda>_. Fine), q_now = (\<lambda>n. of_nat n * 1000),
     q_disabled = (\<lambda>_. Inr False), q_spawn = (\<lambda>n _. Inr (of_nat n)), q_poll = (\<lambda>_ _. Inr (ChildExited (Some 1))),
     q_terminate = (\<lambda>_ _. Inr ()), q_pid = 1\<rparr>"

lemma sample_quiet: "quiet sample_environment"
  by (simp add: quiet_def sample_environment_def)

lemma sample_boot_ok: "boot_ok sample_files"
  by (simp add: boot_ok_def sample_files_def lit_def) blast

theorem launcher_always_opens_witness:
  "\<exists>state d'. launcher_open sample_environment \<lparr>dk_files = sample_files, dk_calls = 0\<rparr> = (Inr state, d')"
  by (rule launcher_always_opens[OF sample_boot_ok _ sample_quiet]) (simp add: evolves.initial)

section \<open>Switching slots\<close>

lemma same_files:
  "resolve q rel d = (r1, d') \<Longrightarrow> dk_files d' = dk_files d" "fs_call q d = (r2, d') \<Longrightarrow> dk_files d' = dk_files d"
  "entry_exists q p d = (r3, d') \<Longrightarrow> dk_files d' = dk_files d" "read_slot_pointer q rel d = (r4, d') \<Longrightarrow> dk_files d' = dk_files d"
  "read_pending q d = (r5, d') \<Longrightarrow> dk_files d' = dk_files d" "validate_slot q sl d = (r6, d') \<Longrightarrow> dk_files d' = dk_files d"
proof -
  note k = kept_reads[of "\<lambda>fs. fs = dk_files d", OF refl] kept_parsers[of "\<lambda>fs. fs = dk_files d", OF refl]
    kept_validate_slot[of "\<lambda>fs. fs = dk_files d", OF refl]
  show "resolve q rel d = (r1, d') \<Longrightarrow> dk_files d' = dk_files d" using k(3)[of q rel] by (simp add: kept_def)
  show "fs_call q d = (r2, d') \<Longrightarrow> dk_files d' = dk_files d" using k(1)[of q] by (simp add: kept_def)
  show "entry_exists q p d = (r3, d') \<Longrightarrow> dk_files d' = dk_files d" using k(4)[of q p] by (simp add: kept_def)
  show "read_slot_pointer q rel d = (r4, d') \<Longrightarrow> dk_files d' = dk_files d" using k(8)[of q rel] by (simp add: kept_def)
  show "read_pending q d = (r5, d') \<Longrightarrow> dk_files d' = dk_files d" using k(9)[of q] by (simp add: kept_def)
  show "validate_slot q sl d = (r6, d') \<Longrightarrow> dk_files d' = dk_files d" using k(14)[of q sl] by (simp add: kept_def)
qed

lemma commit_Inr: "commit q f d = (Inr u, d') \<Longrightarrow> dk_files d' = f (dk_files d)"
  by (auto simp: commit_def ask_def split: fault.splits)

lemma resolve_Inr: "resolve q rel d = (Inr p, d') \<Longrightarrow> validate_relative_path rel = Inr p"
  by (auto simp: resolve_def result_simps)

lemma atomic_write_Inr:
  assumes "atomic_write q rel bs d = (Inr u, d')" "validate_relative_path rel = Inr p"
  shows "dk_files d' = (dk_files d)(p \<mapsto> NFile bs)"
proof -
  obtain d1 d2 b d3 where "resolve q rel d = (Inr p, d1)" "fs_call q d1 = (Inr (), d2)" "entry_exists q p d2 = (Inr b, d3)"
      "commit q (\<lambda>fs. fs(p \<mapsto> NFile bs)) d3 = (Inr u, d')"
    using assms unfolding atomic_write_def
    by (auto simp: result_simps dest: resolve_Inr split: if_split_asm)
  then show ?thesis
    using commit_Inr[of q "\<lambda>fs. fs(p \<mapsto> NFile bs)" d3 u d'] same_files by metis
qed

lemma read_regular_Inr:
  assumes "read_regular q p m d = (Inr bs', d')" "dk_files d p = Some (NFile bs)"
  shows "bs' = bs"
proof (cases "fs_call q d")
  case (Pair r d1)
  have "dk_files d1 p = Some (NFile bs)" using same_files(2)[OF Pair] assms(2) by simp
  then show ?thesis using assms(1) Pair by (cases r) (auto simp: read_regular_def split: if_split_asm)
qed

lemma read_pointer_value:
  assumes "read_slot_pointer q rel d = (Inr x, d')" "validate_relative_path rel = Inr p" "dk_files d p = Some (NFile bs)"
  shows "pointer_parse bs = Inr x"
proof -
  obtain bs' d1 where r: "read_file q rel 3 d = (Inr bs', d1)" "pointer_parse bs' = Inr x"
    using assms(1) unfolding read_slot_pointer_def by (auto simp: result_simps)
  obtain p' d2 where p': "resolve q rel d = (Inr p', d2)" "read_regular q p' 3 d2 = (Inr bs', d1)"
    using r(1) unfolding read_file_def by (auto simp: result_simps)
  have "p' = p" using resolve_Inr[OF p'(1)] assms(2) by simp
  note d2 = p'[unfolded this]
  have "dk_files d2 p = Some (NFile bs)" using same_files(1)[OF d2(1)] assms(3) by simp
  from read_regular_Inr[OF d2(2) this] show ?thesis using r(2) by simp
qed

lemma read_pending_absent:
  assumes "read_pending q d = (Inr v, d')" "dk_files d [lit ''launcher'', lit ''pending-slot''] = None"
  shows "v = None"
proof -
  obtain x d1 where x: "optional_file q PENDING_FILE 128 d = (Inr x, d1)" "x = None \<longrightarrow> v = None"
    using assms(1) by (auto simp: read_pending_def result_simps split: option.splits)
  obtain p d2 b d3 where r: "resolve q PENDING_FILE d = (Inr p, d2)" "entry_exists q p d2 = (Inr b, d3)" "\<not> b \<longrightarrow> x = None"
    using x(1) unfolding optional_file_def by (auto simp: result_simps split: if_split_asm)
  have "p = [lit ''launcher'', lit ''pending-slot'']" using resolve_Inr[OF r(1)] by (simp add: launcher_paths)
  then have "dk_files d2 p = None" using assms(2) same_files(1)[OF r(1)] by simp
  then have "\<not> b" using r(2) by (auto simp: entry_exists_def ask_def split: fault.splits)
  then show ?thesis using x(2) r(3) by simp
qed

text \<open>What a request leaves behind: nothing, or a recorded switch.\<close>

definition request_leaves :: "(path \<rightharpoonup> node) \<Rightarrow> pending_switch \<Rightarrow> (launcher_error + unit) \<times> launcher \<Rightarrow> bool" where
  "request_leaves fs p r = (dk_files (snd r) = fs \<and> fst r \<noteq> Inr () \<or>
     boot_ok (dk_files (snd r)) \<and> dk_files (snd r) [lit ''launcher'', lit ''pending-slot''] = Some (NFile (encode_pending p)))"

lemma request_leaves_sbind:
  "dk_files (snd m) = fs \<Longrightarrow> (\<And>x s. m = (Inr x, s) \<Longrightarrow> dk_files s = fs \<Longrightarrow> request_leaves fs p (f x s)) \<Longrightarrow> request_leaves fs p (sbind m f)"
  by (cases m; cases "fst m") (auto simp: request_leaves_def)

lemma request_slot_files:
  assumes "boot_ok (dk_files s)" "dk_files s [lit ''launcher'', lit ''pending-slot''] = None"
    and c: "dk_files s [lit ''current''] = Some (NFile (pointer_text c))" "c \<noteq> t"
    and r: "request_slot q t s = (r, s')"
  shows "dk_files s' = dk_files s \<and> r \<noteq> Inr () \<or> boot_ok (dk_files s') \<and> dk_files s' [lit ''launcher'', lit ''pending-slot''] =
    Some (NFile (encode_pending \<lparr>ps_previous = c, ps_target = t\<rparr>))"
proof -
  let ?pend = "[lit ''launcher'', lit ''pending-slot'']" and ?p = "\<lparr>ps_previous = c, ps_target = t\<rparr>"
  let ?Q = "\<lambda>fs. boot_ok fs \<and> fs ?pend = Some (NFile (encode_pending ?p))"
  let ?R = "request_leaves (dk_files s) ?p"
  have Q: "?Q (fs(?pend \<mapsto> NFile (encode_pending ?p)))" if "boot_ok fs" for fs
    using boot.pending[OF that, of ?p] c(2) by simp
  have commits: "?R (sbind (atomic_write q PENDING_FILE (encode_pending ?p) s1) (\<lambda>_ s. sbind (write_slot_pointer q POINTER_FILE t s)
      (\<lambda>_ s. write_state q (fresh_state t) (s\<lparr>la_state := fresh_state t\<rparr>))))" if s1: "dk_files s1 = dk_files s" for s1
  proof (cases "atomic_write q PENDING_FILE (encode_pending ?p) s1")
    case (Pair w s2)
    show ?thesis
    proof (cases w)
      case (Inl e)
      have "kept (\<lambda>fs. fs = dk_files s \<or> ?Q fs) (atomic_write q PENDING_FILE (encode_pending ?p) s1)"
        by (rule kept_atomic_write[OF _ launcher_paths(2)]) (use s1 assms(1) Q in auto)
      then show ?thesis using Pair Inl by (simp add: kept_def request_leaves_def)
    next
      case (Inr u)
      have "?Q (dk_files s2)" using atomic_write_Inr[OF Pair[unfolded Inr] launcher_paths(2)] Q assms(1) s1 by simp
      then have "kept ?Q (sbind (write_slot_pointer q POINTER_FILE t s2)
          (\<lambda>_ s. write_state q (fresh_state t) (s\<lparr>la_state := fresh_state t\<rparr>)))"
        unfolding write_slot_pointer_def write_state_def
        by (intro kept_sbind kept_atomic_write[OF _ launcher_paths(1)] kept_atomic_write[OF _ launcher_paths(4)])
          (auto intro: boot.pointer boot.state simp: names_distinct names_distinct[symmetric])
      then show ?thesis using Pair Inr by (simp add: kept_def request_leaves_def)
    qed
  qed
  have "?R (request_slot q t s)"
    unfolding request_slot_def Let_def
  proof (rule request_leaves_sbind, goal_cases)
    case 1
    show ?case using same_files(4)[of q POINTER_FILE s] by (metis prod.collapse)
  next
    case (2 cur s1)
    note s1 = 2(2)
    have cur: "cur = c" using read_pointer_value[OF 2(1) launcher_paths(1) c(1)] by simp
    show ?case
      unfolding cur if_not_P[OF c(2)]
    proof (rule request_leaves_sbind, goal_cases)
      case 1
      show ?case using same_files(5)[of q s1] s1 by (metis prod.collapse)
    next
      case (2 v s2)
      have "v = None" by (rule read_pending_absent[OF 2(1)]) (simp add: s1 assms(2))
      moreover have "?R (sbind (validate_slot q t s2) (\<lambda>_ s1. sbind (atomic_write q PENDING_FILE (encode_pending ?p) s1)
        (\<lambda>_ s. sbind (write_slot_pointer q POINTER_FILE t s) (\<lambda>_ s. write_state q (fresh_state t) (s\<lparr>la_state := fresh_state t\<rparr>)))))"
      proof (rule request_leaves_sbind, goal_cases)
        case 1
        show ?case using same_files(6)[of q t s2] 2(2) by (metis prod.collapse)
      qed (rule commits)
      ultimately show ?case by simp
    qed
  qed
  then show ?thesis using r by (simp add: request_leaves_def)
qed

lemma encode_pending_target: "encode_pending p = encode_pending p' \<Longrightarrow> ps_target p = ps_target p'"
  by (cases "ps_target p"; cases "ps_target p'"; cases "ps_previous p"; cases "ps_previous p'")
    (simp_all add: encode_pending_def unlines_def PENDING_HEADER_def slot_str_def lit_def)

definition sample_launcher :: launcher where
  "sample_launcher = \<lparr>dk_files = sample_files, dk_calls = 0, la_state = fresh_state SlotA, la_running = None, la_instances = 0\<rparr>"

text \<open>
  C39: A switch to the other slot takes effect as a whole. Wherever \<open>request_slot\<close> stops, opening the
  launcher afterwards finds either the old slot and no recorded switch, or the new slot together with
  the record that leads back to the old one; and the latter if the request succeeded.
\<close>

theorem switch_is_atomic:
  assumes "boot_ok (dk_files s)" "dk_files s [lit ''launcher'', lit ''pending-slot''] = None"
    and c: "dk_files s [lit ''current''] = Some (NFile (pointer_text c))" "c \<noteq> t"
    and r: "request_slot q t s = (r, s')" and q': "quiet q'"
  shows "\<exists>st d'. launcher_open q' \<lparr>dk_files = dk_files s', dk_calls = n\<rparr> = (Inr st, d') \<and>
    (r \<noteq> Inr () \<and> dk_files d' [lit ''current''] = Some (NFile (pointer_text c)) \<and>
       dk_files d' [lit ''launcher'', lit ''pending-slot''] = None \<or>
     dk_files d' [lit ''current''] = Some (NFile (pointer_text t)) \<and>
       dk_files d' [lit ''launcher'', lit ''pending-slot''] = Some (NFile (encode_pending \<lparr>ps_previous = c, ps_target = t\<rparr>)))"
proof -
  let ?d = "\<lparr>dk_files = dk_files s', dk_calls = n\<rparr>"
  note f = request_slot_files[OF assms(1,2) c r]
  then have "boot_ok (dk_files ?d)" using assms(1) by auto
  from quiet_open[OF q' this] obtain st x d' where o: "launcher_open q' ?d = (Inr st, d')" "slot_after_open (dk_files s') x"
      "dk_files d' [lit ''current''] = Some (NFile (pointer_text x))"
      "dk_files d' [lit ''launcher'', lit ''pending-slot''] = dk_files s' [lit ''launcher'', lit ''pending-slot'']"
    by auto
  from f show ?thesis
  proof (elim disjE conjE)
    assume "dk_files s' = dk_files s" "r \<noteq> Inr ()"
    then show ?thesis using o assms(2) c(1) by (intro exI[of _ st] exI[of _ d']) (simp add: slot_after_open_def)
  next
    assume p: "dk_files s' [lit ''launcher'', lit ''pending-slot''] = Some (NFile (encode_pending \<lparr>ps_previous = c, ps_target = t\<rparr>))"
      and "boot_ok (dk_files s')"
    obtain p' where p': "ps_target p' = x" "encode_pending \<lparr>ps_previous = c, ps_target = t\<rparr> = encode_pending p'"
      using o(2) p by (auto simp: slot_after_open_def)
    have "x = t" using encode_pending_target[OF p'(2)] p'(1) by simp
    then show ?thesis using o p by (intro exI[of _ st] exI[of _ d']) simp
  qed
qed

theorem switch_is_atomic_witness:
  "\<exists>st d'. launcher_open sample_environment \<lparr>dk_files = dk_files (snd (request_slot sample_environment SlotB sample_launcher)), dk_calls = 0\<rparr> = (Inr st, d') \<and>
    (fst (request_slot sample_environment SlotB sample_launcher) \<noteq> Inr () \<and> dk_files d' [lit ''current''] = Some (NFile (pointer_text SlotA)) \<and>
       dk_files d' [lit ''launcher'', lit ''pending-slot''] = None \<or>
     dk_files d' [lit ''current''] = Some (NFile (pointer_text SlotB)) \<and>
       dk_files d' [lit ''launcher'', lit ''pending-slot''] = Some (NFile (encode_pending \<lparr>ps_previous = SlotA, ps_target = SlotB\<rparr>)))"
  by (rule switch_is_atomic[of sample_launcher SlotA SlotB, OF _ _ _ _ _ sample_quiet])
    (simp_all add: sample_launcher_def sample_boot_ok, simp_all add: sample_files_def lit_def)

end
