(* ===== verification/Launcher_Live.thy ===== *)
theory Launcher_Live
  imports Launcher_Safe
begin

text \<open>
  Termination of the loop of the launcher, \<open>Launcher::run\<close> of
  \<open>device/kindlebridge-launcher/src/watchdog.rs\<close>: what each operation changes when it succeeds, the
  order in which the steps of a failing daemon are used up, and that the loop returns.
\<close>

section \<open>Giving up\<close>

text \<open>\<open>reading d r\<close>: a call on \<open>d\<close> that only asked the environment, whatever it returned.\<close>

definition reading :: "'z disk_scheme \<Rightarrow> ('e + 'a) \<times> 'z disk_scheme \<Rightarrow> bool" where
  "reading d r = (\<exists>n \<ge> dk_calls d. snd r = d\<lparr>dk_calls := n\<rparr>)"

named_theorems reading_intros \<open>rules for calls that only read\<close>

lemma reading_pair [reading_intros]: "reading d (r, d)" "dk_calls d \<le> n \<Longrightarrow> reading d (r, d\<lparr>dk_calls := n\<rparr>)"
  by (auto simp: reading_def intro: exI[of _ "dk_calls d"])

lemma reading_sbind [reading_intros]:
  assumes "reading d m" "\<And>x n. dk_calls d \<le> n \<Longrightarrow> reading (d\<lparr>dk_calls := n\<rparr>) (f x (d\<lparr>dk_calls := n\<rparr>))"
  shows "reading d (sbind m f)"
proof (cases m)
  case (Pair r d')
  then obtain n where n: "dk_calls d \<le> n" "d' = d\<lparr>dk_calls := n\<rparr>" using assms(1) by (auto simp: reading_def)
  show ?thesis
  proof (cases r)
    case (Inr x)
    obtain k where "n \<le> k" "snd (f x d') = d\<lparr>dk_calls := k\<rparr>"
      using assms(2)[OF n(1), of x] n(2) by (auto simp: reading_def)
    then show ?thesis using Pair Inr n(1) by (auto simp: reading_def intro!: exI[of _ k])
  qed (use Pair n in \<open>auto simp: reading_def\<close>)
qed

lemma reading_option [reading_intros]:
  "(v = None \<Longrightarrow> reading d r) \<Longrightarrow> (\<And>x. v = Some x \<Longrightarrow> reading d (f x)) \<Longrightarrow>
   reading d (case v of None \<Rightarrow> r | Some x \<Rightarrow> f x)"
  by (cases v) simp_all

lemma reading_if [reading_intros]: "reading d r \<Longrightarrow> reading d r' \<Longrightarrow> reading d (if c then r else r')"
  by simp

lemma reading_ask [reading_intros]: "reading d (ask f d)" "reading d (ask_result g d)"
  by (auto simp: reading_def ask_def ask_result_def intro: exI[of _ "Suc (dk_calls d)"])

lemma reading_files [reading_intros]:
  "reading d (fs_call q d)" "reading d (resolve q rel d)" "reading d (entry_exists q p d)"
  "reading d (read_regular q p n d)" "reading d (read_file q rel n d)" "reading d (now_ms q d)"
proof -
  have c: "reading d (fs_call q d)" for d :: "'a disk_scheme" unfolding fs_call_def by (intro reading_intros)
  show r: "reading d (resolve q rel d)" for d :: "'a disk_scheme"
    unfolding resolve_def root_validate_components_def by (intro reading_intros c)
  show rr: "reading d (read_regular q p n d)" for p and d :: "'a disk_scheme"
    unfolding read_regular_def
    by (intro reading_sbind c) (auto simp: intro: reading_pair split: option.splits node.splits)
  show "reading d (fs_call q d)" by (rule c)
  show "reading d (read_file q rel n d)" unfolding read_file_def by (intro reading_sbind r rr)
  show "reading d (entry_exists q p d)"
    unfolding entry_exists_def
    by (intro reading_sbind reading_ask) (auto intro: reading_pair split: fault.splits option.splits node.splits)
  show "reading d (now_ms q d)" unfolding now_ms_def by (intro reading_intros)
qed

lemma reading_optional [reading_intros]: "reading d (optional_file q rel n d)"
proof -
  have "reading d (case read_regular q p n d of (Inr bs, d) \<Rightarrow> (Inr (Some bs), d)
       | (Inl LNotFound, d) \<Rightarrow> (Inr None, d) | (Inl e, d) \<Rightarrow> (Inl e, d))" for p and d :: "'a disk_scheme"
    using reading_files(4)[of d q p n]
    by (auto simp: reading_def split: sum.splits prod.splits launcher_error.splits)
  then show ?thesis unfolding optional_file_def by (intro reading_intros)
qed

lemma reading_parsers [reading_intros]:
  "reading d (read_slot_pointer q rel d)" "reading d (read_pending q d)" "reading d (manifest_load q sl d)"
  unfolding read_slot_pointer_def read_pending_def manifest_load_def
  by (intro reading_intros)+

lemma reading_validate_slot [reading_intros]: "reading d (validate_slot q sl d)"
  unfolding validate_slot_def by (intro reading_intros)

lemma readingE:
  assumes "reading d m" "m = (r, d')"
  obtains n where "dk_calls d \<le> n" "d' = d\<lparr>dk_calls := n\<rparr>"
  using assms by (auto simp: reading_def)

text \<open>The slot that runs and the recorded switch, as the files hold them.\<close>

definition pointer_of :: "(path \<rightharpoonup> node) \<Rightarrow> slot option" where
  "pointer_of fs = (case fs [lit ''current''] of
     Some (NFile bs) \<Rightarrow> (case pointer_parse bs of Inr s \<Rightarrow> Some s | Inl _ \<Rightarrow> None) | _ \<Rightarrow> None)"

definition pending_of :: "(path \<rightharpoonup> node) \<Rightarrow> pending_switch option" where
  "pending_of fs = (case fs [lit ''launcher'', lit ''pending-slot''] of
     Some (NFile bs) \<Rightarrow> (case pending_parse bs of Inr p \<Rightarrow> Some p | Inl _ \<Rightarrow> None) | _ \<Rightarrow> None)"

lemma read_regular_file: "read_regular q p m d = (Inr bs, d') \<Longrightarrow> dk_files d p = Some (NFile bs)"
proof (cases "fs_call q d")
  case (Pair r d1)
  have "dk_files d1 = dk_files d" by (rule same_files(2)[OF Pair])
  then show "read_regular q p m d = (Inr bs, d') \<Longrightarrow> ?thesis"
    using Pair by (cases r) (auto simp: read_regular_def split: option.splits node.splits if_split_asm)
qed

lemma read_file_file:
  assumes "read_file q rel m d = (Inr bs, d')" "validate_relative_path rel = Inr p"
  shows "dk_files d p = Some (NFile bs)"
proof -
  obtain p' d1 where r: "resolve q rel d = (Inr p', d1)" "read_regular q p' m d1 = (Inr bs, d')"
    using assms(1) unfolding read_file_def by (auto simp: result_simps)
  then show ?thesis
    using resolve_Inr[OF r(1)] read_regular_file[OF r(2)] same_files(1)[OF r(1)] assms(2) by simp
qed

lemma read_pointer_of: "read_slot_pointer q POINTER_FILE d = (Inr x, d') \<Longrightarrow> pointer_of (dk_files d) = Some x"
proof -
  assume "read_slot_pointer q POINTER_FILE d = (Inr x, d')"
  then obtain bs d1 where r: "read_file q POINTER_FILE 3 d = (Inr bs, d1)" "pointer_parse bs = Inr x"
    unfolding read_slot_pointer_def by (auto simp: result_simps)
  show ?thesis using read_file_file[OF r(1) launcher_paths(1)] r(2) by (simp add: pointer_of_def)
qed

lemma optional_file_file:
  assumes "optional_file q rel m d = (Inr (Some bs), d')" "validate_relative_path rel = Inr p"
  shows "dk_files d p = Some (NFile bs)"
proof -
  obtain p' d1 b d2 where r: "resolve q rel d = (Inr p', d1)" "entry_exists q p' d1 = (Inr b, d2)"
      "(case read_regular q p' m d2 of (Inr bs, d) \<Rightarrow> (Inr (Some bs), d)
       | (Inl LNotFound, d) \<Rightarrow> (Inr None, d) | (Inl e, d) \<Rightarrow> (Inl e, d)) = (Inr (Some bs), d')"
    using assms(1) unfolding optional_file_def by (auto simp: result_simps split: if_split_asm)
  have "read_regular q p' m d2 = (Inr bs, d')"
    using r(3) by (auto split: prod.splits sum.splits launcher_error.splits)
  from read_regular_file[OF this] show ?thesis
    using resolve_Inr[OF r(1)] same_files(1)[OF r(1)] same_files(3)[OF r(2)] assms(2) by simp
qed

lemma pending_parse_changes: "pending_parse bs = Inr p \<Longrightarrow> ps_previous p \<noteq> ps_target p"
  by (auto simp: pending_parse_def Let_def result_simps split: if_split_asm)

lemma read_pending_of:
  "read_pending q d = (Inr (Some p), d') \<Longrightarrow> pending_of (dk_files d) = Some p \<and> ps_previous p \<noteq> ps_target p"
proof -
  assume "read_pending q d = (Inr (Some p), d')"
  then obtain bs d1 where r: "optional_file q PENDING_FILE 128 d = (Inr (Some bs), d1)" "pending_parse bs = Inr p"
    by (auto simp: read_pending_def result_simps split: option.splits)
  show ?thesis
    using optional_file_file[OF r(1) launcher_paths(2)] r(2) pending_parse_changes by (simp add: pending_of_def)
qed

section \<open>Changes\<close>

lemma atomic_write_effect:
  assumes "atomic_write q rel bs d = (Inr u, d')" "validate_relative_path rel = Inr p"
  shows "\<exists>n > dk_calls d. d' = d\<lparr>dk_calls := n, dk_files := (dk_files d)(p \<mapsto> NFile bs)\<rparr>"
proof -
  obtain d1 d2 b d3 where r: "resolve q rel d = (Inr p, d1)" "fs_call q d1 = (Inr (), d2)" "entry_exists q p d2 = (Inr b, d3)"
      "commit q (\<lambda>fs. fs(p \<mapsto> NFile bs)) d3 = (Inr u, d')"
    using assms unfolding atomic_write_def
    by (auto simp: result_simps dest: resolve_Inr split: if_split_asm)
  obtain n1 where n1: "dk_calls d \<le> n1" "d1 = d\<lparr>dk_calls := n1\<rparr>" using readingE[OF reading_files(2) r(1)] .
  obtain n2 where n2: "n1 \<le> n2" "d2 = d\<lparr>dk_calls := n2\<rparr>" using readingE[OF reading_files(1) r(2)] n1 by auto
  obtain n3 where n3: "n2 \<le> n3" "d3 = d\<lparr>dk_calls := n3\<rparr>" using readingE[OF reading_files(3) r(3)] n2 by auto
  have "d' = d\<lparr>dk_calls := Suc n3, dk_files := (dk_files d)(p \<mapsto> NFile bs)\<rparr>"
    using r(4) n3 by (auto simp: commit_def ask_def split: fault.splits)
  then show ?thesis using n1 n2 n3 by (intro exI[of _ "Suc n3"]) auto
qed

lemma remove_file_effect:
  assumes "remove_file q rel d = (Inr u, d')" "validate_relative_path rel = Inr p"
  shows "\<exists>n \<ge> dk_calls d. d' = d\<lparr>dk_calls := n\<rparr> \<or> d' = d\<lparr>dk_calls := n, dk_files := (dk_files d)(p := None)\<rparr>"
proof -
  obtain d1 b d2 where r: "resolve q rel d = (Inr p, d1)" "entry_exists q p d1 = (Inr b, d2)"
      "d' = d2 \<or> commit q (\<lambda>fs. fs(p := None)) d2 = (Inr u, d')"
    using assms unfolding remove_file_def
    by (auto simp: result_simps dest: resolve_Inr split: if_split_asm)
  obtain n1 where n1: "dk_calls d \<le> n1" "d1 = d\<lparr>dk_calls := n1\<rparr>" using readingE[OF reading_files(2) r(1)] .
  obtain n2 where n2: "n1 \<le> n2" "d2 = d\<lparr>dk_calls := n2\<rparr>" using readingE[OF reading_files(3) r(2)] n1 by auto
  show ?thesis
  proof (cases "d' = d2")
    case True
    then show ?thesis using n1 n2 by (intro exI[of _ n2]) auto
  next
    case False
    then have "d' = d\<lparr>dk_calls := Suc n2, dk_files := (dk_files d)(p := None)\<rparr>"
      using r(3) n2 by (auto simp: commit_def ask_def split: fault.splits)
    then show ?thesis using n1 n2 by (intro exI[of _ "Suc n2"]) auto
  qed
qed

definition slots_of :: "launcher \<Rightarrow> slot option \<times> pending_switch option" where
  "slots_of s = (pointer_of (dk_files s), pending_of (dk_files s))"

definition can_roll_back :: "launcher \<Rightarrow> bool" where
  "can_roll_back s = (case slots_of s of (Some c, Some p) \<Rightarrow> c = ps_target p | _ \<Rightarrow> False)"

lemma slots_of_upd [simp]:
  "slots_of (s\<lparr>dk_calls := n\<rparr>) = slots_of s" "slots_of (s\<lparr>la_state := st\<rparr>) = slots_of s"
  "slots_of (s\<lparr>la_running := r\<rparr>) = slots_of s" "slots_of (s\<lparr>la_instances := i\<rparr>) = slots_of s"
  by (simp_all add: slots_of_def)

lemma save_state_effect:
  assumes "save_state q st s = (Inr u, s')"
  shows "dk_calls s < dk_calls s'" "la_state s' = st" "la_running s' = la_running s" "slots_of s' = slots_of s"
proof -
  obtain n where "n > dk_calls s" "s' = s\<lparr>la_state := st, dk_calls := n,
      dk_files := (dk_files s)([lit ''launcher'', lit ''watchdog-state''] \<mapsto> NFile (state_text st))\<rparr>"
    using atomic_write_effect[OF assms[unfolded save_state_def write_state_def] launcher_paths(4)] by auto
  then show "dk_calls s < dk_calls s'" "la_state s' = st" "la_running s' = la_running s" "slots_of s' = slots_of s"
    by (simp_all add: slots_of_def pointer_of_def pending_of_def names_distinct names_distinct[symmetric])
qed

lemma rollback_effect:
  assumes "rollback q p s = (Inr out, s')" "pending_of (dk_files s) = Some p" "ps_previous p \<noteq> ps_target p"
  shows "out = RolledBack (ps_target p) (ps_previous p)" "pointer_of (dk_files s') = Some (ps_previous p)"
    "\<not> can_roll_back s'" "ws_slot (la_state s') = ps_previous p" "la_running s' = la_running s" "dk_calls s \<le> dk_calls s'"
proof -
  obtain s1 u s2 now s3 v s4 where r: "write_slot_pointer q POINTER_FILE (ps_previous p) s = (Inr (), s1)"
      "remove_file q PENDING_FILE s1 = (Inr u, s2)" "now_ms q s2 = (Inr now, s3)"
      "save_state q \<lparr>ws_slot = ps_previous p, ws_crashes = 0, ws_next_start_ms = now, ws_halted = False\<rparr> s3 = (Inr v, s')"
      "out = RolledBack (ps_target p) (ps_previous p)"
    using assms(1) unfolding rollback_def by (auto simp: result_simps)
  obtain n1 where n1: "n1 > dk_calls s" "s1 = s\<lparr>dk_calls := n1, dk_files := (dk_files s)([lit ''current''] \<mapsto> NFile (pointer_text (ps_previous p)))\<rparr>"
    using atomic_write_effect[OF r(1)[unfolded write_slot_pointer_def] launcher_paths(1)] by auto
  have s1: "slots_of s1 = (Some (ps_previous p), Some p)" "la_running s1 = la_running s"
    using assms(2) unfolding n1(2) by (simp_all add: slots_of_def pointer_of_def pending_of_def names_distinct names_distinct[symmetric])
  have s2: "slots_of s2 \<in> {(Some (ps_previous p), Some p), (Some (ps_previous p), None)}" "la_running s2 = la_running s" "dk_calls s1 \<le> dk_calls s2"
    using remove_file_effect[OF r(2) launcher_paths(2)] s1
    by (auto simp: slots_of_def pointer_of_def pending_of_def names_distinct names_distinct[symmetric])
  obtain n3 where n3: "dk_calls s2 \<le> n3" "s3 = s2\<lparr>dk_calls := n3\<rparr>" using readingE[OF reading_files(6) r(3)] .
  note s' = save_state_effect[OF r(4)]
  show "out = RolledBack (ps_target p) (ps_previous p)" by (rule r(5))
  show "ws_slot (la_state s') = ps_previous p" using s'(2) by simp
  show "la_running s' = la_running s" using s'(3) n3(2) s2(2) by simp
  show "dk_calls s \<le> dk_calls s'" using s'(1) n3 s2(3) n1 by simp
  show "pointer_of (dk_files s') = Some (ps_previous p)" using s'(4) n3(2) s2(1) by (auto simp: slots_of_def)
  show "\<not> can_roll_back s'" using s'(4) n3(2) s2(1) assms(3) by (auto simp: can_roll_back_def)
qed

lemma count_failure_effect:
  assumes "count_failure q m s = (Inr out, s')"
  shows "(\<exists>sl c. out = Halted sl c) \<or> (ws_crashes (la_state s) < sm_max_crashes m \<and> ws_slot (la_state s') = ws_slot (la_state s) \<and>
    ws_crashes (la_state s') = ws_crashes (la_state s) \<and> la_running s' = la_running s \<and> slots_of s' = slots_of s \<and>
    dk_calls s \<le> dk_calls s' \<and> (\<exists>sl t. out = BackingOff sl t))"
proof (cases "sm_max_crashes m \<le> ws_crashes (la_state s)")
  case True
  then show ?thesis using assms by (auto simp: count_failure_def result_simps)
next
  case False
  then obtain now s1 st u where r: "now_ms q s = (Inr now, s1)" "save_state q st s1 = (Inr u, s')"
      "st = (la_state s1)\<lparr>ws_next_start_ms := ws_next_start_ms st\<rparr>" "\<exists>sl t. out = BackingOff sl t"
    using assms unfolding count_failure_def by (auto simp: result_simps)
  obtain n where n: "dk_calls s \<le> n" "s1 = s\<lparr>dk_calls := n\<rparr>" using readingE[OF reading_files(6) r(1)] .
  have "ws_slot st = ws_slot (la_state s)" "ws_crashes st = ws_crashes (la_state s)"
    using arg_cong[OF r(3), of ws_slot] arg_cong[OF r(3), of ws_crashes] n(2) by simp_all
  then show ?thesis using False save_state_effect[OF r(2)] n r(4) by auto
qed

lemma u32_max: "unat (- 1 :: u32) = 4294967295"
  by (simp add: unsigned_minus_1_eq_mask mask_eq_exp_minus_1)

lemma incr_u32: "unat (saturating_incr_u32 c) = (if c = - 1 then unat c else Suc (unat c))"
proof (cases "c = - 1")
  case False
  then have "1 + c \<noteq> 0" using minus_unique[of 1 c] by auto
  then show ?thesis using False unatSuc[of c] by (simp add: saturating_incr_u32_def add.commute)
qed (simp add: saturating_incr_u32_def)

lemma record_failure_effect:
  assumes "record_failure q r m s = (Inr out, s')" "pointer_of (dk_files s) = Some (rc_slot r)" "sm_max_crashes m \<le> 16"
  shows "(\<exists>sl c. out = Halted sl c) \<or>
    (la_running s' = la_running s \<and> dk_calls s \<le> dk_calls s' \<and> pointer_of (dk_files s') = Some (ws_slot (la_state s')) \<and>
     (can_roll_back s \<and> \<not> can_roll_back s' \<or>
      slots_of s' = slots_of s \<and> ws_slot (la_state s') = rc_slot r \<and>
      unat (ws_crashes (la_state s')) = Suc (unat (ws_crashes (la_state s))) \<and> unat (ws_crashes (la_state s')) < 16))"
proof -
  let ?c = "saturating_incr_u32 (ws_crashes (la_state s))"
  let ?s = "s\<lparr>la_state := (la_state s)\<lparr>ws_slot := rc_slot r, ws_crashes := ?c\<rparr>\<rparr>"
  obtain pending s1 where p: "read_pending q ?s = (Inr pending, s1)"
      "(\<exists>p. pending = Some p \<and> ps_target p = rc_slot r \<and> rollback q p s1 = (Inr out, s')) \<or> count_failure q m s1 = (Inr out, s')"
    using assms(1) unfolding record_failure_def Let_def
    by (auto simp: result_simps split: option.splits if_split_asm)
  obtain n where n: "dk_calls s \<le> n" "s1 = ?s\<lparr>dk_calls := n\<rparr>" using readingE[OF reading_parsers(2) p(1)] by auto
  from p(2) show ?thesis
  proof (elim disjE exE conjE)
    fix p' assume a: "pending = Some p'" "ps_target p' = rc_slot r" "rollback q p' s1 = (Inr out, s')"
    have pd: "pending_of (dk_files s1) = Some p'" "ps_previous p' \<noteq> ps_target p'"
      using read_pending_of[of q ?s p' s1] p(1) a(1) n(2) by simp_all
    have "can_roll_back s" using pd(1) a(2) assms(2) n(2) by (simp add: can_roll_back_def slots_of_def)
    then show ?thesis using rollback_effect[OF a(3) pd] n by auto
  next
    assume "count_failure q m s1 = (Inr out, s')"
    from count_failure_effect[OF this] show ?thesis
    proof (elim disjE)
      assume a: "ws_crashes (la_state s1) < sm_max_crashes m \<and> ws_slot (la_state s') = ws_slot (la_state s1) \<and>
        ws_crashes (la_state s') = ws_crashes (la_state s1) \<and> la_running s' = la_running s1 \<and> slots_of s' = slots_of s1 \<and>
        dk_calls s1 \<le> dk_calls s' \<and> (\<exists>sl t. out = BackingOff sl t)"
      have c: "unat ?c < 16" using a assms(3) n(2) by (simp add: word_less_nat_alt word_le_nat_alt)
      moreover have "ws_crashes (la_state s) \<noteq> - 1" using c by (auto simp: incr_u32 u32_max)
      ultimately show ?thesis using a n assms(2) by (auto simp: incr_u32 slots_of_def)
    qed auto
  qed
qed

lemma manifest_load_limits:
  "manifest_load q sl d = (Inr m, d') \<Longrightarrow>
   sm_max_crashes m \<le> 16 \<and> (\<exists>cs. validate_relative_path (sm_heartbeat m) = Inr (lit ''run'' # cs))"
proof -
  assume "manifest_load q sl d = (Inr m, d')"
  then obtain bs where p: "manifest_parse bs sl = Inr m" by (auto simp: manifest_load_def result_simps)
  then have "manifest_validate m = Inr ()"
    unfolding manifest_parse_def by (auto simp: result_simps Let_def split: if_split_asm list.splits)
  then have "sm_max_crashes m \<le> 16" by (auto simp: manifest_validate_def result_simps ensure_def split: if_split_asm)
  then show ?thesis using manifest_heartbeat_path[OF p] by simp
qed

lemma validate_slot_load: "validate_slot q sl d = (Inr m, d') \<Longrightarrow> \<exists>d1. manifest_load q sl d = (Inr m, d1)"
  by (auto simp: validate_slot_def result_simps split: if_split_asm)

lemma spawn_child_effect:
  assumes "spawn_child q active now m s = (Inr out, s')" "validate_relative_path (sm_heartbeat m) = Inr (lit ''run'' # cs)"
  shows "\<exists>r id. out = Started active id \<and> la_running s' = Some r \<and> rc_slot r = active \<and> la_state s' = la_state s \<and>
    slots_of s' = slots_of s \<and> dk_calls s \<le> dk_calls s'"
proof -
  obtain h s1 u s2 e s3 child s4 where r: "resolve q (sm_heartbeat m) s = (Inr h, s1)" "remove_file q (sm_heartbeat m) s1 = (Inr u, s2)"
      "resolve q (executable_path active (sm_executable m)) s2 = (Inr e, s3)"
      "\<exists>rq. ask_result (\<lambda>n. q_spawn q n rq) (s3\<lparr>la_instances := la_instances s3 + 1\<rparr>) = (Inr child, s4)"
      "\<exists>r. rc_slot r = active \<and> s' = s4\<lparr>la_running := Some r\<rparr>" "out = Started active child"
    using assms(1) unfolding spawn_child_def Let_def by (auto simp: result_simps) (metis running_child.select_convs(2))
  obtain n1 where n1: "dk_calls s \<le> n1" "s1 = s\<lparr>dk_calls := n1\<rparr>" using readingE[OF reading_files(2) r(1)] .
  have s2: "slots_of s2 = slots_of s" "la_state s2 = la_state s" "n1 \<le> dk_calls s2"
    using remove_file_effect[OF r(2) assms(2)] n1(2)
    by (auto simp: slots_of_def pointer_of_def pending_of_def names_distinct names_distinct[symmetric] lit_def)
  obtain n3 where n3: "dk_calls s2 \<le> n3" "s3 = s2\<lparr>dk_calls := n3\<rparr>" using readingE[OF reading_files(2) r(3)] .
  have "dk_calls s3 \<le> dk_calls s4" "slots_of s4 = slots_of s3" "la_state s4 = la_state s3"
    using r(4) by (auto simp: ask_result_def)
  then show ?thesis using r(5,6) n1 s2 n3 by auto
qed

definition eventually_past :: "environment \<Rightarrow> nat \<Rightarrow> bool" where
  "eventually_past q N = (\<forall>n \<ge> N. q_now q n = - 1)"

lemma step_start_effect:
  assumes "step_start q active s = (Inr out, s')" "pointer_of (dk_files s) = Some active" "la_running s = None"
    and clock: "eventually_past q N"
  shows "(\<exists>sl c. out = Halted sl c) \<or> dk_calls s \<le> dk_calls s' \<and>
    (can_roll_back s \<and> \<not> can_roll_back s' \<or>
     slots_of s' = slots_of s \<and> la_state s' = la_state s \<and>
     (la_running s' = None \<and> dk_calls s < N \<and> dk_calls s < dk_calls s' \<or> (\<exists>r. la_running s' = Some r \<and> rc_slot r = active)))"
proof (cases "ws_halted (la_state s)")
  case True
  then show ?thesis using assms(1) by (auto simp: step_start_def)
next
  case False
  let ?s = "s\<lparr>dk_calls := Suc (dk_calls s)\<rparr>" and ?now = "q_now q (dk_calls s)"
  have st: "step_start q active s = (if ?now < ws_next_start_ms (la_state s)
        then (Inr (BackingOff (ws_slot (la_state s)) (ws_next_start_ms (la_state s))), ?s)
        else (case validate_slot q active ?s of
            (Inr manifest, s) \<Rightarrow> spawn_child q active ?now manifest s
          | (Inl e, s) \<Rightarrow> sbind (read_pending q s) (\<lambda>pending s. case pending of
                None \<Rightarrow> (Inl e, s)
              | Some p \<Rightarrow> if ps_target p = active then rollback q p s else (Inl e, s))))"
    using False by (simp add: step_start_def now_ms_def ask_def)
  show ?thesis
  proof (cases "?now < ws_next_start_ms (la_state s)")
    case True
    then have "?now < - 1" by (rule less_le_trans) (rule word_order.extremum)
    then have "?now \<noteq> - 1" by (rule less_imp_neq)
    then have "dk_calls s < N" using clock by (cases "N \<le> dk_calls s") (auto simp: eventually_past_def)
    then show ?thesis using assms(1,3) True by (auto simp: st)
  next
    case now: False
    obtain v s1 where v: "validate_slot q active ?s = (v, s1)" by (cases "validate_slot q active ?s")
    obtain n1 where n1: "Suc (dk_calls s) \<le> n1" "s1 = s\<lparr>dk_calls := n1\<rparr>" by (rule readingE[OF reading_validate_slot v]) simp
    show ?thesis
    proof (cases v)
      case (Inr m)
      then have "spawn_child q active ?now m s1 = (Inr out, s')" using assms(1) now v by (simp add: st)
      moreover obtain cs where "validate_relative_path (sm_heartbeat m) = Inr (lit ''run'' # cs)"
        using validate_slot_load[OF v[unfolded Inr]] manifest_load_limits by metis
      ultimately show ?thesis using spawn_child_effect[of q active ?now m s1 out s'] n1 by auto
    next
      case (Inl e)
      then obtain p s2 where p: "read_pending q s1 = (Inr (Some p), s2)" "ps_target p = active" "rollback q p s2 = (Inr out, s')"
        using assms(1) now v by (auto simp: st result_simps split: option.splits if_split_asm)
      obtain n2 where n2: "n1 \<le> n2" "s2 = s\<lparr>dk_calls := n2\<rparr>" using readingE[OF reading_parsers(2) p(1)] n1 by auto
      have pd: "pending_of (dk_files s2) = Some p" "ps_previous p \<noteq> ps_target p"
        using read_pending_of[OF p(1)] n1(2) n2(2) by simp_all
      have "can_roll_back s" using pd(1) p(2) assms(2) n2(2) by (simp add: can_roll_back_def slots_of_def)
      then show ?thesis using rollback_effect[OF p(3) pd] n1 n2 by auto
    qed
  qed
qed

text \<open>The steps that are left, in the order in which they are used up.\<close>

definition astray :: "launcher \<Rightarrow> nat" where
  "astray s = of_bool (pointer_of (dk_files s) \<noteq> Some (ws_slot (la_state s))) +
     (case la_running s of None \<Rightarrow> 0 | Some r \<Rightarrow> of_bool (pointer_of (dk_files s) \<noteq> Some (rc_slot r)))"

definition steps_left :: "nat \<Rightarrow> launcher rel" where
  "steps_left N = measures [\<lambda>s. of_bool (can_roll_back s), astray, \<lambda>s. 17 - unat (ws_crashes (la_state s)),
     \<lambda>s. of_bool (la_running s = None), \<lambda>s. N - dk_calls s]"

lemma steps_leftI:
  assumes "\<not> can_roll_back s \<Longrightarrow> \<not> can_roll_back s'"
    and "can_roll_back s' = can_roll_back s \<Longrightarrow> astray s' \<le> astray s"
    and "can_roll_back s' = can_roll_back s \<Longrightarrow> astray s' = astray s \<Longrightarrow>
      unat (ws_crashes (la_state s)) < unat (ws_crashes (la_state s')) \<and> unat (ws_crashes (la_state s')) < 17 \<or>
      ws_crashes (la_state s') = ws_crashes (la_state s) \<and> (la_running s = None \<and> la_running s' \<noteq> None \<or>
        la_running s = None \<and> dk_calls s < N \<and> dk_calls s < dk_calls s')"
  shows "(s', s) \<in> steps_left N"
proof (cases "can_roll_back s' = can_roll_back s \<and> astray s' = astray s")
  case True
  then show ?thesis using assms(3) by (auto simp: steps_left_def)
next
  case False
  then show ?thesis using assms(1,2) by (fastforce simp: steps_left_def)
qed

definition settles :: "slot \<Rightarrow> launcher \<Rightarrow> launcher \<Rightarrow> bool" where
  "settles active s s' = (slots_of s' = slots_of s \<and> dk_calls s \<le> dk_calls s' \<and>
     (la_running s' = la_running s \<and> la_state s' = la_state s \<and>
        (case la_running s of None \<Rightarrow> ws_slot (la_state s) = active | Some r \<Rightarrow> rc_slot r = active) \<or>
      la_running s' = None \<and> la_state s' = fresh_state active \<and> 0 < astray s))"

lemma sbind_InrE:
  assumes "sbind m f = (Inr x, s')"
  obtains y s1 where "m = (Inr y, s1)" "f y s1 = (Inr x, s')"
  using assms by (cases m; cases "fst m") auto

lemma step_settles:
  assumes "step q s = (Inr out, s')" "out \<noteq> Disabled"
  shows "\<exists>active s3. pointer_of (dk_files s) = Some active \<and> settles active s s3 \<and>
    (case la_running s3 of Some running \<Rightarrow> step_running q running (s3\<lparr>la_running := None\<rparr>)
       | None \<Rightarrow> step_start q active s3) = (Inr out, s')"
proof -
  let ?s = "s\<lparr>dk_calls := Suc (dk_calls s)\<rparr>"
  have d: "ask_result (q_disabled q) s = (q_disabled q (dk_calls s), ?s)" by (simp add: ask_result_def)
  obtain b where b: "q_disabled q (dk_calls s) = Inr b" using assms(1)[unfolded step_def d] by (auto elim: sbind_InrE)
  have "\<not> b" using assms unfolding step_def d b by (auto elim!: sbind_InrE split: option.splits)
  from assms(1)[unfolded step_def d b sbind_simps if_not_P[OF this]] obtain active s1 s2 s3 where r:
      "read_slot_pointer q POINTER_FILE ?s = (Inr active, s1)"
      "(case la_running s1 of None \<Rightarrow> (Inr (), s1)
         | Some old \<Rightarrow> if rc_slot old = active then (Inr (), s1)
           else sbind (ask_result (\<lambda>n. q_terminate q n (rc_id old)) (s1\<lparr>la_running := None\<rparr>)) (\<lambda>_.
             save_state q (fresh_state active))) = (Inr (), s2)"
      "(if ws_slot (la_state s2) \<noteq> active \<and> la_running s2 = None
           then save_state q (fresh_state active) s2 else (Inr (), s2)) = (Inr (), s3)"
      "(case la_running s3 of Some running \<Rightarrow> step_running q running (s3\<lparr>la_running := None\<rparr>)
       | None \<Rightarrow> step_start q active s3) = (Inr out, s')"
    by (elim sbind_InrE) simp
  obtain n where n: "Suc (dk_calls s) \<le> n" "s1 = s\<lparr>dk_calls := n\<rparr>"
    by (rule readingE[OF reading_parsers(1) r(1)]) simp
  have active: "pointer_of (dk_files s) = Some active" using read_pointer_of[OF r(1)] by simp
  have s2: "slots_of s2 = slots_of s \<and> dk_calls s \<le> dk_calls s2 \<and>
    (la_running s2 = la_running s \<and> la_state s2 = la_state s \<and> (\<forall>r. la_running s = Some r \<longrightarrow> rc_slot r = active) \<or>
     la_running s2 = None \<and> la_state s2 = fresh_state active \<and> 0 < astray s)"
  proof (cases "\<exists>old. la_running s = Some old \<and> rc_slot old \<noteq> active")
    case True
    then obtain old where old: "la_running s = Some old" "rc_slot old \<noteq> active" by blast
    then obtain t where t: "t = s1\<lparr>la_running := None, dk_calls := Suc n\<rparr>" "save_state q (fresh_state active) t = (Inr (), s2)"
      using r(2) n(2) by (auto simp: ask_result_def elim: sbind_InrE)
    have "0 < astray s" using old active by (simp add: astray_def)
    then show ?thesis using save_state_effect[OF t(2)] t(1) n by auto
  next
    case False
    then have "s2 = s1" using r(2) n(2) by (auto split: option.splits)
    then show ?thesis using False n by auto
  qed
  have "settles active s s3"
  proof (cases "ws_slot (la_state s2) \<noteq> active \<and> la_running s2 = None")
    case True
    then have sv: "save_state q (fresh_state active) s2 = (Inr (), s3)" using r(3) by simp
    have "0 < astray s" using s2 True active by (auto simp: astray_def fresh_state_def)
    then show ?thesis using save_state_effect[OF sv] s2 True by (auto simp: settles_def)
  next
    case False
    then have "s3 = s2" using r(3) by auto
    then show ?thesis using False s2 by (auto simp: settles_def split: option.splits)
  qed
  then show ?thesis using active r(4) by blast
qed

lemma step_decreases:
  assumes "step q s = (Inr out, s')" "out \<noteq> Disabled" "\<And>sl c. out \<noteq> Halted sl c"
    and polls: "\<And>n i. q_poll q n i \<noteq> Inr ChildRunning" and clock: "eventually_past q N"
  shows "(s', s) \<in> steps_left N"
proof -
  obtain active s3 where a: "pointer_of (dk_files s) = Some active" "settles active s s3"
      "(case la_running s3 of Some running \<Rightarrow> step_running q running (s3\<lparr>la_running := None\<rparr>)
       | None \<Rightarrow> step_start q active s3) = (Inr out, s')"
    using step_settles[OF assms(1,2)] by blast
  have p3: "pointer_of (dk_files s3) = Some active" "can_roll_back s3 = can_roll_back s"
    using a(1,2) by (auto simp: settles_def slots_of_def can_roll_back_def)
  show ?thesis
  proof (cases "la_running s3")
    case (Some r)
    then have keep: "la_running s = Some r" "la_state s3 = la_state s" "rc_slot r = active"
      using a(2) by (auto simp: settles_def split: option.splits)
    obtain m s4 s5 c where e: "manifest_load q active (s3\<lparr>la_running := None\<rparr>) = (Inr m, s4)"
        "s5 = s4\<lparr>dk_calls := Suc (dk_calls s4)\<rparr>" "record_failure q r m s5 = (Inr out, s')"
      using a(3) polls keep(3) unfolding Some option.case step_running_def
      by (elim sbind_InrE) (auto simp: ask_result_def split: child_status.splits)
    obtain n where n: "s4 = s3\<lparr>la_running := None, dk_calls := n\<rparr>" by (rule readingE[OF reading_parsers(3) e(1)]) simp
    have s5: "pointer_of (dk_files s5) = Some (rc_slot r)" "can_roll_back s5 = can_roll_back s" "slots_of s5 = slots_of s"
        "la_state s5 = la_state s" "la_running s5 = None"
      using e(2) n p3 keep(2,3) a(2) by (simp_all add: can_roll_back_def settles_def)
    have "sm_max_crashes m \<le> 16" using manifest_load_limits[OF e(1)] by simp
    from record_failure_effect[OF e(3) s5(1) this] assms(3) show ?thesis
      using keep a(1) s5 by (intro steps_leftI) (auto simp: astray_def can_roll_back_def)
  next
    case None
    then have "step_start q active s3 = (Inr out, s')" using a(3) by simp
    from step_start_effect[OF this p3(1) None clock] assms(3)
    consider (rolled) "can_roll_back s3" "\<not> can_roll_back s'"
      | (same) "slots_of s' = slots_of s3" "la_state s' = la_state s3"
          "la_running s' = None \<and> dk_calls s3 < N \<and> dk_calls s3 < dk_calls s' \<or> (\<exists>r. la_running s' = Some r \<and> rc_slot r = active)"
      by blast
    then show ?thesis
    proof cases
      case rolled
      then show ?thesis using p3(2) by (intro steps_leftI) auto
    next
      case same
      have s': "slots_of s' = slots_of s" using same(1) a(2) by (simp add: settles_def)
      then have p': "pointer_of (dk_files s') = Some active" "can_roll_back s' = can_roll_back s"
        using a(1) by (simp_all add: slots_of_def can_roll_back_def)
      have ok: "ws_slot (la_state s') = active"
        using a(2) same(2) None by (auto simp: settles_def fresh_state_def split: option.splits)
      have "astray s' = 0" using p'(1) ok same(3) by (auto simp: astray_def)
      moreover have "la_running s = None \<and> la_state s' = la_state s \<and> dk_calls s \<le> dk_calls s3 \<or> 0 < astray s"
        using a(2) None same(2) by (auto simp: settles_def)
      ultimately show ?thesis using p'(2) same(3) by (intro steps_leftI) auto
    qed
  qed
qed

lemma steps_left_clock: "(s', s) \<in> steps_left N \<Longrightarrow> (s'\<lparr>dk_calls := Suc (dk_calls s')\<rparr>, s) \<in> steps_left N"
proof -
  have "can_roll_back (s'\<lparr>dk_calls := n\<rparr>) = can_roll_back s'" "astray (s'\<lparr>dk_calls := n\<rparr>) = astray s'" for n
    by (simp_all add: can_roll_back_def astray_def split: option.splits)
  note c = this
  assume "(s', s) \<in> steps_left N"
  then show ?thesis unfolding steps_left_def in_measures c by (elim disjE conjE) auto
qed

lemma run_decreasing:
  assumes polls: "\<And>n i. q_poll q n i \<noteq> Inr ChildRunning" and clock: "eventually_past q N"
  shows "\<exists>fuel r. run fuel q s = Some r"
proof -
  have "wf (steps_left N)" by (simp add: steps_left_def)
  then show ?thesis
proof (induction s rule: wf_induct_rule)
  case (less s)
  obtain o' s' where st: "step q s = (o', s')" by (cases "step q s")
  show ?case
  proof (cases "\<exists>out. o' = Inr out \<and> out \<noteq> Disabled \<and> (\<forall>sl c. out \<noteq> Halted sl c)")
    case False
    then have "\<exists>r. run (Suc 0) q s = Some r" by (auto simp: st split: sum.splits step_outcome.splits)
    then show ?thesis by blast
  next
    case True
    then obtain out where out: "o' = Inr out" "out \<noteq> Disabled" "\<And>sl c. out \<noteq> Halted sl c" by blast
    let ?s = "snd (now_ms q s')"
    have d: "(s', s) \<in> steps_left N" by (rule step_decreases[OF st[unfolded out(1)] out(2,3) polls clock])
    have "(?s, s) \<in> steps_left N"
      using d steps_left_clock by (simp add: now_ms_def ask_def)
    then obtain f r f' r' where "run f q s' = Some r" "run f' q ?s = Some r'" using less d by metis
    then have "\<exists>fuel r. run (Suc fuel) q s = Some r"
      using out by (cases out) (simp_all add: st, (metis surj_pair)+)
    then show ?thesis by blast
  qed
qed
qed


text \<open>
  C40: The watchdog does not restart a broken daemon forever. If no child is ever found alive when it
  is polled and the clock passes every time in the end, \<open>run\<close> returns from every state, whatever the
  files hold, whichever calls fail and whether a switch is pending: the failures are counted, a pending
  switch is taken back once and then the launcher gives up, if no error or the disable flag ended it before.
\<close>

theorem run_returns:
  assumes "\<And>n i. q_poll q n i \<noteq> Inr ChildRunning" "\<And>t. \<exists>N. \<forall>n \<ge> N. t \<le> q_now q n"
  shows "\<exists>fuel r. run fuel q s = Some r"
proof -
  obtain N where "\<forall>n \<ge> N. - 1 \<le> q_now q n" using assms(2) by blast
  then have "eventually_past q N" by (simp add: eventually_past_def word_order.extremum_unique)
  then show ?thesis by (rule run_decreasing[OF assms(1)])
qed

lemma saturating_reaches: "\<exists>N. \<forall>n \<ge> N. t \<le> saturating_u64 n"
  by (rule exI[of _ "2 ^ 64"]) (simp add: saturating_u64_def)

theorem run_returns_witness:
  "\<exists>fuel r. run fuel (sample_environment\<lparr>q_now := saturating_u64\<rparr>) sample_launcher = Some r"
  by (rule run_returns) (simp_all add: sample_environment_def saturating_reaches)

end
