(* ===== verification/Actor.thy ===== *)
theory Actor
  imports Wire_Session Scheduler "HOL-Library.AList"
begin

text \<open>
  The connection actor, \<open>crates/kindlebridge-transport/src/actor.rs\<close>: the thread that owns the session
  state and the outbound scheduler of a connection, answers the requests of the streams and handles the
  frames of the peer. A response channel is a number, and the answers sent over it are recorded in
  \<open>ac_replies\<close>; the frames written to the sink are recorded in \<open>ac_written\<close>. What the actor learns from
  outside in one turn of its loop is a \<open>moment\<close>: the clock, whether the handles of the connection are
  still in use, the restart handler, the outcome of writes and the order in which a hash map is walked.
  The JSON texts of OPEN and ACCEPT are made and read by \<open>serde_json\<close>, which is a parameter. Left out are
  the messages of errors, the lossy conversion of a rejection to text, and the last error that is sent to
  whoever waits for incoming streams.
\<close>

section \<open>State\<close>

definition MAX_PENDING_PINGS :: nat where "MAX_PENDING_PINGS = 64"
definition MAX_SCHEDULED_BYTES :: nat where "MAX_SCHEDULED_BYTES = 16 * 1024 * 1024"

datatype protocol_cause = FromSession protocol_error | FromWire wire_error | Exhausted | AfterHandshake command

datatype connection_error =
    ConnDisconnected
  | ConnRejected bytes
  | ConnProtocol protocol_cause
  | ConnTransport
  | ConnUnknownStream u32
  | ConnReceivePending u32
  | ConnSendPending u32
  | ConnQueueFull
  | ConnPingTimedOut
  | ConnGoAwayTimedOut
  | ConnInvalidService
  | ConnPanicked

type_synonym response = nat

datatype reply = Done | Opened u32 | Received frame | Failed connection_error

datatype actor_command =
    CmdPing u64 nat response
  | CmdOpen u64 bytes u32 traffic_class response
  | CmdAccept u64 u32 u32 traffic_class response
  | CmdReject u64 u32 bytes response
  | CmdSendData u64 u32 bytes bool response
  | CmdReceive u64 u32 response
  | CmdClose u64 u32 response
  | CmdReset u64 u32 bytes response
  | CmdCancelReceive u64 u32 response
  | CmdGoAway u64 response
  | CmdShutdown

fun command_generation :: "actor_command \<Rightarrow> u64 option" where
  "command_generation (CmdPing g _ _) = Some g"
| "command_generation (CmdOpen g _ _ _ _) = Some g"
| "command_generation (CmdAccept g _ _ _ _) = Some g"
| "command_generation (CmdReject g _ _ _) = Some g"
| "command_generation (CmdSendData g _ _ _ _) = Some g"
| "command_generation (CmdReceive g _ _) = Some g"
| "command_generation (CmdClose g _ _) = Some g"
| "command_generation (CmdReset g _ _ _) = Some g"
| "command_generation (CmdCancelReceive g _ _) = Some g"
| "command_generation (CmdGoAway g _) = Some g"
| "command_generation CmdShutdown = None"

fun command_response :: "actor_command \<Rightarrow> response option" where
  "command_response (CmdPing _ _ r) = Some r"
| "command_response (CmdOpen _ _ _ _ r) = Some r"
| "command_response (CmdAccept _ _ _ _ r) = Some r"
| "command_response (CmdReject _ _ _ r) = Some r"
| "command_response (CmdSendData _ _ _ _ r) = Some r"
| "command_response (CmdReceive _ _ r) = Some r"
| "command_response (CmdClose _ _ r) = Some r"
| "command_response (CmdReset _ _ _ r) = Some r"
| "command_response (CmdCancelReceive _ _ r) = Some r"
| "command_response (CmdGoAway _ r) = Some r"
| "command_response CmdShutdown = None"

record pending_send =
  pd_payload :: bytes
  pd_end_stream :: bool
  pd_response :: response

record pending_ping =
  pg_deadline :: nat
  pg_response :: response

record stream_entry =
  en_class :: traffic_class
  en_receive_window :: u32
  en_inbox :: "frame list"
  en_inbox_bytes :: nat
  en_receiver :: "response option"
  en_opener :: "response option"
  en_pending_send :: "pending_send option"

definition stream_entry_new :: "traffic_class \<Rightarrow> u32 \<Rightarrow> stream_entry" where
  "stream_entry_new c w = \<lparr>en_class = c, en_receive_window = w, en_inbox = [], en_inbox_bytes = 0,
     en_receiver = None, en_opener = None, en_pending_send = None\<rparr>"

record actor =
  ac_state :: session_state
  ac_streams :: "(u32 \<times> stream_entry) list"
  ac_sequences :: "u32 \<rightharpoonup> u32"
  ac_write_waiters :: "((u32 \<times> u32) \<times> response) list"
  ac_pending_pings :: "(bytes \<times> pending_ping) list"
  ac_pending_goaway :: "response option"
  ac_next_ping_id :: u64
  ac_control_sequence :: u32
  ac_scheduler :: frame_scheduler
  ac_restart :: bool
  ac_awaiting_restart :: bool
  ac_generation :: u64
  ac_terminal_error :: "connection_error option"
  ac_shared_generation :: u64
  ac_replies :: "(response \<times> reply) list"
  ac_incoming :: "(u32 \<times> u64 \<times> bytes) list"
  ac_written :: "frame list"

type_synonym 'a act = "(actor, connection_error, 'a) mut"

definition actor_new :: "session_state \<Rightarrow> bool \<Rightarrow> actor" where
  "actor_new st restart = \<lparr>ac_state = st, ac_streams = [], ac_sequences = Map.empty, ac_write_waiters = [],
     ac_pending_pings = [], ac_pending_goaway = None, ac_next_ping_id = 0, ac_control_sequence = 1,
     ac_scheduler = scheduler_new MAX_SCHEDULED_BYTES, ac_restart = restart, ac_awaiting_restart = False,
     ac_generation = 0, ac_terminal_error = None, ac_shared_generation = 0, ac_replies = [], ac_incoming = [],
     ac_written = []\<rparr>"

record moment =
  mo_now :: nat
  mo_latest :: nat
  mo_alive :: bool
  mo_listening :: bool
  mo_restart :: "connection_error + session_state \<times> frame"
  mo_hello_written :: bool
  mo_written :: bool
  mo_order :: "u32 list \<Rightarrow> u32 list"

record service_json =
  js_open :: "bytes \<Rightarrow> bytes option"
  js_parse_open :: "bytes \<Rightarrow> bytes option"
  js_accept :: "u32 \<Rightarrow> bytes option"
  js_parse_accept :: "bytes \<Rightarrow> u32 option"

section \<open>Small steps\<close>

definition send_reply :: "response \<Rightarrow> reply \<Rightarrow> actor \<Rightarrow> actor" where
  "send_reply t r a = a\<lparr>ac_replies := ac_replies a @ [(t, r)]\<rparr>"

definition entry_of :: "actor \<Rightarrow> u32 \<Rightarrow> stream_entry option" where
  "entry_of a sid = map_of (ac_streams a) sid"

definition put_entry :: "u32 \<Rightarrow> stream_entry \<Rightarrow> actor \<Rightarrow> actor" where
  "put_entry sid e a = a\<lparr>ac_streams := AList.update sid e (ac_streams a)\<rparr>"

definition on_session :: "(session_state, protocol_error, 'a) mut \<Rightarrow> 'a act" where
  "on_session m a = (case m (ac_state a) of (r, st) \<Rightarrow>
     (map_err (\<lambda>e. ConnProtocol (FromSession e)) r, a\<lparr>ac_state := st\<rparr>))"

definition on_scheduler :: "(frame_scheduler, scheduler_error, unit) mut \<Rightarrow> unit act" where
  "on_scheduler m a = (case m (ac_scheduler a) of (r, sc) \<Rightarrow>
     (map_err (\<lambda>_. ConnQueueFull) r, a\<lparr>ac_scheduler := sc\<rparr>))"

definition next_sequence_for :: "u32 \<Rightarrow> actor \<Rightarrow> u32" where
  "next_sequence_for sid a = (if sid = 0 then ac_control_sequence a
     else (case ac_sequences a sid of None \<Rightarrow> 0 | Some n \<Rightarrow> n))"

definition set_sequence :: "u32 \<Rightarrow> u32 \<Rightarrow> actor \<Rightarrow> actor" where
  "set_sequence sid n a = (if sid = 0 then a\<lparr>ac_control_sequence := n\<rparr>
     else a\<lparr>ac_sequences := (ac_sequences a)(sid \<mapsto> n)\<rparr>)"

definition take_sequence :: "u32 \<Rightarrow> u32 act" where
  "take_sequence sid a =
     (let current = next_sequence_for sid a in
      case checked_add current 1 of
        None \<Rightarrow> (Inl (ConnProtocol Exhausted), set_sequence sid current a)
      | Some n \<Rightarrow> (Inr current, set_sequence sid n a))"

definition queue_frame :: "nat \<Rightarrow> command \<Rightarrow> u32 \<Rightarrow> bytes \<Rightarrow> bool \<Rightarrow> traffic_class \<Rightarrow> frame_context \<Rightarrow> unit act" where
  "queue_frame um c sid payload end_stream cls ctx a = sbind (take_sequence sid a) (\<lambda>sq a.
     let h = header_new c sid sq; h = (if end_stream then h\<lparr>h_flags := h_flags h OR FLAG_END_STREAM\<rparr> else h) in
     sbind (map_err (\<lambda>e. ConnProtocol (FromWire e)) (frame_new h payload), a) (\<lambda>frame a.
     sbind (on_session (process_outbound (f_header frame) ctx) a) (\<lambda>_.
     on_scheduler (enqueue um \<lparr>sf_class = (if for_command c = Control then Control else cls), sf_frame = frame\<rparr>))))"

definition queue_credit :: "nat \<Rightarrow> u32 \<Rightarrow> u32 \<Rightarrow> unit act" where
  "queue_credit um sid delta a = sbind (take_sequence sid a) (\<lambda>sq a.
     let h = (header_new Credit sid sq)\<lparr>h_credit_delta := delta\<rparr> in
     sbind (map_err (\<lambda>e. ConnProtocol (FromWire e)) (frame_new h []), a) (\<lambda>frame a.
     sbind (on_session (process_outbound (f_header frame) default_context) a) (\<lambda>_.
     on_scheduler (enqueue um \<lparr>sf_class = Control, sf_frame = frame\<rparr>))))"

definition has_send_credit :: "u32 \<Rightarrow> u32 \<Rightarrow> actor \<Rightarrow> bool" where
  "has_send_credit sid needed a =
     ((case stream_snapshot (ac_state a) sid of None \<Rightarrow> False | Some st \<Rightarrow> needed \<le> st_send_credit st)
      \<and> needed \<le> sn_send_credit (session_snapshot_of (ac_state a)))"

definition restore_consumed_credit :: "nat \<Rightarrow> frame \<Rightarrow> unit act" where
  "restore_consumed_credit um frame a =
     (let h = f_header frame in
      if h_command h \<noteq> Data \<or> h_payload_length h = 0 then (Inr (), a)
      else sbind (if h_flags h AND FLAG_END_STREAM = 0
            \<and> (case stream_snapshot (ac_state a) (h_stream_id h) of None \<Rightarrow> False | Some st \<Rightarrow> st_phase st = StreamAccepted)
          then queue_credit um (h_stream_id h) (h_payload_length h) a else (Inr (), a))
        (\<lambda>_. queue_credit um 0 (h_payload_length h)))"

section \<open>Failing requests\<close>

definition entry_responses :: "stream_entry \<Rightarrow> response list" where
  "entry_responses e = (case en_opener e of None \<Rightarrow> [] | Some t \<Rightarrow> [t]) @
     (case en_receiver e of None \<Rightarrow> [] | Some t \<Rightarrow> [t]) @
     (case en_pending_send e of None \<Rightarrow> [] | Some p \<Rightarrow> [pd_response p])"

definition silence :: "stream_entry \<Rightarrow> stream_entry" where
  "silence e = e\<lparr>en_opener := None, en_receiver := None, en_pending_send := None\<rparr>"

definition fail_responses :: "connection_error \<Rightarrow> response list \<Rightarrow> actor \<Rightarrow> actor" where
  "fail_responses e ts a = fold (\<lambda>t. send_reply t (Failed e)) ts a"

text \<open>\<open>respond_error\<close>\<close>

definition respond_error :: "actor_command \<Rightarrow> connection_error \<Rightarrow> actor \<Rightarrow> actor" where
  "respond_error c e a = (case command_response c of None \<Rightarrow> a | Some t \<Rightarrow> send_reply t (Failed e) a)"

definition retire_stream :: "u32 \<Rightarrow> connection_error \<Rightarrow> actor \<Rightarrow> actor" where
  "retire_stream sid e a =
     (let a = (case entry_of a sid of
            None \<Rightarrow> a
          | Some en \<Rightarrow> fail_responses e (entry_responses en) (a\<lparr>ac_streams := AList.delete sid (ac_streams a)\<rparr>));
          waiting = map snd (filter (\<lambda>w. fst (fst w) = sid) (ac_write_waiters a)) in
      fail_responses e waiting
        (a\<lparr>ac_write_waiters := filter (\<lambda>w. fst (fst w) \<noteq> sid) (ac_write_waiters a)\<rparr>))"

definition expire_pings :: "nat \<Rightarrow> actor \<Rightarrow> actor" where
  "expire_pings now a =
     fail_responses ConnPingTimedOut (map (pg_response \<circ> snd) (filter (\<lambda>p. pg_deadline (snd p) \<le> now) (ac_pending_pings a)))
       (a\<lparr>ac_pending_pings := filter (\<lambda>p. now < pg_deadline (snd p)) (ac_pending_pings a)\<rparr>)"

definition fail_all :: "moment \<Rightarrow> connection_error \<Rightarrow> actor \<Rightarrow> actor" where
  "fail_all mo e a =
     (let a = (if mo_alive mo \<and> ac_terminal_error a = None then a\<lparr>ac_terminal_error := Some e\<rparr> else a) in
      fail_responses e (concat (map (entry_responses \<circ> snd) (ac_streams a)) @ map snd (ac_write_waiters a) @
          map (pg_response \<circ> snd) (ac_pending_pings a) @ (case ac_pending_goaway a of None \<Rightarrow> [] | Some t \<Rightarrow> [t]))
        (a\<lparr>ac_streams := map (\<lambda>(sid, en). (sid, silence en)) (ac_streams a), ac_write_waiters := [],
           ac_pending_pings := [], ac_pending_goaway := None\<rparr>))"

definition fail_streams :: "connection_error \<Rightarrow> actor \<Rightarrow> actor" where
  "fail_streams e a =
     fail_responses e (concat (map (entry_responses \<circ> snd) (ac_streams a)) @ map snd (ac_write_waiters a) @
         map (pg_response \<circ> snd) (ac_pending_pings a))
       (a\<lparr>ac_streams := [], ac_sequences := Map.empty, ac_write_waiters := [], ac_pending_pings := [],
          ac_control_sequence := 1, ac_next_ping_id := 0, ac_scheduler := scheduler_new MAX_SCHEDULED_BYTES\<rparr>)"

definition begin_restart :: "connection_error \<Rightarrow> actor \<Rightarrow> bool \<times> actor" where
  "begin_restart e a = (if \<not> ac_restart a then (False, a)
     else (True, (fail_streams e a)\<lparr>ac_awaiting_restart := True\<rparr>))"

definition restart_session :: "moment \<Rightarrow> unit act" where
  "restart_session mo a = sbind (mo_restart mo, a) (\<lambda>(st, hello_response) a.
     sbind (ok_or (checked_add (ac_generation a) 1) (ConnProtocol Exhausted), a) (\<lambda>g a.
     let a = a\<lparr>ac_generation := g\<rparr>;
         a = (if mo_alive mo then a\<lparr>ac_shared_generation := g\<rparr> else a);
         a = (fail_streams ConnDisconnected a)\<lparr>ac_state := st, ac_awaiting_restart := False\<rparr> in
     if mo_hello_written mo then (Inr (), a\<lparr>ac_written := ac_written a @ [hello_response]\<rparr>)
     else (Inr (), fail_streams ConnTransport (a\<lparr>ac_awaiting_restart := True\<rparr>))))"

section \<open>Streams\<close>

definition accept_incoming_open :: "service_json \<Rightarrow> moment \<Rightarrow> frame \<Rightarrow> unit act" where
  "accept_incoming_open js mo frame a =
     sbind (ok_or (js_parse_open js (f_payload frame)) ConnInvalidService, a) (\<lambda>service a.
     let sid = h_stream_id (f_header frame); a = put_entry sid (stream_entry_new Bulk 0) a in
     if \<not> mo_alive mo then (Inl ConnDisconnected, a)
     else if \<not> mo_listening mo then (Inl ConnDisconnected, a)
     else (Inr (), a\<lparr>ac_incoming := ac_incoming a @ [(sid, ac_generation a, service)]\<rparr>))"

definition complete_open :: "nat \<Rightarrow> u32 \<Rightarrow> unit act" where
  "complete_open um sid a = (case entry_of a sid of
     None \<Rightarrow> (Inl (ConnUnknownStream sid), a)
   | Some en \<Rightarrow> sbind (queue_credit um sid (en_receive_window en) a) (\<lambda>_ a.
       case entry_of a sid of
         None \<Rightarrow> (Inr (), a)
       | Some en \<Rightarrow> (case en_opener en of
           None \<Rightarrow> (Inr (), a)
         | Some t \<Rightarrow> (Inr (), send_reply t (Opened sid) (put_entry sid (en\<lparr>en_opener := None\<rparr>) a)))))"

definition reject_open :: "frame \<Rightarrow> unit act" where
  "reject_open frame a =
     (let sid = h_stream_id (f_header frame);
          a = (case entry_of a sid of
              None \<Rightarrow> a
            | Some en \<Rightarrow> (case en_opener en of
                None \<Rightarrow> a
              | Some t \<Rightarrow> send_reply t (Failed (ConnRejected (f_payload frame))) (put_entry sid (en\<lparr>en_opener := None\<rparr>) a))) in
      (Inr (), a\<lparr>ac_streams := AList.delete sid (ac_streams a)\<rparr>))"

text \<open>Queues DATA for which there is credit; the request is answered when the frame is written.\<close>

definition queue_data :: "nat \<Rightarrow> u32 \<Rightarrow> bytes \<Rightarrow> bool \<Rightarrow> traffic_class \<Rightarrow> response \<Rightarrow> unit act" where
  "queue_data um sid payload end_stream cls t a =
     (let sq = next_sequence_for sid a in
      case queue_frame um Data sid payload end_stream cls default_context a of
        (Inr _, a) \<Rightarrow> (Inr (), a\<lparr>ac_write_waiters := AList.update (sid, sq) t (ac_write_waiters a)\<rparr>)
      | (Inl e, a) \<Rightarrow> (Inl e, send_reply t (Failed e) a))"

definition send_or_wait :: "nat \<Rightarrow> u32 \<Rightarrow> bytes \<Rightarrow> bool \<Rightarrow> response \<Rightarrow> unit act" where
  "send_or_wait um sid payload end_stream t a = (case entry_of a sid of
     None \<Rightarrow> (Inl (ConnUnknownStream sid), a)
   | Some en \<Rightarrow>
       if en_pending_send en \<noteq> None \<or> list_ex (\<lambda>w. fst (fst w) = sid) (ac_write_waiters a)
       then (Inl (ConnSendPending sid), send_reply t (Failed (ConnSendPending sid)) a)
       else sbind (ok_or (u32_try_from (length payload)) (ConnProtocol (FromWire (PayloadLengthOverflow (length payload)))), a) (\<lambda>needed a.
         if has_send_credit sid needed a then queue_data um sid payload end_stream (en_class en) t a
         else (Inr (), put_entry sid (en\<lparr>en_pending_send :=
           Some \<lparr>pd_payload = payload, pd_end_stream = end_stream, pd_response = t\<rparr>\<rparr>) a)))"

definition flush_one :: "nat \<Rightarrow> u32 \<Rightarrow> unit act" where
  "flush_one um sid a = (case entry_of a sid of
     None \<Rightarrow> (Inr (), a)
   | Some en \<Rightarrow> (case en_pending_send en of
       None \<Rightarrow> (Inr (), a)
     | Some p \<Rightarrow>
         let a = put_entry sid (en\<lparr>en_pending_send := None\<rparr>) a in
         sbind (ok_or (u32_try_from (length (pd_payload p))) (ConnProtocol (FromWire (PayloadLengthOverflow (length (pd_payload p))))), a) (\<lambda>needed a.
         if \<not> has_send_credit sid needed a then (Inr (), put_entry sid en a)
         else queue_data um sid (pd_payload p) (pd_end_stream p) (en_class en) (pd_response p) a)))"

text \<open>
  \<open>flush_pending\<close>: CREDIT for the connection walks over all streams. The numbers of streams are never
  zero, so the recursive calls are those for one stream.
\<close>

definition flush_pending :: "nat \<Rightarrow> moment \<Rightarrow> u32 \<Rightarrow> unit act" where
  "flush_pending um mo sid a = (if sid = 0 then exec_all (flush_one um) (mo_order mo (map fst (ac_streams a))) a
     else flush_one um sid a)"

definition is_terminal :: "frame \<Rightarrow> bool" where
  "is_terminal frame = (h_command (f_header frame) = Close \<or> h_command (f_header frame) = Reset)"

definition receive_or_wait :: "nat \<Rightarrow> u32 \<Rightarrow> response \<Rightarrow> unit act" where
  "receive_or_wait um sid t a = (case entry_of a sid of
     None \<Rightarrow> (Inl (ConnUnknownStream sid), a)
   | Some en \<Rightarrow>
       if en_receiver en \<noteq> None then (Inl (ConnReceivePending sid), send_reply t (Failed (ConnReceivePending sid)) a)
       else (case en_inbox en of
         [] \<Rightarrow> (Inr (), put_entry sid (en\<lparr>en_receiver := Some t\<rparr>) a)
       | frame # rest \<Rightarrow>
           let a = put_entry sid (en\<lparr>en_inbox := rest, en_inbox_bytes := en_inbox_bytes en - length (f_payload frame)\<rparr>) a in
           sbind (restore_consumed_credit um frame a) (\<lambda>_ a.
           let a = send_reply t (Received frame) a in
           (Inr (), if is_terminal frame then retire_stream sid ConnDisconnected a else a))))"

definition deliver :: "nat \<Rightarrow> frame \<Rightarrow> unit act" where
  "deliver um frame a =
     (let sid = h_stream_id (f_header frame) in
      case entry_of a sid of
        None \<Rightarrow> (Inl (ConnUnknownStream sid), a)
      | Some en \<Rightarrow> (case en_receiver en of
          Some t \<Rightarrow>
            sbind (restore_consumed_credit um frame (put_entry sid (en\<lparr>en_receiver := None\<rparr>) a)) (\<lambda>_ a.
            let a = send_reply t (Received frame) a in
            (Inr (), if is_terminal frame then retire_stream sid ConnDisconnected a else a))
        | None \<Rightarrow>
            let total = en_inbox_bytes en + length (f_payload frame) in
            if um < total then (Inl ConnQueueFull, a)
            else if unat (en_receive_window en) < total
              then (Inl ConnQueueFull, put_entry sid (en\<lparr>en_inbox_bytes := total\<rparr>) a)
            else (Inr (), put_entry sid (en\<lparr>en_inbox_bytes := total, en_inbox := en_inbox en @ [frame]\<rparr>) a)))"

section \<open>Commands\<close>

text \<open>The commands that fail without effect on a stream that is gone, and those that answer with the outcome of queueing.\<close>

definition on_stream :: "u32 \<Rightarrow> response \<Rightarrow> (stream_entry \<Rightarrow> unit act) \<Rightarrow> unit act" where
  "on_stream sid t f a = (case entry_of a sid of
     None \<Rightarrow> (Inr (), send_reply t (Failed ConnDisconnected) a)
   | Some en \<Rightarrow> f en a)"

definition answer_with :: "response \<Rightarrow> (connection_error + unit) \<times> actor \<Rightarrow> (connection_error + unit) \<times> actor" where
  "answer_with t r = (fst r, send_reply t (case fst r of Inl e \<Rightarrow> Failed e | Inr _ \<Rightarrow> Done) (snd r))"

definition ping_payload :: "u64 \<Rightarrow> u64 \<Rightarrow> bytes" where
  "ping_payload generation ping_id = le_bytes 8 generation @ le_bytes 8 ping_id"

definition command_ping :: "nat \<Rightarrow> moment \<Rightarrow> u64 \<Rightarrow> nat \<Rightarrow> response \<Rightarrow> unit act" where
  "command_ping um mo generation timeout t a =
     (if MAX_PENDING_PINGS \<le> length (ac_pending_pings a) then (Inr (), send_reply t (Failed ConnQueueFull) a)
      else
        let ping_id = ac_next_ping_id a; payload = ping_payload generation ping_id in
        sbind (ok_or (checked_add ping_id 1) (ConnProtocol Exhausted), a) (\<lambda>n a.
        let a = a\<lparr>ac_next_ping_id := n\<rparr> in
        if mo_latest mo < mo_now mo + timeout then (Inr (), send_reply t (Failed (ConnProtocol Exhausted)) a)
        else (case queue_frame um Ping 0 payload False Control default_context a of
            (Inl e, a) \<Rightarrow> (Inl e, send_reply t (Failed e) a)
          | (Inr _, a) \<Rightarrow> (Inr (), a\<lparr>ac_pending_pings :=
              AList.update payload \<lparr>pg_deadline = mo_now mo + timeout, pg_response = t\<rparr> (ac_pending_pings a)\<rparr>))))"

definition command_open :: "nat \<Rightarrow> service_json \<Rightarrow> bytes \<Rightarrow> u32 \<Rightarrow> traffic_class \<Rightarrow> response \<Rightarrow> unit act" where
  "command_open um js service window cls t a =
     sbind (on_session allocate_stream_id a) (\<lambda>sid a.
     let a = put_entry sid ((stream_entry_new cls window)\<lparr>en_opener := Some t\<rparr>) a in
     sbind (ok_or (js_open js service) ConnInvalidService, a) (\<lambda>payload.
     queue_frame um Open sid payload False cls default_context))"

fun handle_command :: "nat \<Rightarrow> service_json \<Rightarrow> moment \<Rightarrow> actor_command \<Rightarrow> unit act" where
  "handle_command um js mo (CmdPing generation timeout t) a = command_ping um mo generation timeout t a"
| "handle_command um js mo (CmdOpen _ service window cls t) a = command_open um js service window cls t a"
| "handle_command um js mo (CmdAccept _ sid window cls t) a = on_stream sid t (\<lambda>en a.
     sbind (ok_or (js_accept js window) ConnInvalidService,
         put_entry sid (en\<lparr>en_class := cls, en_receive_window := window\<rparr>) a) (\<lambda>payload a.
     answer_with t (queue_frame um Accept sid payload False Control (context_accept window) a))) a"
| "handle_command um js mo (CmdReject _ sid reason t) a = on_stream sid t (\<lambda>_ a.
     answer_with t (queue_frame um Reject sid reason False Control default_context a)) a"
| "handle_command um js mo (CmdSendData _ sid payload end_stream t) a = on_stream sid t (\<lambda>_.
     send_or_wait um sid payload end_stream t) a"
| "handle_command um js mo (CmdReceive _ sid t) a = on_stream sid t (\<lambda>_. receive_or_wait um sid t) a"
| "handle_command um js mo (CmdClose _ sid t) a = on_stream sid t (\<lambda>_ a.
     answer_with t (queue_frame um Close sid [] False Control default_context a)) a"
| "handle_command um js mo (CmdReset _ sid reason t) a = on_stream sid t (\<lambda>_ a.
     answer_with t (queue_frame um Reset sid reason False Control default_context a)) a"
| "handle_command um js mo (CmdCancelReceive _ sid t) a = on_stream sid t (\<lambda>en a.
     (Inr (), send_reply t Done (case en_receiver en of
         None \<Rightarrow> a
       | Some r \<Rightarrow> send_reply r (Failed ConnDisconnected) (put_entry sid (en\<lparr>en_receiver := None\<rparr>) a)))) a"
| "handle_command um js mo (CmdGoAway _ t) a =
     (if ac_pending_goaway a \<noteq> None then (Inr (), send_reply t (Failed ConnQueueFull) a)
      else sbind (queue_frame um GoAway 0 [] False Control default_context a) (\<lambda>_ a.
        (Inr (), a\<lparr>ac_pending_goaway := Some t\<rparr>)))"
| "handle_command um js mo CmdShutdown a = (Inr (), a)"

definition handle_current_command :: "nat \<Rightarrow> service_json \<Rightarrow> moment \<Rightarrow> actor_command \<Rightarrow> unit act" where
  "handle_current_command um js mo c a =
     (if ac_awaiting_restart a \<and> c \<noteq> CmdShutdown then (Inr (), respond_error c ConnDisconnected a)
      else if (case command_generation c of None \<Rightarrow> False | Some g \<Rightarrow> g \<noteq> ac_generation a)
        then (Inr (), respond_error c ConnDisconnected a)
      else handle_command um js mo c a)"

section \<open>Frames of the peer\<close>

definition inbound_context :: "service_json \<Rightarrow> frame \<Rightarrow> connection_error + frame_context" where
  "inbound_context js frame = (if h_command (f_header frame) = Accept
     then rbind (ok_or (js_parse_accept js (f_payload frame)) ConnInvalidService) (\<lambda>w. Inr (context_accept w))
     else Inr default_context)"

definition inbound_goaway :: "nat \<Rightarrow> unit act" where
  "inbound_goaway um a = (case ac_pending_goaway a of
     Some t \<Rightarrow> (Inl ConnDisconnected, send_reply t Done (a\<lparr>ac_pending_goaway := None\<rparr>))
   | None \<Rightarrow>
       if ac_restart a then
         let sq = ac_control_sequence a;
             a = (fail_streams ConnDisconnected a)\<lparr>ac_control_sequence := sq, ac_awaiting_restart := True\<rparr> in
         queue_frame um GoAway 0 [] False Control default_context a
       else (Inl ConnDisconnected, a))"

definition inbound_pong :: "frame \<Rightarrow> unit act" where
  "inbound_pong frame a = (case map_of (ac_pending_pings a) (f_payload frame) of
     None \<Rightarrow> (Inr (), a)
   | Some p \<Rightarrow> (Inr (), send_reply (pg_response p) Done
       (a\<lparr>ac_pending_pings := AList.delete (f_payload frame) (ac_pending_pings a)\<rparr>)))"

definition dispatch_inbound :: "nat \<Rightarrow> service_json \<Rightarrow> moment \<Rightarrow> frame \<Rightarrow> unit act" where
  "dispatch_inbound um js mo frame a = (case h_command (f_header frame) of
     Open \<Rightarrow> accept_incoming_open js mo frame a
   | Accept \<Rightarrow> complete_open um (h_stream_id (f_header frame)) a
   | Reject \<Rightarrow> reject_open frame a
   | Credit \<Rightarrow> flush_pending um mo (h_stream_id (f_header frame)) a
   | Data \<Rightarrow> deliver um frame a
   | Close \<Rightarrow> deliver um frame a
   | Reset \<Rightarrow> deliver um frame a
   | Ping \<Rightarrow> queue_frame um Pong 0 (f_payload frame) False Control default_context a
   | Pong \<Rightarrow> inbound_pong frame a
   | GoAway \<Rightarrow> inbound_goaway um a
   | Error \<Rightarrow> (Inl ConnDisconnected, a)
   | c \<Rightarrow> (Inl (ConnProtocol (AfterHandshake c)), a))"

definition handle_inbound :: "nat \<Rightarrow> service_json \<Rightarrow> moment \<Rightarrow> frame \<Rightarrow> unit act" where
  "handle_inbound um js mo frame a =
     (let h = f_header frame; is_hello = (h_command h = Hello \<and> h_stream_id h = 0) in
      if is_hello \<and> ac_restart a then restart_session mo a
      else if \<not> is_hello \<and> ac_awaiting_restart a then (Inr (), a)
      else
        let discard = (h_command h = Data \<and> (case stream_snapshot (ac_state a) (h_stream_id h) of
              None \<Rightarrow> False | Some st \<Rightarrow> st_phase st = StreamClosed \<or> st_phase st = StreamReset)) in
        sbind (inbound_context js frame, a) (\<lambda>ctx a.
        sbind (on_session (process_inbound h ctx) a) (\<lambda>_ a.
        if discard then restore_consumed_credit um frame a else dispatch_inbound um js mo frame a)))"

section \<open>The loop\<close>

datatype 'a polled = Got 'a | Empty | Hung

datatype inbound_event = InFrame frame | InFailed

record turn =
  tu_moment :: moment
  tu_command :: "actor_command polled"
  tu_inbound :: "inbound_event polled"
  tu_idle :: "actor_command polled"

text \<open>After an error the actor waits for a new session, or it stops: the flag says whether the loop goes on.\<close>

definition recover :: "moment \<Rightarrow> (connection_error + unit) \<times> actor \<Rightarrow> bool \<times> actor" where
  "recover mo r = (case r of
     (Inr _, a) \<Rightarrow> (True, a)
   | (Inl e, a) \<Rightarrow> (case begin_restart e a of
       (True, a) \<Rightarrow> (True, a)
     | (False, a) \<Rightarrow> (False, fail_all mo e a)))"

definition command_phase :: "nat \<Rightarrow> service_json \<Rightarrow> moment \<Rightarrow> actor_command polled \<Rightarrow> actor \<Rightarrow> bool \<times> actor" where
  "command_phase um js mo polled a = (case polled of
     Hung \<Rightarrow> (False, a)
   | Empty \<Rightarrow> (True, a)
   | Got c \<Rightarrow> if c = CmdShutdown then (False, a) else recover mo (handle_current_command um js mo c a))"

definition inbound_phase :: "nat \<Rightarrow> service_json \<Rightarrow> moment \<Rightarrow> inbound_event polled \<Rightarrow> actor \<Rightarrow> bool \<times> actor" where
  "inbound_phase um js mo polled a = (case polled of
     Hung \<Rightarrow> (False, fail_all mo ConnDisconnected a)
   | Empty \<Rightarrow> (True, a)
   | Got (InFrame frame) \<Rightarrow> recover mo (handle_inbound um js mo frame a)
   | Got InFailed \<Rightarrow> (False, fail_all mo ConnTransport a))"

definition write_phase :: "nat \<Rightarrow> moment \<Rightarrow> actor \<Rightarrow> bool \<times> actor" where
  "write_phase um mo a = (case dequeue um (ac_scheduler a) of
     (None, sc) \<Rightarrow> (True, a\<lparr>ac_scheduler := sc\<rparr>)
   | (Some item, sc) \<Rightarrow>
       let a = a\<lparr>ac_scheduler := sc\<rparr>; h = f_header (sf_frame item); key = (h_stream_id h, h_sequence h);
           (continue, a) = (if \<not> mo_written mo then recover mo (Inl ConnTransport, a)
             else let a = a\<lparr>ac_written := ac_written a @ [sf_frame item]\<rparr> in
               (True, case map_of (ac_write_waiters a) key of
                  None \<Rightarrow> a
                | Some t \<Rightarrow> send_reply t Done (a\<lparr>ac_write_waiters := AList.delete key (ac_write_waiters a)\<rparr>))) in
       (continue, if continue \<and> is_terminal (sf_frame item)
          then retire_stream (h_stream_id h) ConnDisconnected a else a))"

definition actor_turn :: "nat \<Rightarrow> service_json \<Rightarrow> turn \<Rightarrow> actor \<Rightarrow> bool \<times> actor" where
  "actor_turn um js tu a =
     (let mo = tu_moment tu; a = expire_pings (mo_now mo) a in
      case command_phase um js mo (tu_command tu) a of
        (False, a) \<Rightarrow> (False, a)
      | (True, a) \<Rightarrow> (case inbound_phase um js mo (tu_inbound tu) a of
          (False, a) \<Rightarrow> (False, a)
        | (True, a) \<Rightarrow>
            (case (if tu_command tu = Empty \<and> tu_inbound tu = Empty \<and> scheduler_is_empty (ac_scheduler a)
                then command_phase um js mo (tu_idle tu) a else (True, a)) of
              (False, a) \<Rightarrow> (False, a)
            | (True, a) \<Rightarrow> write_phase um mo a)))"

text \<open>The turns of a connection, until the loop ends and every request that is left fails.\<close>

fun actor_run :: "nat \<Rightarrow> service_json \<Rightarrow> turn list \<Rightarrow> actor \<Rightarrow> bool \<times> actor" where
  "actor_run um js [] a = (True, a)"
| "actor_run um js (tu # tus) a = (case actor_turn um js tu a of
     (True, a) \<Rightarrow> actor_run um js tus a
   | (False, a) \<Rightarrow> (False, fail_all (tu_moment tu) ConnDisconnected a))"

section \<open>An example\<close>

abbreviation usize64 :: nat where
  "usize64 \<equiv> 18446744073709551615"

definition demo_session :: session_state where
  "demo_session = snd (exec_all session_exec demo_handshake (session_new demo_config))"

definition demo_moment :: moment where
  "demo_moment = \<lparr>mo_now = 0, mo_latest = 100, mo_alive = True, mo_listening = True, mo_restart = Inl ConnDisconnected,
     mo_hello_written = True, mo_written = True, mo_order = (\<lambda>ids. ids)\<rparr>"

definition demo_json :: service_json where
  "demo_json = \<lparr>js_open = Some, js_parse_open = Some, js_accept = (\<lambda>_. None), js_parse_accept = (\<lambda>_. None)\<rparr>"

definition demo_turn :: "actor_command \<Rightarrow> turn" where
  "demo_turn c = \<lparr>tu_moment = demo_moment, tu_command = Got c, tu_inbound = Empty, tu_idle = Empty\<rparr>"

lemma fail_responses_conv: "fail_responses e ts a = a\<lparr>ac_replies := ac_replies a @ map (\<lambda>t. (t, Failed e)) ts\<rparr>"
  by (induction ts arbitrary: a) (simp_all add: fail_responses_def send_reply_def)

end
