(* ===== verification/Actor_Requests.thy ===== *)
theory Actor_Requests
  imports Actor "HOL-Library.Multiset"
begin

text \<open>
  The requests of the connection actor: every handler spends the requests that it is given, by answering
  them once or by keeping them for later. \<open>spends\<close> is the bookkeeping, with one rule for every way of
  composing calls and one lemma for every operation of \<open>actor.rs\<close>.
\<close>

section \<open>Requests and answers\<close>

text \<open>The requests that wait in an actor and those it has answered, as one multiset.\<close>

definition held :: "('v \<Rightarrow> response list) \<Rightarrow> ('k \<times> 'v) list \<Rightarrow> response multiset" where
  "held f xs = mset (concat (map (f \<circ> snd) xs))"

lemma held_simps [simp]: "held f [] = {#}" "held f (x # xs) = mset (f (snd x)) + held f xs"
  by (simp_all add: held_def)

lemma held_update_Some: "map_of xs k = Some e \<Longrightarrow> held f (AList.update k v xs) + mset (f e) = held f xs + mset (f v)"
  by (induction xs) (auto split: if_split_asm)

lemma held_update_None: "map_of xs k = None \<Longrightarrow> held f (AList.update k v xs) = held f xs + mset (f v)"
  by (induction xs) auto

lemma held_update: "held f (AList.update k v xs) \<subseteq># held f xs + mset (f v)"
proof (cases "map_of xs k")
  case (Some e)
  then show ?thesis using held_update_Some[OF Some, of f v] by (metis mset_subset_eq_add_left)
qed (simp add: held_update_None)

lemma held_filter: "held f (filter P xs) + held f (filter (\<lambda>x. \<not> P x) xs) = held f xs"
  by (induction xs) auto

lemma held_filter_subset: "held f (filter P xs) \<subseteq># held f xs"
  using held_filter[of f P xs] by (metis mset_subset_eq_add_left)

lemma held_delete: "held f (AList.delete k xs) \<subseteq># held f xs"
  unfolding AList.delete_eq by (rule held_filter_subset)

lemma held_delete_Some: "map_of xs k = Some e \<Longrightarrow> held f (AList.delete k xs) + mset (f e) \<subseteq># held f xs"
proof (induction xs)
  case (Cons x xs)
  show ?case
  proof (cases "fst x = k")
    case True
    then show ?thesis using Cons.prems held_delete[of f k xs] by (cases x) (auto simp: add.commute)
  next
    case False
    then show ?thesis using Cons by (cases x) (auto simp: add.assoc)
  qed
qed simp

definition requests :: "actor \<Rightarrow> response multiset" where
  "requests a = held entry_responses (ac_streams a) + held (\<lambda>t. [t]) (ac_write_waiters a) +
     held (\<lambda>p. [pg_response p]) (ac_pending_pings a) + mset_set (set_option (ac_pending_goaway a))"

definition accounts :: "actor \<Rightarrow> response multiset" where
  "accounts a = requests a + mset (map fst (ac_replies a))"

lemma requests_upd [simp]:
  "requests (a\<lparr>ac_state := st\<rparr>) = requests a" "requests (a\<lparr>ac_sequences := m\<rparr>) = requests a"
  "requests (a\<lparr>ac_next_ping_id := n\<rparr>) = requests a" "requests (a\<lparr>ac_control_sequence := c\<rparr>) = requests a"
  "requests (a\<lparr>ac_scheduler := sc\<rparr>) = requests a" "requests (a\<lparr>ac_awaiting_restart := b\<rparr>) = requests a"
  "requests (a\<lparr>ac_generation := g\<rparr>) = requests a" "requests (a\<lparr>ac_terminal_error := e\<rparr>) = requests a"
  "requests (a\<lparr>ac_shared_generation := g\<rparr>) = requests a" "requests (a\<lparr>ac_replies := rs\<rparr>) = requests a"
  "requests (a\<lparr>ac_incoming := i\<rparr>) = requests a" "requests (a\<lparr>ac_written := w\<rparr>) = requests a"
  by (simp_all add: requests_def)

lemma accounts_upd [simp]:
  "accounts (a\<lparr>ac_state := st\<rparr>) = accounts a" "accounts (a\<lparr>ac_sequences := m\<rparr>) = accounts a"
  "accounts (a\<lparr>ac_next_ping_id := n\<rparr>) = accounts a" "accounts (a\<lparr>ac_control_sequence := c\<rparr>) = accounts a"
  "accounts (a\<lparr>ac_scheduler := sc\<rparr>) = accounts a" "accounts (a\<lparr>ac_awaiting_restart := b\<rparr>) = accounts a"
  "accounts (a\<lparr>ac_generation := g\<rparr>) = accounts a" "accounts (a\<lparr>ac_terminal_error := e\<rparr>) = accounts a"
  "accounts (a\<lparr>ac_shared_generation := g\<rparr>) = accounts a"
  "accounts (a\<lparr>ac_incoming := i\<rparr>) = accounts a" "accounts (a\<lparr>ac_written := w\<rparr>) = accounts a"
  by (simp_all add: accounts_def)

lemma accounts_reply [simp]: "accounts (send_reply t r a) = add_mset t (accounts a)"
  by (simp add: accounts_def send_reply_def)

lemma accounts_fail [simp]: "accounts (fail_responses e ts a) = accounts a + mset ts"
  by (induction ts arbitrary: a) (simp_all add: fail_responses_def)

lemma accounts_put_entry:
  assumes "entry_of a sid = Some en"
  shows "accounts (put_entry sid en' a) + mset (entry_responses en) = accounts a + mset (entry_responses en')"
  using held_update_Some[OF assms[unfolded entry_of_def], of entry_responses en']
  by (simp add: accounts_def requests_def put_entry_def ac_simps)

lemma accounts_put_same:
  "entry_of a sid = Some en \<Longrightarrow> entry_responses en' = entry_responses en \<Longrightarrow> accounts (put_entry sid en' a) = accounts a"
  using accounts_put_entry[of a sid en en'] by simp

lemma accounts_put_less:
  "entry_of a sid = Some en \<Longrightarrow> mset (entry_responses en) = add_mset t (mset (entry_responses en')) \<Longrightarrow>
   add_mset t (accounts (put_entry sid en' a)) = accounts a"
  using accounts_put_entry[of a sid en en'] by simp

lemma accounts_put_more:
  "entry_of a sid = Some en \<Longrightarrow> mset (entry_responses en') = add_mset t (mset (entry_responses en)) \<Longrightarrow>
   accounts (put_entry sid en' a) = add_mset t (accounts a)"
  using accounts_put_entry[of a sid en en'] by simp

lemma accounts_put_new: "accounts (put_entry sid en a) \<subseteq># accounts a + mset (entry_responses en)"
  using held_update[of entry_responses sid en "ac_streams a"]
  by (simp add: accounts_def requests_def put_entry_def ac_simps)

text \<open>\<open>spends M a r\<close>: a call on \<open>a\<close> that receives the requests \<open>M\<close> answers or holds none beyond them.\<close>

definition spends :: "response multiset \<Rightarrow> actor \<Rightarrow> 'b \<times> actor \<Rightarrow> bool" where
  "spends M a r = (accounts (snd r) \<subseteq># accounts a + M)"

named_theorems spends_intros \<open>rules for the requests that calls answer or hold\<close>

lemma spends_sbind [spends_intros]:
  assumes "spends {#} a m" "\<And>x a'. m = (Inr x, a') \<Longrightarrow> spends M a' (f x a')"
  shows "spends M a (sbind m f)"
proof (cases m)
  case (Pair r a')
  show ?thesis
  proof (cases r)
    case (Inl e)
    then show ?thesis using Pair assms(1) by (auto simp: spends_def intro: subset_mset.order_trans)
  next
    case (Inr x)
    have "accounts (snd (f x a')) \<subseteq># accounts a' + M" using assms(2) Pair Inr by (simp add: spends_def)
    also have "\<dots> \<subseteq># accounts a + M" using assms(1) Pair by (simp add: spends_def)
    finally show ?thesis using Pair Inr by (simp add: spends_def)
  qed
qed

lemma spends_pair [spends_intros]: "spends M a (r, a)"
  by (simp add: spends_def)

lemma spends_if [spends_intros]: "(c \<Longrightarrow> spends M a r) \<Longrightarrow> (\<not> c \<Longrightarrow> spends M a r') \<Longrightarrow> spends M a (if c then r else r')"
  by simp

lemma spends_option [spends_intros]:
  "(v = None \<Longrightarrow> spends M a r) \<Longrightarrow> (\<And>x. v = Some x \<Longrightarrow> spends M a (f x)) \<Longrightarrow>
   spends M a (case v of None \<Rightarrow> r | Some x \<Rightarrow> f x)"
  by (cases v) simp_all

lemma spends_le: "spends {#} a r \<Longrightarrow> spends M a r"
  by (auto simp: spends_def intro: subset_mset.order_trans)

lemma spends_via:
  assumes "spends M' a' r" "accounts a' + M' \<subseteq># accounts a + M"
  shows "spends M a r"
  using assms by (auto simp: spends_def intro: subset_mset.order_trans)

lemma accounts_queue [simp]:
  "accounts (snd (take_sequence sid a)) = accounts a" "accounts (snd (on_session m a)) = accounts a"
  "accounts (snd (on_scheduler m' a)) = accounts a"
  by (auto simp: take_sequence_def set_sequence_def on_session_def on_scheduler_def Let_def split: option.splits prod.splits)

lemma spends_queue [spends_intros]:
  "spends {#} a (take_sequence sid a)" "spends {#} a (on_session m a)" "spends {#} a (on_scheduler m' a)"
  by (simp_all add: spends_def)

lemma spends_queue_frame [spends_intros]:
  "spends {#} a (queue_frame um c sid payload e cls ctx a)" "spends {#} a (queue_credit um sid delta a)"
  unfolding queue_frame_def queue_credit_def Let_def by (intro spends_intros)+

lemma spends_restore [spends_intros]: "spends {#} a (restore_consumed_credit um frame a)"
  unfolding restore_consumed_credit_def Let_def by (intro spends_intros)

lemmas account_simps = fail_responses_conv accounts_def requests_def held_def comp_def ac_simps

lemma accounts_retire: "accounts (retire_stream sid e a) \<subseteq># accounts a"
proof -
  have w: "accounts (fail_responses e (map snd (filter (\<lambda>w. fst (fst w) = sid) (ac_write_waiters a)))
        (a\<lparr>ac_write_waiters := filter (\<lambda>w. fst (fst w) \<noteq> sid) (ac_write_waiters a)\<rparr>)) = accounts a" for a
    using held_filter[of "\<lambda>t. [t]" "\<lambda>w. fst (fst w) = sid" "ac_write_waiters a"] by (simp add: account_simps)
  have "accounts (fail_responses e (entry_responses en) (a\<lparr>ac_streams := AList.delete sid (ac_streams a)\<rparr>)) \<subseteq># accounts a"
    if "entry_of a sid = Some en" for en
    using held_delete_Some[OF that[unfolded entry_of_def], of entry_responses]
    by (simp add: fail_responses_conv accounts_def requests_def comp_def ac_simps)
  then show ?thesis unfolding retire_stream_def Let_def w by (cases "entry_of a sid") auto
qed

lemma accounts_expire: "accounts (expire_pings now a) = accounts a"
  using held_filter[of "\<lambda>p. [pg_response p]" "\<lambda>p. pg_deadline (snd p) \<le> now" "ac_pending_pings a"]
  by (simp add: expire_pings_def account_simps not_le)

lemma accounts_fail_streams: "accounts (fail_streams e a) = accounts a"
  by (simp add: fail_streams_def account_simps)

lemma silence_silent [simp]: "entry_responses (silence en) = []"
  by (simp add: entry_responses_def silence_def)

lemma accounts_fail_all: "accounts (fail_all mo e a) = accounts a" "requests (fail_all mo e a) = {#}"
proof -
  have "held entry_responses (map (\<lambda>(sid, en). (sid, silence en)) xs) = {#}" for xs :: "(u32 \<times> stream_entry) list"
    by (induction xs) auto
  then show "accounts (fail_all mo e a) = accounts a" "requests (fail_all mo e a) = {#}"
    by (auto simp: fail_all_def Let_def account_simps split: option.splits)
qed

lemma spends_reply [spends_intros]: "spends {#t#} a (r, send_reply t v a)"
  by (simp add: spends_def)

lemma spends_retire: "accounts a' \<subseteq># accounts a + M \<Longrightarrow> spends M a (r, if c then retire_stream sid e a' else a')"
  using accounts_retire[of sid e a'] by (auto simp: spends_def intro: subset_mset.order_trans)

lemma opener_responses: "en_opener en = Some t \<Longrightarrow> mset (entry_responses en) = add_mset t (mset (entry_responses (en\<lparr>en_opener := None\<rparr>)))"
  by (simp add: entry_responses_def)

lemma receiver_responses:
  "en_receiver en = Some t \<Longrightarrow> mset (entry_responses en) = add_mset t (mset (entry_responses (en\<lparr>en_receiver := None\<rparr>)))"
  by (simp add: entry_responses_def)

lemma pending_responses:
  "en_pending_send en = Some p \<Longrightarrow>
   mset (entry_responses en) = add_mset (pd_response p) (mset (entry_responses (en\<lparr>en_pending_send := None\<rparr>)))"
  by (simp add: entry_responses_def)

lemma spends_complete_open [spends_intros]: "spends {#} a (complete_open um sid a)"
proof -
  have "spends {#} a' (case entry_of a' sid of None \<Rightarrow> (Inr (), a') | Some en \<Rightarrow> (case en_opener en of
           None \<Rightarrow> (Inr (), a') | Some t \<Rightarrow> (Inr (), send_reply t (Opened sid) (put_entry sid (en\<lparr>en_opener := None\<rparr>) a'))))"
    for a'
    by (intro spends_intros) (simp add: spends_def accounts_put_less[OF _ opener_responses])
  note step = this
  show ?thesis
    unfolding complete_open_def by (rule spends_option, rule spends_pair, rule spends_sbind, rule spends_queue_frame, rule step)
qed

lemma spends_reject_open [spends_intros]: "spends {#} a (reject_open frame a)"
proof -
  have d: "accounts (a\<lparr>ac_streams := AList.delete sid (ac_streams a)\<rparr>) \<subseteq># accounts a" for sid a
    using held_delete[of entry_responses sid "ac_streams a"] by (simp add: accounts_def requests_def)
  show ?thesis
    unfolding reject_open_def Let_def spends_def snd_conv
    by (rule subset_mset.order_trans[OF d]) (auto simp: accounts_put_less[OF _ opener_responses] split: option.splits)
qed

lemma spends_queue_data [spends_intros]: "spends {#t#} a (queue_data um sid payload e cls t a)"
proof (cases "queue_frame um Data sid payload e cls default_context a")
  case (Pair r a')
  have k: "accounts a' \<subseteq># accounts a" using spends_queue_frame(1)[of a um Data sid payload e cls default_context] Pair by (simp add: spends_def)
  have u: "accounts (b\<lparr>ac_write_waiters := AList.update k t (ac_write_waiters b)\<rparr>) \<subseteq># add_mset t (accounts b)" for b k
    using held_update[of "\<lambda>t. [t]" k t "ac_write_waiters b"] by (simp add: accounts_def requests_def)
  show ?thesis
    using Pair k subset_mset.order_trans[OF u[where b = a' and k = "(sid, next_sequence_for sid a)"], of "add_mset t (accounts a)"]
    by (cases r) (auto simp: queue_data_def Let_def spends_def)
qed

lemma spends_send_or_wait [spends_intros]: "spends {#t#} a (send_or_wait um sid payload e t a)"
proof -
  have "accounts (put_entry sid (en\<lparr>en_pending_send := Some \<lparr>pd_payload = payload, pd_end_stream = e, pd_response = t\<rparr>\<rparr>) a) =
      add_mset t (accounts a)" if "entry_of a sid = Some en" "en_pending_send en = None" for en
    by (rule accounts_put_more[OF that(1)]) (simp add: entry_responses_def that(2))
  then show ?thesis
    unfolding send_or_wait_def by (intro spends_intros) (auto simp: spends_def)
qed

lemma spends_flush_one [spends_intros]: "spends {#} a (flush_one um sid a)"
proof -
  have "spends {#} a (flush_one um sid a)" if en: "entry_of a sid = Some en" "en_pending_send en = Some p" for en p
  proof -
    let ?a = "put_entry sid (en\<lparr>en_pending_send := None\<rparr>) a"
    have p: "add_mset (pd_response p) (accounts ?a) = accounts a" by (rule accounts_put_less[OF en(1) pending_responses[OF en(2)]])
    have e: "entry_of ?a sid = Some (en\<lparr>en_pending_send := None\<rparr>)" by (simp add: entry_of_def put_entry_def AList.update_conv)
    have again: "accounts (put_entry sid en ?a) = accounts a"
      using accounts_put_more[OF e, of en "pd_response p"] pending_responses[OF en(2)] p by simp
    have "spends {#pd_response p#} ?a (sbind (ok_or (u32_try_from (length (pd_payload p))) e', ?a) (\<lambda>needed a.
         if \<not> has_send_credit sid needed a then (Inr (), put_entry sid en a)
         else queue_data um sid (pd_payload p) (pd_end_stream p) (en_class en) (pd_response p) a))" for e'
      by (intro spends_intros) (auto simp: spends_def again p)
    note main = this
    show ?thesis
      unfolding flush_one_def en option.case Let_def by (rule spends_via[OF main]) (simp add: p)
  qed
  then show ?thesis by (cases "entry_of a sid"; cases "en_pending_send (the (entry_of a sid))") (auto simp: flush_one_def intro: spends_pair)
qed

lemma spends_flush_pending [spends_intros]: "spends {#} a (flush_pending um mo sid a)"
proof -
  have "spends {#} a (exec_all (flush_one um) ids a)" for ids
    by (induction ids arbitrary: a) (auto simp: exec_all.simps intro!: spends_intros)
  then show ?thesis unfolding flush_pending_def by (intro spends_intros)
qed

lemma spends_receive_or_wait [spends_intros]: "spends {#t#} a (receive_or_wait um sid t a)"
proof -
  have w: "accounts (put_entry sid (en\<lparr>en_receiver := Some t\<rparr>) a) = add_mset t (accounts a)"
    if "entry_of a sid = Some en" "en_receiver en = None" for en
    by (rule accounts_put_more[OF that(1)]) (simp add: entry_responses_def that(2))
  have r: "spends {#t#} a (sbind (restore_consumed_credit um frame
        (put_entry sid (en\<lparr>en_inbox := rest, en_inbox_bytes := n\<rparr>) a)) (\<lambda>_ a.
      (Inr (), if is_terminal frame then retire_stream sid ConnDisconnected (send_reply t (Received frame) a)
         else send_reply t (Received frame) a)))" if "entry_of a sid = Some en" for en frame rest n
  proof -
    have "spends {#t#} b (sbind (restore_consumed_credit um frame b) (\<lambda>_ a.
      (Inr (), if is_terminal frame then retire_stream sid ConnDisconnected (send_reply t (Received frame) a)
         else send_reply t (Received frame) a)))" for b
      by (intro spends_sbind spends_restore spends_retire) simp
    then show ?thesis
      by (rule spends_via) (use accounts_put_same[OF that] in \<open>simp add: entry_responses_def\<close>)
  qed
  have "spends {#t#} a (case xs of [] \<Rightarrow> x | f # fs \<Rightarrow> y f fs)" if "xs = [] \<Longrightarrow> spends {#t#} a x" "\<And>f fs. spends {#t#} a (y f fs)"
    for xs :: "frame list" and x and y :: "frame \<Rightarrow> frame list \<Rightarrow> (connection_error + unit) \<times> actor"
    using that by (cases xs) auto
  note l = this
  show ?thesis
    unfolding receive_or_wait_def Let_def
  proof (intro spends_option spends_if l, goal_cases)
    case (3 en)
    then show ?case using w by (simp add: spends_def)
  next
    case (4 en f fs)
    then show ?case by (intro r)
  qed (auto intro: spends_pair spends_reply)
qed

lemma spends_deliver [spends_intros]: "spends {#} a (deliver um frame a)"
proof -
  let ?sid = "h_stream_id (f_header frame)"
  have r: "spends {#} a (sbind (restore_consumed_credit um frame (put_entry ?sid (en\<lparr>en_receiver := None\<rparr>) a)) (\<lambda>_ a.
      (Inr (), if is_terminal frame then retire_stream ?sid ConnDisconnected (send_reply t (Received frame) a)
         else send_reply t (Received frame) a)))" if "entry_of a ?sid = Some en" "en_receiver en = Some t" for en t
  proof -
    have "spends {#t#} b (sbind (restore_consumed_credit um frame b) (\<lambda>_ a.
      (Inr (), if is_terminal frame then retire_stream ?sid ConnDisconnected (send_reply t (Received frame) a)
         else send_reply t (Received frame) a)))" for b
      by (intro spends_sbind spends_restore spends_retire) simp
    then show ?thesis
      by (rule spends_via) (use accounts_put_less[OF that(1) receiver_responses[OF that(2)]] in simp)
  qed
  show ?thesis
    unfolding deliver_def Let_def
  proof (intro spends_option spends_if, goal_cases)
    case (5 en t)
    then show ?case by (intro r)
  qed (auto intro: spends_pair simp: spends_def accounts_put_same entry_responses_def)
qed

lemma spends_accept_incoming [spends_intros]: "spends {#} a (accept_incoming_open js mo frame a)"
proof -
  have "accounts (put_entry sid (stream_entry_new cls w) a) \<subseteq># accounts a" for sid cls w a
    using accounts_put_new[of sid "stream_entry_new cls w" a] by (simp add: entry_responses_def stream_entry_new_def)
  then show ?thesis
    unfolding accept_incoming_open_def Let_def by (intro spends_intros) (auto simp: spends_def)
qed

lemma spends_on_stream: "(\<And>en. entry_of a sid = Some en \<Longrightarrow> spends {#t#} a (f en a)) \<Longrightarrow> spends {#t#} a (on_stream sid t f a)"
  unfolding on_stream_def by (intro spends_option spends_reply)

lemma spends_answer: "spends {#} a r \<Longrightarrow> spends {#t#} a (answer_with t r)"
  by (simp add: spends_def answer_with_def)

lemma spends_command_ping: "spends {#t#} a (command_ping um mo g timeout t a)"
proof -
  have q: "spends {#t#} a (case queue_frame um Ping 0 payload False Control default_context a of
            (Inl e, a) \<Rightarrow> (Inl e, send_reply t (Failed e) a)
          | (Inr _, a) \<Rightarrow> (Inr (), a\<lparr>ac_pending_pings :=
              AList.update payload \<lparr>pg_deadline = d, pg_response = t\<rparr> (ac_pending_pings a)\<rparr>))" for payload d a
  proof (cases "queue_frame um Ping 0 payload False Control default_context a")
    case (Pair r a')
    have k: "accounts a' \<subseteq># accounts a"
      using spends_queue_frame(1)[of a um Ping 0 payload False Control default_context] Pair by (simp add: spends_def)
    have u: "accounts (b\<lparr>ac_pending_pings := AList.update payload \<lparr>pg_deadline = d, pg_response = t\<rparr> (ac_pending_pings b)\<rparr>)
        \<subseteq># add_mset t (accounts b)" for b
      using held_update[of "\<lambda>p. [pg_response p]" payload "\<lparr>pg_deadline = d, pg_response = t\<rparr>" "ac_pending_pings b"]
      by (simp add: accounts_def requests_def)
    show ?thesis
      using Pair k subset_mset.order_trans[OF u[of a'], of "add_mset t (accounts a)"]
      by (cases r) (auto simp: spends_def)
  qed
  have n: "spends {#t#} (a\<lparr>ac_next_ping_id := n\<rparr>) r \<Longrightarrow> spends {#t#} a r" for n r a by (simp add: spends_def)
  show ?thesis
    unfolding command_ping_def Let_def
    by (rule spends_if, rule spends_reply, rule spends_sbind, rule spends_pair, rule n, rule spends_if, rule spends_reply, rule q)
qed

lemma spends_command_open: "spends {#t#} a (command_open um js service w cls t a)"
proof -
  have "spends {#t#} a (sbind (ok_or (js_open js service) ConnInvalidService,
      put_entry sid ((stream_entry_new cls w)\<lparr>en_opener := Some t\<rparr>) a) (\<lambda>payload.
      queue_frame um Open sid payload False cls default_context))" for sid a
    by (rule spends_via[of "{#}", OF spends_sbind[OF spends_pair spends_queue_frame(1)]])
      (use accounts_put_new[of sid "(stream_entry_new cls w)\<lparr>en_opener := Some t\<rparr>" a] in
        \<open>simp add: entry_responses_def stream_entry_new_def\<close>)
  note step = this
  show ?thesis unfolding command_open_def Let_def by (rule spends_sbind, rule spends_queue, rule step)
qed


lemma spends_handle_command: "spends (mset_set (set_option (command_response c))) a (handle_command um js mo c a)"
proof (cases c)
  case (CmdAccept g sid w cls t)
  have "spends {#t#} b (sbind (ok_or (js_accept js w) ConnInvalidService, b) (\<lambda>payload a.
      answer_with t (queue_frame um Accept sid payload False Control (context_accept w) a)))" for b
    by (intro spends_sbind spends_pair spends_answer spends_queue_frame)
  then have "spends {#t#} a (sbind (ok_or (js_accept js w) ConnInvalidService,
      put_entry sid (en\<lparr>en_class := cls, en_receive_window := w\<rparr>) a) (\<lambda>payload a.
      answer_with t (queue_frame um Accept sid payload False Control (context_accept w) a)))" if "entry_of a sid = Some en" for en
    by (rule spends_via) (use accounts_put_same[OF that] in \<open>simp add: entry_responses_def\<close>)
  then show ?thesis using CmdAccept by (simp add: spends_on_stream)
next
  case (CmdCancelReceive g sid t)
  have "spends {#t#} a (Inr () :: connection_error + unit, send_reply t Done (case en_receiver en of None \<Rightarrow> a
       | Some r \<Rightarrow> send_reply r (Failed ConnDisconnected) (put_entry sid (en\<lparr>en_receiver := None\<rparr>) a)))"
    if "entry_of a sid = Some en" for en
    using that by (auto simp: spends_def accounts_put_less[OF _ receiver_responses] split: option.splits)
  then show ?thesis using CmdCancelReceive by (simp add: spends_on_stream)
next
  case (CmdGoAway g t)
  have "spends {#t#} b (Inr () :: connection_error + unit, b\<lparr>ac_pending_goaway := Some t\<rparr>)" for b :: actor
    by (simp add: spends_def accounts_def requests_def)
  then show ?thesis using CmdGoAway by (auto intro!: spends_sbind spends_queue_frame spends_reply)
qed (auto intro!: spends_on_stream spends_answer spends_intros spends_command_ping spends_command_open)

lemma spends_handle_current: "spends (mset_set (set_option (command_response c))) a (handle_current_command um js mo c a)"
proof -
  have "spends (mset_set (set_option (command_response c))) a (Inr () :: connection_error + unit, respond_error c e a)" for e
    by (cases "command_response c") (auto simp: respond_error_def spends_def)
  then show ?thesis unfolding handle_current_command_def by (intro spends_if spends_handle_command)
qed

lemma spends_restart_session [spends_intros]: "spends {#} a (restart_session mo a)"
  by (cases "mo_restart mo"; cases "checked_add (ac_generation a) 1")
    (auto simp: restart_session_def spends_def Let_def accounts_fail_streams split: prod.splits)

lemma spends_inbound_goaway [spends_intros]: "spends {#} a (inbound_goaway um a)"
proof -
  have g: "add_mset t (accounts (a\<lparr>ac_pending_goaway := None\<rparr>)) \<subseteq># accounts a" if "ac_pending_goaway a = Some t" for t
    using that by (simp add: accounts_def requests_def)
  have "spends {#} a (queue_frame um GoAway 0 [] False Control default_context
      ((fail_streams ConnDisconnected a)\<lparr>ac_control_sequence := sq, ac_awaiting_restart := True\<rparr>))" for sq
    by (rule spends_via[OF spends_queue_frame(1)]) (simp add: accounts_fail_streams)
  then show ?thesis
    unfolding inbound_goaway_def Let_def using g
    by (cases "ac_pending_goaway a") (auto intro: spends_pair simp: spends_def)
qed

lemma spends_inbound_pong [spends_intros]: "spends {#} a (inbound_pong frame a)"
proof -
  have "add_mset (pg_response p) (accounts (a\<lparr>ac_pending_pings := AList.delete k (ac_pending_pings a)\<rparr>)) \<subseteq># accounts a"
    if "map_of (ac_pending_pings a) k = Some p" for k p
    using held_delete_Some[OF that, of "\<lambda>p. [pg_response p]"] by (simp add: accounts_def requests_def)
  then show ?thesis unfolding inbound_pong_def by (intro spends_option spends_pair) (auto simp: spends_def)
qed

lemma spends_dispatch [spends_intros]: "spends {#} a (dispatch_inbound um js mo frame a)"
  unfolding dispatch_inbound_def by (cases "h_command (f_header frame)") (auto intro: spends_intros)

lemma spends_handle_inbound: "spends {#} a (handle_inbound um js mo frame a)"
  unfolding handle_inbound_def Let_def by (intro spends_intros)

lemma accounts_recover: "spends M a r \<Longrightarrow> spends M a (recover mo r)"
  by (auto simp: recover_def begin_restart_def spends_def accounts_fail_streams accounts_fail_all split: prod.splits sum.splits)

fun polled_responses :: "actor_command polled \<Rightarrow> response list" where
  "polled_responses (Got c) = (case command_response c of None \<Rightarrow> [] | Some t \<Rightarrow> [t])"
| "polled_responses _ = []"

definition turn_responses :: "turn \<Rightarrow> response list" where
  "turn_responses tu = polled_responses (tu_command tu) @ polled_responses (tu_idle tu)"

lemma spends_command_phase: "spends (mset (polled_responses p)) a (command_phase um js mo p a)"
proof (cases p)
  case (Got c)
  have "mset (polled_responses p) = mset_set (set_option (command_response c))" using Got by (cases "command_response c") auto
  then show ?thesis
    using Got by (auto simp: command_phase_def intro!: spends_if spends_pair accounts_recover spends_handle_current)
qed (simp_all add: command_phase_def spends_def)

lemma spends_inbound_phase: "spends {#} a (inbound_phase um js mo p a)"
proof (cases p)
  case (Got e)
  then show ?thesis
    using accounts_recover[OF spends_handle_inbound, of a mo um js mo]
    by (cases e) (simp_all add: inbound_phase_def, simp add: spends_def accounts_fail_all)
qed (simp_all add: inbound_phase_def spends_def accounts_fail_all)

lemma spends_write_phase: "spends {#} a (write_phase um mo a)"
proof (cases "dequeue um (ac_scheduler a)")
  case (Pair item sc)
  have t: "add_mset t (accounts (b\<lparr>ac_write_waiters := AList.delete k (ac_write_waiters b)\<rparr>)) \<subseteq># accounts b"
    if "map_of (ac_write_waiters b) k = Some t" for b k t
    using held_delete_Some[OF that, of "\<lambda>t. [t]"] by (simp add: accounts_def requests_def)
  have w: "accounts (case map_of (ac_write_waiters b) k of None \<Rightarrow> b
      | Some t \<Rightarrow> send_reply t Done (b\<lparr>ac_write_waiters := AList.delete k (ac_write_waiters b)\<rparr>)) \<subseteq># accounts b" for b k
    using t by (auto split: option.splits)
  have r: "accounts (if c then retire_stream sid e b else b) \<subseteq># accounts a" if "accounts b \<subseteq># accounts a" for c sid e b
    using accounts_retire[of sid e b] that by (auto intro: subset_mset.order_trans)
  show ?thesis
  proof (cases item)
    case None
    then show ?thesis using Pair by (simp add: write_phase_def spends_def)
  next
    case (Some i)
    show ?thesis
    proof (cases "mo_written mo")
      case True
      let ?b = "a\<lparr>ac_scheduler := sc, ac_written := ac_written a @ [sf_frame i]\<rparr>"
        and ?k = "(sf_stream i, h_sequence (f_header (sf_frame i)))"
      let ?c = "case map_of (ac_write_waiters ?b) ?k of None \<Rightarrow> ?b
        | Some t \<Rightarrow> send_reply t Done (?b\<lparr>ac_write_waiters := AList.delete ?k (ac_write_waiters ?b)\<rparr>)"
      have "write_phase um mo a = (True, if is_terminal (sf_frame i) then retire_stream (sf_stream i) ConnDisconnected ?c else ?c)"
        by (simp add: write_phase_def Pair Some True Let_def split: option.splits)
      moreover have "accounts ?c \<subseteq># accounts a" using w[of ?b ?k] by simp
      ultimately show ?thesis by (simp only: spends_def snd_conv add_0_right r)
    next
      case False
      obtain g b where "recover mo (Inl ConnTransport :: connection_error + unit, a\<lparr>ac_scheduler := sc\<rparr>) = (g, b)" by fastforce
      moreover have "spends {#} a (recover mo (Inl ConnTransport :: connection_error + unit, a\<lparr>ac_scheduler := sc\<rparr>))"
        by (rule accounts_recover) (simp add: spends_def)
      ultimately show ?thesis
        using Pair Some False r[of b True] by (auto simp: write_phase_def spends_def Let_def)
    qed
  qed
qed

lemma spends_then:
  assumes "spends M a r" "\<And>a'. r = (True, a') \<Longrightarrow> spends M' a' (f a')"
  shows "spends (M + M') a (case r of (True, a) \<Rightarrow> f a | (False, a) \<Rightarrow> (False, a))"
proof (cases r)
  case (Pair b a')
  show ?thesis
  proof (cases b)
    case True
    have "accounts (snd (f a')) \<subseteq># accounts a' + M'" using assms(2) Pair True by (simp add: spends_def)
    also have "\<dots> \<subseteq># accounts a + M + M'" using assms(1) Pair by (simp add: spends_def)
    finally show ?thesis using Pair True by (simp add: spends_def ac_simps)
  next
    case False
    have "accounts a' \<subseteq># accounts a + M" using assms(1) Pair by (simp add: spends_def)
    also have "\<dots> \<subseteq># accounts a + (M + M')" by simp
    finally show ?thesis using Pair False by (simp add: spends_def)
  qed
qed

lemma spends_turn: "spends (mset (turn_responses tu)) a (actor_turn um js tu a)"
proof -
  let ?mo = "tu_moment tu" and ?a = "expire_pings (mo_now (tu_moment tu)) a"
  have w: "spends ({#} + M) b (case (True, b) of (True, a) \<Rightarrow> write_phase um ?mo a | (False, a) \<Rightarrow> (False, a))" for b M
    using spends_le[OF spends_write_phase, of M b um ?mo] by simp
  have "spends (mset (polled_responses (tu_command tu)) + ({#} + (mset (polled_responses (tu_idle tu)) + {#}))) ?a (actor_turn um js tu a)"
    unfolding actor_turn_def Let_def
  proof (intro spends_then spends_command_phase spends_inbound_phase, goal_cases)
    case (1 b c)
    then show ?case
      using spends_command_phase[of "tu_idle tu" c um js ?mo] by (auto intro: spends_pair)
  next
    case (2 b c d)
    show ?case by (rule spends_write_phase)
  qed
  then show ?thesis by (simp add: spends_def turn_responses_def accounts_expire ac_simps)
qed

lemma spends_run: "spends (mset (concat (map turn_responses tus))) a (actor_run um js tus a)"
proof (induction tus arbitrary: a)
  case (Cons tu tus)
  obtain b a' where t: "actor_turn um js tu a = (b, a')" by fastforce
  have s: "accounts a' \<subseteq># accounts a + mset (turn_responses tu)" using spends_turn[of tu a um js] t by (simp add: spends_def)
  show ?case
  proof (cases b)
    case True
    have "accounts (snd (actor_run um js tus a')) \<subseteq># accounts a' + mset (concat (map turn_responses tus))"
      using Cons.IH[of a'] by (simp add: spends_def)
    also have "\<dots> \<subseteq># accounts a + mset (turn_responses tu) + mset (concat (map turn_responses tus))" using s by simp
    finally show ?thesis using t True by (simp add: spends_def ac_simps)
  next
    case False
    have "accounts a + mset (turn_responses tu) \<subseteq># accounts a + (mset (turn_responses tu) + mset (concat (map turn_responses tus)))"
      by simp
    with s have "accounts a' \<subseteq># accounts a + (mset (turn_responses tu) + mset (concat (map turn_responses tus)))"
      by (rule subset_mset.order_trans)
    then show ?thesis using t False by (simp add: spends_def accounts_fail_all)
  qed
qed (simp add: spends_def)

lemma distinct_countI: "(\<And>t. count (mset xs) t \<le> 1) \<Longrightarrow> distinct xs"
proof -
  assume c: "\<And>t. count (mset xs) t \<le> 1"
  have "count (mset xs) t = (if t \<in> set xs then 1 else 0)" for t
    using c[of t] count_greater_zero_iff[of "mset xs" t] count_eq_zero_iff[of "mset xs" t] by (cases "t \<in> set xs") (simp_all del: count_greater_zero_iff)
  then show ?thesis by (simp add: distinct_count_atmost_1)
qed

lemma run_stopped: "actor_run um js tus a = (False, a') \<Longrightarrow> requests a' = {#}"
  by (induction tus arbitrary: a) (auto simp: accounts_fail_all split: prod.splits bool.splits)

text \<open>
  C7: Every request that the actor takes from its queue is answered at most once, whatever the peer, the
  transport and the other requests do: an answer is never sent to a request that is still held or has
  been answered, so a response channel of capacity one never blocks the actor. When the loop has ended
  no request is left waiting.
\<close>

theorem requests_answered_once:
  assumes "distinct (concat (map turn_responses tus))" "actor_run um js tus (actor_new st restart) = (going, a)"
  shows "distinct (map fst (ac_replies a)) \<and> set_mset (requests a) \<inter> fst ` set (ac_replies a) = {} \<and>
    set_mset (requests a) \<union> fst ` set (ac_replies a) \<subseteq> set (concat (map turn_responses tus)) \<and>
    (going \<or> requests a = {#})"
proof -
  have "accounts (actor_new st restart) = {#}" by (simp add: accounts_def requests_def actor_new_def)
  then have le: "requests a + mset (map fst (ac_replies a)) \<subseteq># mset (concat (map turn_responses tus))"
    using spends_run[of tus "actor_new st restart" um js] assms(2) by (simp add: spends_def accounts_def)
  have one: "count (requests a) t + count (mset (map fst (ac_replies a))) t \<le> 1" for t
    using mset_subset_eq_count[OF le, of t] distinct_count_atmost_1[of "concat (map turn_responses tus)"] assms(1)
    by (simp only: count_union) (metis (no_types, lifting) count_mset_0_iff le_trans less_imp_le_nat order_refl zero_le_one)
  have "distinct (map fst (ac_replies a))"
    using one by (intro distinct_countI) (metis add_leD2)
  moreover have "set_mset (requests a) \<inter> fst ` set (ac_replies a) = {}"
  proof -
    have False if "t \<in># requests a" "t \<in># mset (map fst (ac_replies a))" for t
    proof -
      have "0 < count (requests a) t" "0 < count (mset (map fst (ac_replies a))) t"
        using that by (simp_all only: count_greater_zero_iff)
      then show False using one[of t] by linarith
    qed
    then show ?thesis by auto
  qed
  moreover have "set_mset (requests a) \<union> fst ` set (ac_replies a) \<subseteq> set (concat (map turn_responses tus))"
    using set_mset_mono[OF le] by auto
  ultimately show ?thesis using run_stopped assms(2) by (cases going) auto
qed

definition demo_stop :: actor where
  "demo_stop = snd (actor_run usize64 demo_json [demo_turn (CmdReceive 0 9 8), demo_turn CmdShutdown] (actor_new demo_session False))"

lemma demo_run_stop:
  "actor_run usize64 demo_json [demo_turn (CmdReceive 0 9 8), demo_turn CmdShutdown] (actor_new demo_session False) = (False, demo_stop)"
  "ac_replies demo_stop = [(8, Failed ConnDisconnected)]"
  by (simp_all add: demo_stop_def prod_eq_iff demo_turn_def actor_turn_def demo_moment_def command_phase_def inbound_phase_def
      handle_current_command_def on_stream_def Let_def expire_pings_def fail_responses_def actor_new_def recover_def entry_of_def
      send_reply_def write_phase_def dequeue_def scheduler_new_def fail_all_def)

theorem requests_answered_once_witness:
  "requests demo_stop = {#} \<and> distinct (map fst (ac_replies demo_stop)) \<and> fst ` set (ac_replies demo_stop) \<subseteq> {8}"
  using requests_answered_once[OF _ demo_run_stop(1)] by (simp add: demo_turn_def turn_responses_def demo_run_stop)

end
