(* ===== verification/Actor_Sequences.thy ===== *)
theory Actor_Sequences
  imports Actor
begin

text \<open>
  The sequence numbers of the connection actor: its counters, the session state that it owns and the frames
  that wait in its scheduler stay in step. The scheduler is used through its specification only: frames of
  a stream leave in the order in which they came.
\<close>

section \<open>Sequence numbers on the wire\<close>

definition since_hello :: "frame list \<Rightarrow> frame list" where
  "since_hello fs = rev (takeWhile (\<lambda>f. h_command (f_header f) \<noteq> Hello) (rev fs))"

definition first_sequence :: "u32 \<Rightarrow> nat" where
  "first_sequence sid = (if sid = 0 then 1 else 0)"

definition sequence_of :: "frame \<Rightarrow> nat" where
  "sequence_of f = unat (h_sequence (f_header f))"

definition written_on :: "u32 \<Rightarrow> actor \<Rightarrow> nat list" where
  "written_on sid a = map sequence_of (filter (\<lambda>f. h_stream_id (f_header f) = sid) (since_hello (ac_written a)))"

definition queued_on :: "u32 \<Rightarrow> actor \<Rightarrow> nat list" where
  "queued_on sid a = map (sequence_of \<circ> sf_frame) (stream_items (ac_scheduler a) sid)"

text \<open>The state of a session behind the handshake: HELLO was the first frame of the control stream.\<close>

definition fresh_session :: "session_state \<Rightarrow> bool" where
  "fresh_session st = (\<forall>sid. unat (expected_sequence Outbound st sid) = first_sequence sid)"

text \<open>
  \<open>in_step\<close>: the counters of the actor are those of the session, and the frames written and queued on a
  stream carry the numbers before the next one. It is claimed while the actor does not wait for a restart.
  HELLO is written by a restart only, so it does not occur in the queues.
\<close>

definition in_step :: "nat \<Rightarrow> actor \<Rightarrow> bool" where
  "in_step um a = (sched_inv um (ac_scheduler a) \<and>
     (\<forall>sid. list_all (\<lambda>i. h_command (f_header (sf_frame i)) \<noteq> Hello) (stream_items (ac_scheduler a) sid)) \<and>
     (ac_awaiting_restart a \<or> (\<forall>sid. first_sequence sid \<le> unat (next_sequence_for sid a) \<and>
        next_sequence_for sid a = expected_sequence Outbound (ac_state a) sid \<and>
        written_on sid a @ queued_on sid a = [first_sequence sid ..< unat (next_sequence_for sid a)])))"

definition wire ::
  "actor \<Rightarrow> session_state \<times> (u32 \<rightharpoonup> u32) \<times> u32 \<times> frame_scheduler \<times> frame list \<times> bool" where
  "wire a = (ac_state a, ac_sequences a, ac_control_sequence a, ac_scheduler a, ac_written a, ac_awaiting_restart a)"

lemma in_step_wire: "wire a' = wire a \<Longrightarrow> in_step um a' = in_step um a"
  by (auto simp: in_step_def wire_def written_on_def queued_on_def next_sequence_for_def)

lemma wire_upd [simp]:
  "wire (a\<lparr>ac_streams := x1\<rparr>) = wire a" "wire (a\<lparr>ac_write_waiters := x2\<rparr>) = wire a"
  "wire (a\<lparr>ac_pending_pings := x3\<rparr>) = wire a" "wire (a\<lparr>ac_pending_goaway := x4\<rparr>) = wire a"
  "wire (a\<lparr>ac_next_ping_id := x5\<rparr>) = wire a" "wire (a\<lparr>ac_generation := x6\<rparr>) = wire a"
  "wire (a\<lparr>ac_terminal_error := x7\<rparr>) = wire a" "wire (a\<lparr>ac_shared_generation := x6\<rparr>) = wire a"
  "wire (a\<lparr>ac_replies := x8\<rparr>) = wire a" "wire (a\<lparr>ac_incoming := x9\<rparr>) = wire a"
  by (simp_all add: wire_def)

lemma wire_ops [simp]:
  "wire (send_reply t r a) = wire a" "wire (put_entry sid en a) = wire a" "wire (fail_responses e ts a) = wire a"
  "wire (retire_stream sid e a) = wire a" "wire (expire_pings now a) = wire a" "wire (respond_error c e a) = wire a"
  by (simp_all add: send_reply_def put_entry_def fail_responses_conv retire_stream_def expire_pings_def respond_error_def
      Let_def split: option.splits)

lemmas in_step_simps [simp] = in_step_wire[OF wire_upd(1)] in_step_wire[OF wire_upd(2)] in_step_wire[OF wire_upd(3)]
  in_step_wire[OF wire_upd(4)] in_step_wire[OF wire_upd(5)] in_step_wire[OF wire_upd(6)] in_step_wire[OF wire_upd(7)]
  in_step_wire[OF wire_upd(8)] in_step_wire[OF wire_upd(9)] in_step_wire[OF wire_upd(10)]
  in_step_wire[OF wire_ops(1)] in_step_wire[OF wire_ops(2)] in_step_wire[OF wire_ops(3)] in_step_wire[OF wire_ops(4)]
  in_step_wire[OF wire_ops(5)] in_step_wire[OF wire_ops(6)]

lemma process_outbound_step:
  assumes "process Outbound h ctx s = (Inr (), s')"
  shows "h_sequence h = expected_sequence Outbound s (h_stream_id h)"
    "unat (expected_sequence Outbound s' (h_stream_id h)) = min (Suc (unat (h_sequence h))) seq_max"
    "sid \<noteq> h_stream_id h \<Longrightarrow> expected_sequence Outbound s' sid = expected_sequence Outbound s sid"
proof -
  obtain s1 where s1: "frame_step Outbound h ctx s s1" "validate_sequence s Outbound h = Inr ()" "s' = advance_sequence Outbound h s1"
    using assms unfolding process_iff by blast
  show "h_sequence h = expected_sequence Outbound s (h_stream_id h)"
    "unat (expected_sequence Outbound s' (h_stream_id h)) = min (Suc (unat (h_sequence h))) seq_max"
    "sid \<noteq> h_stream_id h \<Longrightarrow> expected_sequence Outbound s' sid = expected_sequence Outbound s sid"
    using expected_sequence_step[OF s1(1,2)] s1(3) by simp_all
qed

lemma process_inbound_step:
  assumes "process Inbound h ctx s = (Inr (), s')"
  shows "expected_sequence Outbound s' sid = expected_sequence Outbound s sid"
  using assms expected_sequence_step(3)[of Inbound h ctx s _ Outbound sid] unfolding process_iff by auto

lemma allocate_step: "allocate_stream_id s = (r, s') \<Longrightarrow> expected_sequence Outbound s' sid = expected_sequence Outbound s sid"
  by (auto simp: allocate_stream_id_def expected_sequence_def sequences_def split: option.splits)


text \<open>\<open>okay P r\<close>: a call that succeeds ends in a state with \<open>P\<close>.\<close>

definition okay :: "(actor \<Rightarrow> bool) \<Rightarrow> ('e + 'a) \<times> actor \<Rightarrow> bool" where
  "okay P r = (\<forall>x a. r = (Inr x, a) \<longrightarrow> P a)"

named_theorems okay_intros \<open>rules for the states that successful calls reach\<close>

lemma okay_sbind [okay_intros]: "okay P m \<Longrightarrow> (\<And>x a. m = (Inr x, a) \<Longrightarrow> P a \<Longrightarrow> okay P (f x a)) \<Longrightarrow> okay P (sbind m f)"
  by (cases m; cases "fst m") (auto simp: okay_def)

lemma okay_pair [okay_intros]: "P a \<Longrightarrow> okay P (r, a)"
  by (simp add: okay_def)

lemma okay_if [okay_intros]: "(c \<Longrightarrow> okay P r) \<Longrightarrow> (\<not> c \<Longrightarrow> okay P r') \<Longrightarrow> okay P (if c then r else r')"
  by simp

lemma okay_option [okay_intros]:
  "(v = None \<Longrightarrow> okay P r) \<Longrightarrow> (\<And>x. v = Some x \<Longrightarrow> okay P (f x)) \<Longrightarrow> okay P (case v of None \<Rightarrow> r | Some x \<Rightarrow> f x)"
  by (cases v) simp_all

lemma checked_succ: "checked_add (n :: u32) 1 = Some m \<Longrightarrow> unat m = Suc (unat n)"
  by (auto simp: checked_add_def unat_word_ariths split: if_split_asm)

lemma submit_in_step:
  assumes a: "in_step um a" "take_sequence sid a = (Inr sq, a1)"
    and p: "on_session (process_outbound (f_header (sf_frame item)) ctx) a1 = (Inr u, a2)"
    and q: "on_scheduler (enqueue um item) a2 = (Inr v, a3)"
    and h: "sf_stream item = sid" "h_sequence (f_header (sf_frame item)) = sq" "h_command (f_header (sf_frame item)) \<noteq> Hello"
  shows "in_step um a3"
proof -
  obtain n where n: "checked_add (next_sequence_for sid a) 1 = Some n" "sq = next_sequence_for sid a" "a1 = set_sequence sid n a"
    using a(2) by (auto simp: take_sequence_def Let_def split: option.splits)
  obtain st where st: "process Outbound (f_header (sf_frame item)) ctx (ac_state a) = (Inr (), st)" "a2 = a1\<lparr>ac_state := st\<rparr>"
    using p n(3) by (auto simp: on_session_def process_outbound_def set_sequence_def split: prod.splits if_split_asm)
  obtain sc where sc: "enqueue um item (ac_scheduler a) = (Inr (), sc)" "a3 = a2\<lparr>ac_scheduler := sc\<rparr>"
    using q n(3) st(2) by (auto simp: on_scheduler_def set_sequence_def split: prod.splits if_split_asm)
  have nx: "next_sequence_for sid' a3 = (if sid' = sid then n else next_sequence_for sid' a)" for sid'
    using n(3) st(2) sc(2) by (auto simp: next_sequence_for_def set_sequence_def)
  have keep: "ac_written a3 = ac_written a" "ac_awaiting_restart a3 = ac_awaiting_restart a" "ac_scheduler a3 = sc" "ac_state a3 = st"
    using n(3) st(2) sc(2) by (auto simp: set_sequence_def)
  have inv: "sched_inv um (ac_scheduler a)" using a(1) by (simp add: in_step_def)
  note items = enqueue_items[OF inv sc(1)]
  have w: "written_on sid' a3 = written_on sid' a" for sid' by (simp add: written_on_def keep)
  have qd: "queued_on sid' a3 = queued_on sid' a @ (if sid' = sid then [unat sq] else [])" for sid'
    using items h by (auto simp: queued_on_def keep sequence_of_def)
  have "first_sequence sid' \<le> unat (next_sequence_for sid' a3) \<and>
      next_sequence_for sid' a3 = expected_sequence Outbound st sid' \<and>
      written_on sid' a3 @ queued_on sid' a3 = [first_sequence sid' ..< unat (next_sequence_for sid' a3)]"
    if "\<not> ac_awaiting_restart a" for sid'
  proof -
    have s: "next_sequence_for sid' a = expected_sequence Outbound (ac_state a) sid'"
        "written_on sid' a @ queued_on sid' a = [first_sequence sid' ..< unat (next_sequence_for sid' a)]"
        "first_sequence sid' \<le> unat (next_sequence_for sid' a)" for sid'
      using a(1) that unfolding in_step_def by blast+
    note o = process_outbound_step[OF st(1)]
    show ?thesis
    proof (cases "sid' = sid")
      case True
      have un: "unat n = Suc (unat sq)" using checked_succ[OF n(1)] n(2) by simp
      have "unat (expected_sequence Outbound st sid) = min (Suc (unat sq)) seq_max" using o(2) h by simp
      also have "\<dots> = unat n" using un unat_u32_bound[of n] by simp
      finally have e: "expected_sequence Outbound st sid = n" by (simp add: unsigned_word_eqI)
      show ?thesis using True nx w qd s[of sid] e un n(2) by simp
    next
      case False
      then show ?thesis using nx w qd s[of sid'] o(3) h by simp
    qed
  qed
  moreover have "list_all (\<lambda>i. h_command (f_header (sf_frame i)) \<noteq> Hello) (stream_items sc sid')" for sid'
    using a(1) items h(3) by (auto simp: in_step_def)
  ultimately show ?thesis using enqueue_inv[OF inv sc(1)] keep by (auto simp: in_step_def)
qed

lemma frame_new_Inr: "frame_new h payload = Inr f \<Longrightarrow> \<exists>n. f_header f = h\<lparr>h_payload_length := n\<rparr>"
  by (auto simp: frame_new_def result_simps)

lemma queue_frame_Inr:
  assumes "queue_frame um c sid payload e cls ctx a = (Inr u, a3)"
  obtains sq a1 item a2 where "take_sequence sid a = (Inr sq, a1)" "h_command (f_header (sf_frame item)) = c"
    "sf_stream item = sid" "h_sequence (f_header (sf_frame item)) = sq"
    "on_session (process_outbound (f_header (sf_frame item)) ctx) a1 = (Inr (), a2)"
    "on_scheduler (enqueue um item) a2 = (Inr (), a3)"
proof -
  let ?h = "\<lambda>sq. if e then (header_new c sid sq)\<lparr>h_flags := h_flags (header_new c sid sq) OR FLAG_END_STREAM\<rparr> else header_new c sid sq"
  obtain sq a1 f a2 where r: "take_sequence sid a = (Inr sq, a1)" "frame_new (?h sq) payload = Inr f"
      "on_session (process_outbound (f_header f) ctx) a1 = (Inr (), a2)"
      "on_scheduler (enqueue um \<lparr>sf_class = (if for_command c = Control then Control else cls), sf_frame = f\<rparr>) a2 = (Inr (), a3)"
    using assms unfolding queue_frame_def Let_def sbind_eq_Inr by auto
  obtain n where "f_header f = (?h sq)\<lparr>h_payload_length := n\<rparr>" using frame_new_Inr[OF r(2)] by blast
  then have "h_command (f_header f) = c" "h_stream_id (f_header f) = sid" "h_sequence (f_header f) = sq"
    by (auto simp: header_new_def)
  then show ?thesis using r(1,3,4) by (intro that[of sq a1 "\<lparr>sf_class = (if for_command c = Control then Control else cls), sf_frame = f\<rparr>" a2]) simp_all
qed

lemma okay_queue_frame [okay_intros]: "in_step um a \<Longrightarrow> c \<noteq> Hello \<Longrightarrow> okay (in_step um) (queue_frame um c sid payload e cls ctx a)"
  unfolding okay_def by (auto elim!: queue_frame_Inr intro: submit_in_step)

lemma okay_queue_credit [okay_intros]:
  assumes "in_step um a"
  shows "okay (in_step um) (queue_credit um sid delta a)"
  unfolding okay_def
proof (intro allI impI)
  fix u a3
  assume "queue_credit um sid delta a = (Inr u, a3)"
  then obtain sq a1 f a2 where r: "take_sequence sid a = (Inr sq, a1)" "frame_new ((header_new Credit sid sq)\<lparr>h_credit_delta := delta\<rparr>) [] = Inr f"
      "on_session (process_outbound (f_header f) default_context) a1 = (Inr (), a2)"
      "on_scheduler (enqueue um \<lparr>sf_class = Control, sf_frame = f\<rparr>) a2 = (Inr u, a3)"
    unfolding queue_credit_def Let_def sbind_eq_Inr by auto
  obtain n where "f_header f = (header_new Credit sid sq)\<lparr>h_credit_delta := delta\<rparr>\<lparr>h_payload_length := n\<rparr>" using frame_new_Inr[OF r(2)] by blast
  then show "in_step um a3"
    using r(3) by (intro submit_in_step[OF assms r(1) _ r(4)]) (auto simp: header_new_def)
qed

lemma in_step_state:
  "(\<And>sid. expected_sequence Outbound st sid = expected_sequence Outbound (ac_state a) sid) \<Longrightarrow> in_step um (a\<lparr>ac_state := st\<rparr>) = in_step um a"
  by (simp add: in_step_def written_on_def queued_on_def next_sequence_for_def)

lemma okay_process_inbound [okay_intros]: "in_step um a \<Longrightarrow> okay (in_step um) (on_session (process_inbound h ctx) a)"
  by (auto simp: okay_def on_session_def process_inbound_def in_step_state[OF process_inbound_step] split: prod.splits)

lemma okay_allocate [okay_intros]: "in_step um a \<Longrightarrow> okay (in_step um) (on_session allocate_stream_id a)"
  by (auto simp: okay_def on_session_def in_step_state[OF allocate_step] split: prod.splits)

lemma okay_restore [okay_intros]: "in_step um a \<Longrightarrow> okay (in_step um) (restore_consumed_credit um frame a)"
  unfolding restore_consumed_credit_def Let_def by (intro okay_intros)

lemma okay_complete_open [okay_intros]: "in_step um a \<Longrightarrow> okay (in_step um) (complete_open um sid a)"
  unfolding complete_open_def by (intro okay_intros) auto

lemma okay_reject_open [okay_intros]: "in_step um a \<Longrightarrow> okay (in_step um) (reject_open frame a)"
  unfolding reject_open_def Let_def by (auto simp: okay_def split: option.splits)

lemma okay_queue_data [okay_intros]: "in_step um a \<Longrightarrow> okay (in_step um) (queue_data um sid payload e cls t a)"
  using okay_queue_frame[of um a Data sid payload e cls default_context]
  by (auto simp: okay_def queue_data_def Let_def split: prod.splits sum.splits)

lemma okay_send_or_wait [okay_intros]: "in_step um a \<Longrightarrow> okay (in_step um) (send_or_wait um sid payload e t a)"
  unfolding send_or_wait_def by (intro okay_intros) auto

lemma okay_flush_one [okay_intros]: "in_step um a \<Longrightarrow> okay (in_step um) (flush_one um sid a)"
  unfolding flush_one_def Let_def by (intro okay_intros) auto

lemma okay_flush_pending [okay_intros]: "in_step um a \<Longrightarrow> okay (in_step um) (flush_pending um mo sid a)"
proof -
  have "in_step um a \<Longrightarrow> okay (in_step um) (exec_all (flush_one um) ids a)" for ids
    by (induction ids arbitrary: a) (auto simp: exec_all.simps intro!: okay_intros)
  then show "in_step um a \<Longrightarrow> okay (in_step um) (flush_pending um mo sid a)"
    unfolding flush_pending_def by (intro okay_intros)
qed

lemma okay_list [okay_intros]:
  "(xs = [] \<Longrightarrow> okay P r) \<Longrightarrow> (\<And>y ys. xs = y # ys \<Longrightarrow> okay P (f y ys)) \<Longrightarrow> okay P (case xs of [] \<Rightarrow> r | y # ys \<Rightarrow> f y ys)"
  by (cases xs) simp_all

lemma okay_receive_or_wait [okay_intros]: "in_step um a \<Longrightarrow> okay (in_step um) (receive_or_wait um sid t a)"
  unfolding receive_or_wait_def Let_def by (intro okay_intros) auto

lemma okay_deliver [okay_intros]: "in_step um a \<Longrightarrow> okay (in_step um) (deliver um frame a)"
  unfolding deliver_def Let_def by (intro okay_intros) auto

lemma okay_accept_incoming [okay_intros]: "in_step um a \<Longrightarrow> okay (in_step um) (accept_incoming_open js mo frame a)"
  unfolding accept_incoming_open_def Let_def by (intro okay_intros) auto

lemma okay_answer: "okay (in_step um) r \<Longrightarrow> okay (in_step um) (answer_with t r)"
  by (cases r) (auto simp: okay_def answer_with_def)

lemma okay_on_stream: "in_step um a \<Longrightarrow> (\<And>en. okay (in_step um) (f en a)) \<Longrightarrow> okay (in_step um) (on_stream sid t f a)"
  unfolding on_stream_def by (intro okay_intros) auto

lemma okay_command_ping: "in_step um a \<Longrightarrow> okay (in_step um) (command_ping um mo g timeout t a)"
  using okay_queue_frame[of um "a\<lparr>ac_next_ping_id := n\<rparr>" Ping 0 p False Control default_context for n p]
  by (auto simp: okay_def command_ping_def Let_def sbind_def split: prod.splits sum.splits option.splits)

lemma okay_command_open: "in_step um a \<Longrightarrow> okay (in_step um) (command_open um js service w cls t a)"
  unfolding command_open_def Let_def by (intro okay_intros) auto

lemma okay_handle_command: "in_step um a \<Longrightarrow> okay (in_step um) (handle_command um js mo c a)"
  by (cases c)
    (auto intro!: okay_on_stream okay_answer okay_intros okay_command_ping okay_command_open split: option.splits)

lemma okay_handle_current: "in_step um a \<Longrightarrow> okay (in_step um) (handle_current_command um js mo c a)"
  unfolding handle_current_command_def by (intro okay_intros okay_handle_command) auto

definition restarts_fresh :: "moment \<Rightarrow> bool" where
  "restarts_fresh mo = (case mo_restart mo of Inl _ \<Rightarrow> True
     | Inr (st, hello) \<Rightarrow> fresh_session st \<and> h_command (f_header hello) = Hello)"

lemma new_items [simp]: "stream_items (scheduler_new m) sid = []"
  by (simp add: stream_items_def classes_of_def scheduler_new_def)

lemma in_step_fresh:
  assumes "fresh_session (ac_state a)" "ac_scheduler a = scheduler_new m" "ac_sequences a = Map.empty" "ac_control_sequence a = 1"
    "since_hello (ac_written a) = []"
  shows "in_step um a"
proof -
  have "expected_sequence Outbound (ac_state a) sid = (if sid = 0 then 1 else 0)" for sid
    using assms(1) unfolding fresh_session_def first_sequence_def by (intro word_unat_eq_iff[THEN iffD2]) (simp split: if_splits)
  then show ?thesis using assms(2-)
    by (simp add: in_step_def sched_inv_new next_sequence_for_def written_on_def queued_on_def first_sequence_def)
qed

lemma in_step_new: "fresh_session st \<Longrightarrow> in_step um (actor_new st restart)"
  by (rule in_step_fresh) (simp_all add: actor_new_def since_hello_def)

lemma in_step_failed: "in_step um ((fail_streams e a)\<lparr>ac_awaiting_restart := True\<rparr>)"
  by (simp add: in_step_def fail_streams_def fail_responses_conv sched_inv_new)

lemma okay_restart_session [okay_intros]:
  assumes "restarts_fresh mo"
  shows "okay (in_step um) (restart_session mo a)"
proof (cases "mo_restart mo")
  case (Inr p)
  obtain st hello where p: "p = (st, hello)" by (cases p)
  have f: "fresh_session st" "h_command (f_header hello) = Hello" using assms Inr p by (simp_all add: restarts_fresh_def)
  have one: "in_step um (b\<lparr>ac_state := st, ac_awaiting_restart := x, ac_written := ac_written b @ [hello]\<rparr>)"
    if "b = fail_streams e c" for b e c x
    using f that by (intro in_step_fresh) (simp_all add: fail_streams_def fail_responses_conv since_hello_def)
  have two: "in_step um (fail_streams ConnTransport (b\<lparr>ac_awaiting_restart := True\<rparr>))" for b
    by (simp add: in_step_def fail_streams_def fail_responses_conv sched_inv_new)
  show ?thesis
    using Inr p one two
    by (cases "checked_add (ac_generation a) 1") (auto simp: restart_session_def okay_def Let_def split: prod.splits)
qed (simp add: restart_session_def okay_def)

lemma okay_inbound_goaway [okay_intros]: "in_step um a \<Longrightarrow> okay (in_step um) (inbound_goaway um a)"
proof -
  have "in_step um ((fail_streams e a)\<lparr>ac_control_sequence := sq, ac_awaiting_restart := True\<rparr>)" for e sq
    by (simp add: in_step_def fail_streams_def fail_responses_conv sched_inv_new)
  then show "in_step um a \<Longrightarrow> okay (in_step um) (inbound_goaway um a)"
    unfolding inbound_goaway_def Let_def by (intro okay_intros) (auto simp: okay_def)
qed

lemma okay_inbound_pong [okay_intros]: "in_step um a \<Longrightarrow> okay (in_step um) (inbound_pong frame a)"
  unfolding inbound_pong_def by (intro okay_intros) auto

lemma okay_dispatch [okay_intros]: "in_step um a \<Longrightarrow> okay (in_step um) (dispatch_inbound um js mo frame a)"
  unfolding dispatch_inbound_def by (cases "h_command (f_header frame)") (auto intro!: okay_intros)

lemma okay_handle_inbound: "in_step um a \<Longrightarrow> restarts_fresh mo \<Longrightarrow> okay (in_step um) (handle_inbound um js mo frame a)"
  unfolding handle_inbound_def Let_def by (intro okay_intros)

definition goes_on :: "(actor \<Rightarrow> bool) \<Rightarrow> bool \<times> actor \<Rightarrow> bool" where
  "goes_on P r = (fst r \<longrightarrow> P (snd r))"

lemma goes_on_recover: "okay (in_step um) r \<Longrightarrow> goes_on (in_step um) (recover mo r)"
  by (cases r; cases "fst r") (auto simp: goes_on_def recover_def okay_def begin_restart_def in_step_failed)

lemma goes_on_command: "in_step um a \<Longrightarrow> goes_on (in_step um) (command_phase um js mo p a)"
  by (auto simp: command_phase_def intro: goes_on_recover okay_handle_current split: polled.splits)
    (simp_all add: goes_on_def)

lemma goes_on_inbound: "in_step um a \<Longrightarrow> restarts_fresh mo \<Longrightarrow> goes_on (in_step um) (inbound_phase um js mo p a)"
  by (auto simp: inbound_phase_def intro: goes_on_recover okay_handle_inbound split: polled.splits inbound_event.splits)
    (simp_all add: goes_on_def)

lemma since_hello_snoc: "h_command (f_header f) \<noteq> Hello \<Longrightarrow> since_hello (fs @ [f]) = since_hello fs @ [f]"
  by (simp add: since_hello_def)

lemma in_step_write:
  assumes "in_step um a" "dequeue um (ac_scheduler a) = (Some x, sc)"
  shows "in_step um (a\<lparr>ac_scheduler := sc, ac_written := ac_written a @ [sf_frame x]\<rparr>)"
proof -
  have inv: "sched_inv um (ac_scheduler a)" using assms(1) by (simp add: in_step_def)
  note d = dequeue_spec[OF inv assms(2)]
  have items: "stream_items (ac_scheduler a) sid = (if sid = sf_stream x then [x] else []) @ stream_items sc sid" for sid
    using d(2) by (simp add: leaves_def)
  have cmd: "list_all (\<lambda>i. h_command (f_header (sf_frame i)) \<noteq> Hello) (stream_items (ac_scheduler a) sid)" for sid
    using assms(1) by (simp add: in_step_def)
  have x: "h_command (f_header (sf_frame x)) \<noteq> Hello" using cmd[of "sf_stream x"] items[of "sf_stream x"] by simp
  let ?b = "a\<lparr>ac_scheduler := sc, ac_written := ac_written a @ [sf_frame x]\<rparr>"
  have "written_on sid ?b @ queued_on sid ?b = written_on sid a @ queued_on sid a" for sid
    using items[of sid] x by (auto simp: written_on_def queued_on_def since_hello_snoc)
  moreover have "next_sequence_for sid ?b = next_sequence_for sid a" for sid by (simp add: next_sequence_for_def)
  moreover have "list_all (\<lambda>i. h_command (f_header (sf_frame i)) \<noteq> Hello) (stream_items sc sid)" for sid
    using cmd[of sid] items[of sid] by simp
  ultimately show ?thesis using assms(1) d(1) by (simp add: in_step_def)
qed

lemma in_step_rested:
  assumes "in_step um a" "dequeue um (ac_scheduler a) = (None, sc)"
  shows "in_step um (a\<lparr>ac_scheduler := sc\<rparr>)"
proof -
  have inv: "sched_inv um (ac_scheduler a)" using assms(1) by (simp add: in_step_def)
  note d = dequeue_spec[OF inv assms(2)]
  have "next_sequence_for sid (a\<lparr>ac_scheduler := sc\<rparr>) = next_sequence_for sid a"
    "written_on sid (a\<lparr>ac_scheduler := sc\<rparr>) = written_on sid a" "queued_on sid (a\<lparr>ac_scheduler := sc\<rparr>) = queued_on sid a" for sid
    using d(2) by (simp_all add: next_sequence_for_def written_on_def queued_on_def leaves_def)
  then show ?thesis using assms(1) d by (simp add: in_step_def leaves_def)
qed

lemma goes_on_write:
  assumes "in_step um a"
  shows "goes_on (in_step um) (write_phase um mo a)"
proof (cases "dequeue um (ac_scheduler a)")
  case (Pair y sc)
  show ?thesis
  proof (cases y)
    case None
    then show ?thesis using Pair in_step_rested[OF assms] by (simp add: write_phase_def goes_on_def)
  next
    case (Some x)
    have w: "in_step um (a\<lparr>ac_scheduler := sc, ac_written := ac_written a @ [sf_frame x]\<rparr>)"
      using Pair Some in_step_write[OF assms] by simp
    have r: "goes_on (in_step um) (recover mo (Inl ConnTransport, a\<lparr>ac_scheduler := sc\<rparr>))"
      by (rule goes_on_recover) (simp add: okay_def)
    then show ?thesis using Pair Some w
      by (cases "mo_written mo") (auto simp: write_phase_def goes_on_def Let_def split: prod.splits option.splits)
  qed
qed

lemma goes_on_turn:
  assumes "in_step um a" "restarts_fresh (tu_moment tu)"
  shows "goes_on (in_step um) (actor_turn um js tu a)"
proof -
  let ?a = "expire_pings (mo_now (tu_moment tu)) a"
  obtain b1 a1 where 1: "command_phase um js (tu_moment tu) (tu_command tu) ?a = (b1, a1)" by fastforce
  obtain b2 a2 where 2: "inbound_phase um js (tu_moment tu) (tu_inbound tu) a1 = (b2, a2)" by fastforce
  obtain b3 a3 where 3: "(if tu_command tu = Empty \<and> tu_inbound tu = Empty \<and> scheduler_is_empty (ac_scheduler a2)
      then command_phase um js (tu_moment tu) (tu_idle tu) a2 else (True, a2)) = (b3, a3)" by fastforce
  have i1: "b1 \<Longrightarrow> in_step um a1" using goes_on_command[of um ?a js] 1 assms(1) by (simp add: goes_on_def split: prod.splits) (metis fst_conv snd_conv)
  have i2: "b1 \<Longrightarrow> b2 \<Longrightarrow> in_step um a2" using goes_on_inbound[OF i1 assms(2), of js "tu_inbound tu"] 2 by (simp add: goes_on_def)
  have i3: "b1 \<Longrightarrow> b2 \<Longrightarrow> b3 \<Longrightarrow> in_step um a3"
    using goes_on_command[OF i2, of js "tu_moment tu" "tu_idle tu"] i2 3 by (auto simp: goes_on_def split: if_splits)
  show ?thesis
    using goes_on_write[OF i3, of "tu_moment tu"] unfolding actor_turn_def Let_def 1 2 prod.case
    by (cases b1; cases b2; cases b3) (simp_all add: 2 3 goes_on_def)
qed

lemma in_step_run:
  "in_step um a \<Longrightarrow> list_all (restarts_fresh \<circ> tu_moment) tus \<Longrightarrow> actor_run um js tus a = (True, a') \<Longrightarrow> in_step um a'"
proof (induction tus arbitrary: a)
  case (Cons tu tus)
  obtain a1 where t: "actor_turn um js tu a = (True, a1)" "actor_run um js tus a1 = (True, a')"
    using Cons.prems(3) by (auto split: prod.splits bool.splits)
  have "in_step um a1" using goes_on_turn[OF Cons.prems(1), of tu js] Cons.prems(2) t(1) by (simp add: goes_on_def)
  then show ?case using Cons.IH Cons.prems(2) t(2) by simp
qed simp

text \<open>
  C8: the actor and the session agree on sequence numbers. As long as the loop of the actor runs and the actor
  does not wait for a restart, whatever the clients, the peer and the transport did before, the frames that
  the actor has written on a stream since the last HELLO carry the numbers from the first one on, without
  a gap and in order, although the scheduler reorders the frames of different streams; the frames still
  queued on the stream carry the numbers after them, up to the one that the session expects of the next
  frame. It is assumed that the first session, and every session that a restart provides, is just behind
  its handshake. While a restart is awaited the claim is not made: the GOAWAY that answers the GOAWAY of
  the peer then follows control frames that were dropped.
\<close>

theorem wire_sequences_consecutive:
  assumes "fresh_session st" "list_all (restarts_fresh \<circ> tu_moment) tus"
    "actor_run um js tus (actor_new st restart) = (True, a)" "\<not> ac_awaiting_restart a"
  shows "written_on sid a @ queued_on sid a = [first_sequence sid ..< unat (expected_sequence Outbound (ac_state a) sid)]"
  using in_step_run[OF in_step_new[OF assms(1)] assms(2,3)] assms(4) unfolding in_step_def by metis

lemma demo_fresh: "fresh_session demo_session"
  by (simp add: fresh_session_def demo_session_def session_eval first_sequence_def)

lemma demo_ping_payload: "ping_payload 0 0 = replicate 16 0"
  by (simp add: ping_payload_def le_bytes_def numeral_eq_Suc)

lemma demo_u32: "u32_try_from 16 = Some 16"
  by (simp add: u32_try_from_def)

lemmas actor_eval = actor_turn_def command_phase_def inbound_phase_def recover_def handle_current_command_def
  Let_def expire_pings_def fail_responses_def command_ping_def MAX_PENDING_PINGS_def queue_frame_def take_sequence_def
  next_sequence_for_def set_sequence_def on_session_def on_scheduler_def frame_new_def process_outbound_def
  enqueue_def scheduler_new_def wire_len_def saturating_add_def HEADER_LEN_def CLASS_COUNT_def MAX_SCHEDULED_BYTES_def
  send_reply_def

definition demo_actor :: actor where
  "demo_actor = (snd (handle_command usize64 demo_json demo_moment (CmdPing 0 5 7) (actor_new demo_session False)))"

lemmas demo_eval = demo_session_def demo_moment_def demo_ping_payload demo_u32 actor_new_def

lemma demo_ping: "handle_command usize64 demo_json demo_moment (CmdPing 0 5 7) (actor_new demo_session False) = (Inr (), demo_actor)"
proof (rule prod_eqI)
  show "fst (handle_command usize64 demo_json demo_moment (CmdPing 0 5 7) (actor_new demo_session False)) = fst (Inr (), demo_actor)"
    by (simp add: demo_eval session_eval actor_eval)
qed (simp add: demo_actor_def)

lemma dequeue_first: "visit um s = (Some x, s') \<Longrightarrow> fs_queued_bytes s \<noteq> 0 \<Longrightarrow> 0 < um \<Longrightarrow> dequeue um s = (Some x, s')"
  by (cases "min (CLASS_COUNT * 512) um") (auto simp: dequeue_def CLASS_COUNT_def min_def split: if_splits)

lemma demo_sched:
  "dequeue usize64 (ac_scheduler demo_actor) = (Some \<lparr>sf_class = Control, sf_frame =
     \<lparr>f_header = (header_new Ping 0 1)\<lparr>h_payload_length := 16\<rparr>, f_payload = replicate 16 0\<rparr>\<rparr>,
     snd (dequeue usize64 (ac_scheduler demo_actor)))" (is "_ = (Some ?x, _)")
proof -
  have "fst (visit usize64 (ac_scheduler demo_actor)) = Some ?x"
    by (simp add: demo_actor_def demo_eval session_eval actor_eval visit_def eligible_def take_frame_def DEFAULT_QUANTA_def)
  moreover have "fs_queued_bytes (ac_scheduler demo_actor) \<noteq> 0"
    by (simp add: demo_actor_def demo_eval session_eval actor_eval)
  ultimately show ?thesis
    using dequeue_first[of usize64 "ac_scheduler demo_actor" ?x "snd (visit usize64 (ac_scheduler demo_actor))"]
    by (simp add: prod_eq_iff)
qed

definition demo_end :: actor where
  "demo_end = snd (actor_run usize64 demo_json [demo_turn (CmdPing 0 5 7)] (actor_new demo_session False))"

lemma demo_start: "expire_pings 0 (actor_new demo_session False) = actor_new demo_session False"
  by (simp add: expire_pings_def fail_responses_def actor_new_def)

lemma demo_run_ping:
  "actor_run usize64 demo_json [demo_turn (CmdPing 0 5 7)] (actor_new demo_session False) = (True, demo_end)"
  "ac_awaiting_restart demo_end = False" "expected_sequence Outbound (ac_state demo_end) 0 = 2"
proof -
  let ?sc = "snd (dequeue usize64 (ac_scheduler demo_actor))"
  have c: "command_phase usize64 demo_json demo_moment (Got (CmdPing 0 5 7)) (actor_new demo_session False) = (True, demo_actor)"
    unfolding command_phase_def handle_current_command_def
    using demo_ping by (simp add: recover_def actor_new_def)
  have w: "ac_write_waiters demo_actor = []" "ac_awaiting_restart demo_actor = False" "expected_sequence Outbound (ac_state demo_actor) 0 = 2"
    by (simp_all add: demo_actor_def demo_eval session_eval actor_eval)
  have "mo_now demo_moment = 0" "mo_written demo_moment" by (simp_all add: demo_moment_def)
  then have "actor_turn usize64 demo_json (demo_turn (CmdPing 0 5 7)) (actor_new demo_session False) =
      (True, demo_actor\<lparr>ac_scheduler := ?sc, ac_written := ac_written demo_actor @ [\<lparr>f_header = (header_new Ping 0 1)\<lparr>h_payload_length := 16\<rparr>, f_payload = replicate 16 0\<rparr>]\<rparr>)"
    unfolding actor_turn_def demo_turn_def Let_def
    by (simp add: demo_start c inbound_phase_def)
      (subst write_phase_def, subst demo_sched, simp add: w header_new_def is_terminal_def FLAG_END_STREAM_def)
  then show "actor_run usize64 demo_json [demo_turn (CmdPing 0 5 7)] (actor_new demo_session False) = (True, demo_end)"
    "ac_awaiting_restart demo_end = False" "expected_sequence Outbound (ac_state demo_end) 0 = 2"
    using w by (simp_all add: demo_end_def)
qed


theorem wire_sequences_consecutive_witness:
  "written_on 0 demo_end @ queued_on 0 demo_end = [1]"
  using wire_sequences_consecutive[OF demo_fresh _ demo_run_ping(1), of 0] demo_run_ping(2,3)
  by (simp add: first_sequence_def upt_rec restarts_fresh_def demo_turn_def demo_moment_def)

end
