(* ===== verification/Spec2Isabelle.thy ===== *)
theory Spec2Isabelle
  imports Wire_Session Scheduler Framing Shell_Protocol Sync_Path Bundle_Sound Launcher_Live
    Actor_Requests Actor_Sequences
begin

text \<open>
  \<^bold>\<open>KindleBridge.\<close> KindleBridge connects a host computer to a Kindle: a host server talks to a daemon on
  the device over USB or TCP, in a framed, multiplexed and flow-controlled protocol (KBP). Over the
  streams of a connection run shells, file transfers and the installation of application bundles, which
  are signed archives. On the device a launcher starts the daemon from one of two slots, watches its
  heartbeat and falls back to the other slot when an update does not come up.

  \<^bold>\<open>The parts and the theories that model them.\<close>

  \<^item> \<open>KB_Prelude\<close>: machine integers, results of fallible calls (\<open>rbind\<close> is the question mark operator),
    methods on a mutable receiver (\<open>sbind\<close> keeps what was written before an error), byte conversions and
    slices, and the lemmas about them that all components use. \<open>Rust_Text\<close> and \<open>Rust_Format\<close> are the
    parts of \<open>str\<close>, \<open>char\<close> and \<open>format!\<close> that the sources use, on UTF-8 byte strings. \<open>Byte_IO\<close> is
    \<open>std::io::Read\<close> and \<open>Write\<close>: a reader is the list of what its calls deliver, short reads, interruptions
    and failures included.

  \<^item> \<open>Wire_Frame\<close> (\<open>crates/kindlebridge-wire/src/frame.rs\<close>, \<open>error.rs\<close>): headers, frames, their codec and
    the checksum. The codec is a bijection between valid frames and accepted byte strings; damage within
    four consecutive bytes of a header is always detected.

  \<^item> \<open>Wire_Session\<close> (\<open>crates/kindlebridge-wire/src/state.rs\<close>): one endpoint of a connection, with every
    check of \<open>process\<close> in the order of the source. \<open>session_step\<close> is the protocol as an inductive relation;
    \<open>process\<close> refines it exactly. Over runs: the well-formedness invariant, consecutive sequence numbers,
    conservation of connection credit, the life of a stream, and fresh stream numbers.

  \<^item> \<open>Scheduler\<close> (\<open>crates/kindlebridge-transport/src/lib.rs\<close>): the deficit round robin over five traffic
    classes and the registry of transports. The locale \<open>stream_fifo\<close> is what the scheduler promises to a
    client: per-stream order. Every queued frame is delivered, the byte bound holds, and one call of
    \<open>dequeue\<close> may return nothing for a large frame.

  \<^item> \<open>Actor\<close> (\<open>crates/kindlebridge-transport/src/actor.rs\<close>): the thread that owns a session state and a
    scheduler. It answers the commands of streams, handles the frames of the peer, writes what the
    scheduler returns and restarts the session. One turn of its loop receives everything from outside
    as a value: a command, a frame, the clock and the outcome of writes. \<open>Actor_Requests\<close>: every request is
    answered at most once and none is left behind. \<open>Actor_Sequences\<close>: the actor, its session state and the
    scheduler agree on the sequence numbers of the frames that reach the wire.

  \<^item> \<open>Framing\<close> (\<open>crates/kindlebridge-transport-tcp/src/framing.rs\<close>, \<open>config.rs\<close>, \<open>error.rs\<close>): frames over
    byte streams. Frames are read back as they were written however the stream is cut into pieces.

  \<^item> \<open>Shell_Protocol\<close> (\<open>crates/kindlebridge-schema/src/shell_protocol.rs\<close>, \<open>device_protocol.rs\<close>) and
    \<open>Sync_Path\<close> (\<open>sync_path.rs\<close>): shell packets and their order, identifiers, and paths below the
    directory that is synchronized.

  \<^item> \<open>Bundle_Model\<close>, \<open>Bundle_Path\<close>, \<open>Bundle_Header\<close>, \<open>Cbor\<close>, \<open>Bundle_Verify\<close>
    (\<open>crates/kindlebridge-bundle/src/model.rs\<close>, \<open>path.rs\<close>, \<open>header.rs\<close>, \<open>cbor.rs\<close>, \<open>verify.rs\<close>): the data
    of a bundle, its paths and links, its header, canonical CBOR, and the inspection and verification of a
    file. \<open>Bundle_Sound\<close> says what a verified bundle guarantees: signature, contents, binding to the root
    hash, account of every byte, device and firmware, rotation of keys, and freedom from panics.

  \<^item> \<open>Launcher_Fs\<close>, \<open>Launcher_Manifest\<close>, \<open>Watchdog\<close> (\<open>device/kindlebridge-launcher/src/fs_safe.rs\<close>,
    \<open>manifest.rs\<close>, \<open>watchdog.rs\<close>, \<open>update.rs\<close>, \<open>main.rs\<close>): the files of the launcher, slot manifests,
    the watchdog and updates. Every call into the operating system asks the environment, an arbitrary
    function of the number of calls, whether it fails before or after its effect; a process that stops in
    the middle is one whose remaining calls fail. \<open>Launcher_Safe\<close>: the launcher opens again whatever
    happened, and a switch of slots is atomic. \<open>Launcher_Live\<close>: the main loop ends.

  \<^bold>\<open>How the parts interact.\<close> The actor calls \<open>process_outbound\<close> and \<open>enqueue\<close> for every frame it sends and
  \<open>process_inbound\<close> for every frame it receives; its properties rest on the step relation of the session
  and on the contract of the scheduler. Framing carries the frames of \<open>Wire_Frame\<close>. Verification composes
  header, canonical CBOR, paths and links. The launcher composes its files, manifests and watchdog.

  \<^bold>\<open>Bounds and fuel.\<close> Machine integers keep their width: sequence numbers, credit, stream numbers, offsets
  and lengths are words, and every checked, saturating or wrapping operation is written out. \<open>um\<close> is the
  largest \<open>usize\<close> and arbitrary. \<open>dequeue\<close> visits at most 2560 classes per call, as the source does, and the
  property on delivery counts calls. \<open>follow_links\<close> stops after sixteen hops like the source. The loop of
  the launcher takes a number of steps as fuel, and a number that is enough is exhibited from every state.
  The loop of the actor runs over the list of its turns. All other recursion ends by itself.

  \<^bold>\<open>Third-party code\<close> is a parameter: BLAKE3, Ed25519, Zstandard, SemVer, Unicode normalization, \<open>serde_json\<close>
  and \<open>serde_cbor\<close>, and the operating system. The properties name what they need of it, and their
  witnesses instantiate it.

  \<^bold>\<open>Not modelled.\<close> Programs around system calls: the TCP and USB endpoints, the FunctionFS gadget, pseudo
  terminals and processes of the device shell, the privilege broker, local sockets of the host, argument
  parsing and printing of the command line tools, benchmarks and scripts. Their behaviour is that of the
  operating system, and what they exchange is modelled where it has a format of its own. The types of
  the RPC schema have derived serializers only. The asynchronous tasks of the host server run over a
  third-party runtime. Text of error messages is left out everywhere; errors keep their kind. Timing of
  threads is visible only as the order of events.
\<close>

end
